(* ===== verification/Prelude.thy ===== *)
theory Prelude
  imports Main "HOL-Library.Word" "HOL-Library.Multiset"
begin

text \<open>
  Shared vocabulary of the development: names for the machine types of the C sources, the
  C integer operations that differ from those of HOL (division towards zero, narrowing
  casts), generic lemmas on lists and words, and the fact collections of the components.
\<close>

unbundle bit_operations_syntax

section \<open>Machine types\<close>

type_synonym byte = "8 word"
type_synonym u16 = "16 word"
type_synonym u32 = "32 word"
type_synonym u64 = "64 word"
type_synonym size_t = "64 word"
type_synonym bytes = "8 word list"

section \<open>C arithmetic\<close>

text \<open>Division and remainder of C round towards zero.\<close>

definition c_div :: "int \<Rightarrow> int \<Rightarrow> int" where
  "c_div a b = sgn a * sgn b * (\<bar>a\<bar> div \<bar>b\<bar>)"

definition c_mod :: "int \<Rightarrow> int \<Rightarrow> int" where
  "c_mod a b = a - b * c_div a b"

text \<open>The narrowing conversion \<open>(int) x\<close> keeps the low 32 bits, read as two's complement.\<close>

definition to_int32 :: "int \<Rightarrow> int" where
  "to_int32 x = sint (word_of_int x :: 32 word)"

definition to_int64 :: "int \<Rightarrow> int" where
  "to_int64 x = sint (word_of_int x :: 64 word)"

section \<open>Fact collections\<close>

named_theorems c_arith \<open>C arithmetic on the values that occur\<close>

lemma c_div_nonneg [c_arith]: "0 \<le> a \<Longrightarrow> 0 < b \<Longrightarrow> c_div a b = a div b"
  by (cases "a = 0") (simp_all add: c_div_def)

lemma c_mod_nonneg [c_arith]: "0 \<le> a \<Longrightarrow> 0 < b \<Longrightarrow> c_mod a b = a mod b"
  by (simp add: c_mod_def c_div_nonneg minus_mult_div_eq_mod)

lemma to_int32_id [c_arith]: "- (2 ^ 31) \<le> x \<Longrightarrow> x < 2 ^ 31 \<Longrightarrow> to_int32 x = x"
  by (simp add: to_int32_def signed_of_int signed_take_bit_int_eq_self)

lemma to_int64_id [c_arith]: "- (2 ^ 63) \<le> x \<Longrightarrow> x < 2 ^ 63 \<Longrightarrow> to_int64 x = x"
  by (simp add: to_int64_def signed_of_int signed_take_bit_int_eq_self)

section \<open>Words\<close>

lemma unat_of_nat_lt: "x < 2 ^ LENGTH('a) \<Longrightarrow> unat (of_nat x :: 'a::len word) = x"
  by (simp only: unsigned_of_nat take_bit_nat_eq_self of_nat_id)

lemma word_xor_cancel [simp]:
  fixes a b c :: "'a::len word"
  shows "a XOR c = b XOR c \<longleftrightarrow> a = b" "c XOR a = c XOR b \<longleftrightarrow> a = b"
  by (auto simp: bit_eq_iff bit_xor_iff)

section \<open>Lists\<close>

lemma find_append:
  "find P (xs @ ys) = (case find P xs of None \<Rightarrow> find P ys | Some x \<Rightarrow> Some x)"
  by (induction xs) auto

section \<open>Circular views of an array\<close>

text \<open>The \<open>n\<close> entries of \<open>d\<close> from index \<open>t\<close> on, wrapping at \<open>N\<close>.\<close>

definition ring_view :: "'a list \<Rightarrow> nat \<Rightarrow> nat \<Rightarrow> nat \<Rightarrow> 'a list" where
  "ring_view d N t n = map (\<lambda>i. d ! ((t + i) mod N)) [0..<n]"

lemma ring_view_length [simp]: "length (ring_view d N t n) = n"
  by (simp add: ring_view_def)

lemma ring_view_0 [simp]: "ring_view d N t 0 = []"
  by (simp add: ring_view_def)

lemma mod_add_distinct:
  fixes i n t N :: nat
  assumes "i < n" "n < N"
  shows "(t + i) mod N \<noteq> (t + n) mod N"
proof
  assume "(t + i) mod N = (t + n) mod N"
  then have "N dvd (t + n) - (t + i)" by (metis mod_eq_dvd_iff_nat assms(1) add_le_cancel_left less_imp_le)
  then have "N dvd n - i" by simp
  then show False using assms by (metis diff_is_0_eq' dvd_imp_le le_trans less_imp_diff_less not_less zero_less_diff)
qed

lemma ring_distance:
  fixes h t N :: nat
  assumes "h < N" "t < N"
  shows "(h + (N - t)) mod N = (if t \<le> h then h - t else h + N - t)"
proof (cases "t \<le> h")
  case True
  then have "h + (N - t) = (h - t) + N" using assms by simp
  then have "(h + (N - t)) mod N = (h - t) mod N" by (simp only: mod_add_self2)
  then show ?thesis using True assms by (simp only: mod_less if_True less_imp_diff_less)
qed (use assms in auto)

lemma ring_distance_step:
  fixes h t N x y t' :: nat
  assumes "h < N" "t < N" "0 < y" "t' = (if t + 1 = N then 0 else t + 1)"
    "x = (if t' \<le> h then h - t' else h + N - t')" "y = (if t \<le> h then h - t else h + N - t)"
  shows "x + 1 = y"
  using assms by (auto split: if_splits)

lemma ring_distance_next:
  fixes h t N :: nat
  assumes "h < N" "t < N" "0 < (h + (N - t)) mod N"
  shows "(h + (N - (t + 1) mod N)) mod N + 1 = (h + (N - t)) mod N"
proof (rule ring_distance_step[OF assms])
  show next_t: "(t + 1) mod N = (if t + 1 = N then 0 else t + 1)" using assms(2) by simp
  have "(t + 1) mod N < N" using assms(2) by simp
  then show "(h + (N - (t + 1) mod N)) mod N =
      (if (t + 1) mod N \<le> h then h - (t + 1) mod N else h + N - (t + 1) mod N)"
    by (rule ring_distance[OF assms(1)])
qed (rule ring_distance[OF assms(1,2)])

lemma ring_view_put:
  assumes "n < N" "length d = N"
  shows "ring_view (d[(t + n) mod N := b]) N t (Suc n) = ring_view d N t n @ [b]"
proof -
  have "(t + n) mod N < length d" using assms by simp
  moreover have "map (\<lambda>i. d[(t + n) mod N := b] ! ((t + i) mod N)) [0..<n] = map (\<lambda>i. d ! ((t + i) mod N)) [0..<n]"
    using mod_add_distinct[OF _ assms(1), of _ t] by (intro map_cong refl) (metis atLeastLessThan_iff nth_list_update_neq set_upt)
  ultimately show ?thesis by (simp add: ring_view_def)
qed

lemma ring_view_get:
  assumes "t < N"
  shows "ring_view d N t (Suc n) = d ! t # ring_view d N ((t + 1) mod N) n"
proof -
  have "[0..<Suc n] = 0 # map Suc [0..<n]" by (simp add: map_Suc_upt upt_conv_Cons)
  then show ?thesis using assms by (auto simp: ring_view_def mod_simps)
qed

lemma ring_view_drop:
  "ring_view d N t (m + n) = ring_view d N t m @ ring_view d N ((t + m) mod N) n"
proof -
  have "[0..<m + n] = [0..<m] @ map (\<lambda>i. i + m) [0..<n]"
    by (simp add: map_add_upt add.commute upt_add_eq_append[of 0 m n, simplified])
  then show ?thesis by (simp add: ring_view_def mod_simps ac_simps)
qed

end
