(* ===== verification/Interfaces.thy ===== *)
theory Interfaces
  imports Prelude
begin

text \<open>
  The contracts that several components share, as locales over the operations of a provider:
  a keyed store (the AVL tree), a bounded first-in first-out channel (the ring buffer of the
  transport layer, the message queue between threads).  The facts that follow for every
  sequence of operations are proved here once; each provider's theory interprets the locale.
\<close>

section \<open>Keyed stores\<close>

datatype 'a store_op = Add 'a | Remove 'a

fun run_store ::
  "('s \<Rightarrow> 'a \<Rightarrow> 's option) \<Rightarrow> ('s \<Rightarrow> 'a \<Rightarrow> 's option) \<Rightarrow> 's \<Rightarrow> 'a store_op list \<Rightarrow> 's option" where
  "run_store add remove s [] = Some s"
| "run_store add remove s (Add x # ops) =
     Option.bind (add s x) (\<lambda>s'. run_store add remove s' ops)"
| "run_store add remove s (Remove x # ops) =
     Option.bind (remove s x) (\<lambda>s'. run_store add remove s' ops)"

fun run_map :: "('a \<Rightarrow> 'k) \<Rightarrow> ('k \<rightharpoonup> 'a) \<Rightarrow> 'a store_op list \<Rightarrow> 'k \<rightharpoonup> 'a" where
  "run_map key m [] = m"
| "run_map key m (Add x # ops) = run_map key (m(key x \<mapsto> x)) ops"
| "run_map key m (Remove x # ops) = run_map key (m(key x := None)) ops"

locale keyed_store =
  fixes invar :: "'s \<Rightarrow> bool"
    and lookup :: "'s \<Rightarrow> 'a \<Rightarrow> 'a option"
    and add :: "'s \<Rightarrow> 'a \<Rightarrow> 's option"
    and remove :: "'s \<Rightarrow> 'a \<Rightarrow> 's option"
    and key :: "'a \<Rightarrow> 'k"
  assumes add_law: "invar s \<Longrightarrow> \<exists>s'. add s x = Some s' \<and> invar s' \<and>
      (\<forall>y. lookup s' y = (if key y = key x then Some x else lookup s y))"
    and remove_law: "invar s \<Longrightarrow> \<exists>s'. remove s x = Some s' \<and> invar s' \<and>
      (\<forall>y. lookup s' y = (if key y = key x then None else lookup s y))"
begin

lemma run_store_refines:
  "invar s \<Longrightarrow> (\<forall>y. lookup s y = m (key y)) \<Longrightarrow>
   \<exists>s'. run_store add remove s ops = Some s' \<and> invar s' \<and> (\<forall>y. lookup s' y = run_map key m ops (key y))"
proof (induction ops arbitrary: s m)
  case Nil
  then show ?case by simp
next
  case (Cons op ops)
  show ?case
  proof (cases op)
    case (Add x)
    with add_law[OF Cons.prems(1), of x] obtain s' where
      "add s x = Some s'" "invar s'" "\<forall>y. lookup s' y = (m(key x \<mapsto> x)) (key y)"
      using Cons.prems(2) by auto
    then show ?thesis using Cons.IH[of s' "m(key x \<mapsto> x)"] Add by (simp del: fun_upd_apply)
  next
    case (Remove x)
    with remove_law[OF Cons.prems(1), of x] obtain s' where
      "remove s x = Some s'" "invar s'" "\<forall>y. lookup s' y = (m(key x := None)) (key y)"
      using Cons.prems(2) by auto
    then show ?thesis using Cons.IH[of s' "m(key x := None)"] Remove by (simp del: fun_upd_apply)
  qed
qed

end

section \<open>First-in first-out channels\<close>

text \<open>
  \<open>put s x\<close> offers the items of \<open>x\<close>; \<open>None\<close> is a refusal that leaves the channel as it was.
  \<open>get s r\<close> asks for items and yields those taken from the front.
\<close>

datatype ('x, 'r) chan_op = Put 'x | Get 'r

fun run_chan ::
  "('s \<Rightarrow> 'x \<Rightarrow> 's option) \<Rightarrow> ('s \<Rightarrow> 'r \<Rightarrow> ('a list \<times> 's) option) \<Rightarrow> ('x \<Rightarrow> 'a list) \<Rightarrow>
   's \<Rightarrow> ('x, 'r) chan_op list \<Rightarrow> 's \<times> 'a list \<times> 'a list" where
  "run_chan put get items s [] = (s, [], [])"
| "run_chan put get items s (Put x # ops) =
     (case put s x of
        None \<Rightarrow> run_chan put get items s ops
      | Some s' \<Rightarrow> let (s'', sent, got) = run_chan put get items s' ops in (s'', items x @ sent, got))"
| "run_chan put get items s (Get r # ops) =
     (case get s r of
        None \<Rightarrow> run_chan put get items s ops
      | Some (ys, s') \<Rightarrow> let (s'', sent, got) = run_chan put get items s' ops in (s'', sent, ys @ got))"

locale fifo =
  fixes invar :: "'s \<Rightarrow> bool"
    and contents :: "'s \<Rightarrow> 'a list"
    and items :: "'x \<Rightarrow> 'a list"
    and put :: "'s \<Rightarrow> 'x \<Rightarrow> 's option"
    and get :: "'s \<Rightarrow> 'r \<Rightarrow> ('a list \<times> 's) option"
  assumes put_law: "invar s \<Longrightarrow> put s x = Some s' \<Longrightarrow> invar s' \<and> contents s' = contents s @ items x"
    and get_law: "invar s \<Longrightarrow> get s r = Some (ys, s') \<Longrightarrow> invar s' \<and> contents s = ys @ contents s'"
begin

lemma run_chan_fifo:
  "invar s \<Longrightarrow> run_chan put get items s ops = (s', sent, got) \<Longrightarrow>
   invar s' \<and> contents s @ sent = got @ contents s'"
proof (induction ops arbitrary: s s' sent got)
  case Nil
  then show ?case by simp
next
  case (Cons op ops)
  show ?case
  proof (cases op)
    case (Put x)
    then show ?thesis
      using Cons.prems Cons.IH[OF Cons.prems(1)] Cons.IH[OF put_law[OF Cons.prems(1), THEN conjunct1]]
        put_law[OF Cons.prems(1)]
      by (fastforce split: option.splits prod.splits)
  next
    case (Get r)
    then show ?thesis
      using Cons.prems Cons.IH[OF Cons.prems(1)] Cons.IH[OF get_law[OF Cons.prems(1), THEN conjunct1]]
        get_law[OF Cons.prems(1)]
      by (fastforce split: option.splits prod.splits)
  qed
qed

end

end
