(* ===== verification/Avl_Tree.thy ===== *)
theory Avl_Tree
  imports Interfaces "HOL-Library.Monad_Syntax"
begin

text \<open>
  The AVL tree of \<^verbatim>\<open>lib/misc/avltree.c\<close>.  A node is the C struct with its stored
  balance \<open>tree_b\<close>; the height-change flag \<open>*pi_balance\<close> is returned as an integer, and the
  payloads handed to the caller's \<open>pfi_delete\<close>/\<open>pfi_uar\<close> callback are returned as a list.
  Following a NULL pointer is the result \<open>None\<close>, so that a theorem which gives a \<open>Some\<close>
  also says that the code does not dereference NULL.
\<close>

section \<open>Nodes\<close>

datatype 'a tree =
  TNull
| TNode (tree_l: "'a tree") (tree_r: "'a tree") (tree_b: int) (tree_p: 'a)

definition tree_init :: "'a tree" where
  "tree_init = TNull"

fun tree_srch :: "'a tree \<Rightarrow> ('a \<Rightarrow> 'a \<Rightarrow> int) \<Rightarrow> 'a \<Rightarrow> 'a option" where
  "tree_srch TNull cmp pc_user = None"
| "tree_srch (TNode l r b p) cmp pc_user =
     (let i_comp = cmp pc_user p in
      if i_comp > 0 then tree_srch r cmp pc_user
      else if i_comp < 0 then tree_srch l cmp pc_user
      else Some p)"

section \<open>Insertion\<close>

text \<open>The two switches of \<open>sprout\<close>, entered when the flag says that a branch has grown.\<close>

definition grownL :: "'a tree \<Rightarrow> 'a tree \<Rightarrow> int \<Rightarrow> 'a \<Rightarrow> ('a tree \<times> int) option" where
  "grownL l r b p =
     (if b = 1 then Some (TNode l r 0 p, 0)
      else if b = 0 then Some (TNode l r (-1) p, 1)
      else if b = -1 then
        (case l of
           TNull \<Rightarrow> None
         | TNode l1 r1 b1 p1 \<Rightarrow>
             if b1 = -1 then Some (TNode l1 (TNode r1 r 0 p) 0 p1, 0)
             else (case r1 of
                     TNull \<Rightarrow> None
                   | TNode l2 r2 b2 p2 \<Rightarrow>
                       Some (TNode (TNode l1 l2 (if b2 = 1 then -1 else 0) p1)
                                   (TNode r2 r (if b2 = -1 then 1 else 0) p) 0 p2, 0)))
      else Some (TNode l r b p, 1))"

definition grownR :: "'a tree \<Rightarrow> 'a tree \<Rightarrow> int \<Rightarrow> 'a \<Rightarrow> ('a tree \<times> int) option" where
  "grownR l r b p =
     (if b = -1 then Some (TNode l r 0 p, 0)
      else if b = 0 then Some (TNode l r 1 p, 1)
      else if b = 1 then
        (case r of
           TNull \<Rightarrow> None
         | TNode l1 r1 b1 p1 \<Rightarrow>
             if b1 = 1 then Some (TNode (TNode l l1 0 p) r1 0 p1, 0)
             else (case l1 of
                     TNull \<Rightarrow> None
                   | TNode l2 r2 b2 p2 \<Rightarrow>
                       Some (TNode (TNode l l2 (if b2 = 1 then -1 else 0) p)
                                   (TNode r2 r1 (if b2 = -1 then 1 else 0) p1) 0 p2, 0)))
      else Some (TNode l r b p, 1))"

text \<open>The result is the new tree, the flag and the payloads given to \<open>pfi_delete\<close>.\<close>

fun sprout :: "('a \<Rightarrow> 'a \<Rightarrow> int) \<Rightarrow> 'a tree \<Rightarrow> 'a \<Rightarrow> ('a tree \<times> int \<times> 'a list) option" where
  "sprout pfi_compare TNull pc_data = Some (TNode TNull TNull 0 pc_data, 1, [])"
| "sprout pfi_compare (TNode l r b p) pc_data =
     (let cmp = pfi_compare pc_data p in
      if cmp < 0 then
        do { (l', bal, freed) \<leftarrow> sprout pfi_compare l pc_data;
             if bal \<noteq> 0
             then do { (t', bal') \<leftarrow> grownL l' r b p; Some (t', bal', freed) }
             else Some (TNode l' r b p, bal, freed) }
      else if cmp > 0 then
        do { (r', bal, freed) \<leftarrow> sprout pfi_compare r pc_data;
             if bal \<noteq> 0
             then do { (t', bal') \<leftarrow> grownR l r' b p; Some (t', bal', freed) }
             else Some (TNode l r' b p, bal, freed) }
      else Some (TNode l r b pc_data, 0, [p]))"

definition tree_add :: "'a tree \<Rightarrow> ('a \<Rightarrow> 'a \<Rightarrow> int) \<Rightarrow> 'a \<Rightarrow> ('a tree \<times> 'a list) option" where
  "tree_add t cmp x = do { (t', bal, freed) \<leftarrow> sprout cmp t x; Some (t', freed) }"

section \<open>Deletion\<close>

definition balanceL :: "'a tree \<Rightarrow> 'a tree \<Rightarrow> int \<Rightarrow> 'a \<Rightarrow> int \<Rightarrow> ('a tree \<times> int) option" where
  "balanceL l r b p bal =
     (if b = -1 then Some (TNode l r 0 p, bal)
      else if b = 0 then Some (TNode l r 1 p, 0)
      else if b = 1 then
        (case r of
           TNull \<Rightarrow> None
         | TNode l1 r1 b1 p1 \<Rightarrow>
             if b1 \<ge> 0 then
               (if b1 = 0 then Some (TNode (TNode l l1 1 p) r1 (-1) p1, 0)
                else Some (TNode (TNode l l1 0 p) r1 0 p1, bal))
             else (case l1 of
                     TNull \<Rightarrow> None
                   | TNode l2 r2 b2 p2 \<Rightarrow>
                       Some (TNode (TNode l l2 (if b2 = 1 then -1 else 0) p)
                                   (TNode r2 r1 (if b2 = -1 then 1 else 0) p1) 0 p2, bal)))
      else Some (TNode l r b p, bal))"

definition balanceR :: "'a tree \<Rightarrow> 'a tree \<Rightarrow> int \<Rightarrow> 'a \<Rightarrow> int \<Rightarrow> ('a tree \<times> int) option" where
  "balanceR l r b p bal =
     (if b = 1 then Some (TNode l r 0 p, bal)
      else if b = 0 then Some (TNode l r (-1) p, 0)
      else if b = -1 then
        (case l of
           TNull \<Rightarrow> None
         | TNode l1 r1 b1 p1 \<Rightarrow>
             if b1 \<le> 0 then
               (if b1 = 0 then Some (TNode l1 (TNode r1 r (-1) p) 1 p1, 0)
                else Some (TNode l1 (TNode r1 r 0 p) 0 p1, bal))
             else (case r1 of
                     TNull \<Rightarrow> None
                   | TNode l2 r2 b2 p2 \<Rightarrow>
                       Some (TNode (TNode l1 l2 (if b2 = 1 then -1 else 0) p1)
                                   (TNode r2 r (if b2 = -1 then 1 else 0) p) 0 p2, bal)))
      else Some (TNode l r b p, bal))"

text \<open>
  \<open>del\<close> walks to the rightmost node below \<open>*ppr_r\<close>, unlinks it and returns its payload, which
  the C code stores in the node \<open>*ppr_q\<close> that is being deleted.
\<close>

fun del :: "'a tree \<Rightarrow> ('a tree \<times> int \<times> 'a) option" where
  "del TNull = None"
| "del (TNode l r b p) =
     (case r of
        TNull \<Rightarrow> Some (l, 1, p)
      | TNode _ _ _ _ \<Rightarrow>
          do { (r', bal, q) \<leftarrow> del r;
               if bal \<noteq> 0
               then do { (t', bal') \<leftarrow> balanceR l r' b p bal; Some (t', bal', q) }
               else Some (TNode l r' b p, bal, q) })"

text \<open>The result is the new tree, \<open>i_ret\<close>, the flag and the payloads given to \<open>pfi_uar\<close>.\<close>

fun recursive_delete ::
  "('a \<Rightarrow> 'a \<Rightarrow> int) \<Rightarrow> 'a tree \<Rightarrow> 'a \<Rightarrow> int \<Rightarrow> ('a tree \<times> int \<times> int \<times> 'a list) option" where
  "recursive_delete pfi_compare TNull pc_user bal = Some (TNull, 0, bal, [])"
| "recursive_delete pfi_compare (TNode l r b p) pc_user bal =
     (let i_comp = pfi_compare p pc_user in
      if i_comp > 0 then
        do { (l', ret, bal', uar) \<leftarrow> recursive_delete pfi_compare l pc_user bal;
             if bal' \<noteq> 0
             then do { (t', bal'') \<leftarrow> balanceL l' r b p bal'; Some (t', ret, bal'', uar) }
             else Some (TNode l' r b p, ret, bal', uar) }
      else if i_comp < 0 then
        do { (r', ret, bal', uar) \<leftarrow> recursive_delete pfi_compare r pc_user bal;
             if bal' \<noteq> 0
             then do { (t', bal'') \<leftarrow> balanceR l r' b p bal'; Some (t', ret, bal'', uar) }
             else Some (TNode l r' b p, ret, bal', uar) }
      else (case r of
              TNull \<Rightarrow> Some (l, 1, 1, [p])
            | TNode _ _ _ _ \<Rightarrow>
               (case l of
                  TNull \<Rightarrow> Some (r, 1, 1, [p])
                | TNode _ _ _ _ \<Rightarrow>
                    do { (l', bal', q) \<leftarrow> del l;
                         if bal' \<noteq> 0
                         then do { (t', bal'') \<leftarrow> balanceL l' r b q bal'; Some (t', 1, bal'', [p]) }
                         else Some (TNode l' r b q, 1, bal', [p]) })))"

definition tree_delete :: "'a tree \<Rightarrow> ('a \<Rightarrow> 'a \<Rightarrow> int) \<Rightarrow> 'a \<Rightarrow> ('a tree \<times> int \<times> 'a list) option" where
  "tree_delete t cmp x =
     do { (t', ret, bal, uar) \<leftarrow> recursive_delete cmp t x 0; Some (t', ret, uar) }"

section \<open>Traversal and destruction\<close>

text \<open>
  \<open>tree_trav\<close> calls \<open>pfi_uar\<close> in order and stops at the first zero; the second component
  lists the payloads it was called on.
\<close>

fun tree_trav :: "'a tree \<Rightarrow> ('a \<Rightarrow> int) \<Rightarrow> int \<times> 'a list" where
  "tree_trav TNull pfi_uar = (1, [])"
| "tree_trav (TNode l r b p) pfi_uar =
     (let (ok, seen) = tree_trav l pfi_uar in
      if ok = 0 then (0, seen)
      else if pfi_uar p = 0 then (0, seen @ [p])
      else let (ok', seen') = tree_trav r pfi_uar in
           if ok' = 0 then (0, seen @ p # seen') else (1, seen @ p # seen'))"

fun tree_mung :: "'a tree \<Rightarrow> 'a tree \<times> 'a list" where
  "tree_mung TNull = (TNull, [])"
| "tree_mung (TNode l r b p) = (TNull, snd (tree_mung l) @ snd (tree_mung r) @ [p])"

section \<open>Well-formed trees\<close>

fun tree_height :: "'a tree \<Rightarrow> nat" where
  "tree_height TNull = 0"
| "tree_height (TNode l r b p) = Suc (max (tree_height l) (tree_height r))"

fun inorder :: "'a tree \<Rightarrow> 'a list" where
  "inorder TNull = []"
| "inorder (TNode l r b p) = inorder l @ p # inorder r"

fun balanced :: "'a tree \<Rightarrow> bool" where
  "balanced TNull = True"
| "balanced (TNode l r b p) =
     (balanced l \<and> balanced r \<and> b = int (tree_height r) - int (tree_height l) \<and> -1 \<le> b \<and> b \<le> 1)"

definition tree_wf :: "('a \<Rightarrow> 'k::linorder) \<Rightarrow> 'a tree \<Rightarrow> bool" where
  "tree_wf key t \<longleftrightarrow> balanced t \<and> sorted_wrt (<) (map key (inorder t))"

text \<open>The abstract sorted list that a tree stands for, with its insertion and deletion.\<close>

fun ins_list :: "('a \<Rightarrow> 'k::linorder) \<Rightarrow> 'a \<Rightarrow> 'a list \<Rightarrow> 'a list" where
  "ins_list key x [] = [x]"
| "ins_list key x (y # ys) =
     (if key x < key y then x # y # ys
      else if key x = key y then x # ys
      else y # ins_list key x ys)"

definition del_list :: "('a \<Rightarrow> 'k) \<Rightarrow> 'a \<Rightarrow> 'a list \<Rightarrow> 'a list" where
  "del_list key x ys = filter (\<lambda>y. key y \<noteq> key x) ys"

declare del.simps [simp del]

section \<open>Rebalancing\<close>

lemma tree_height_0: "tree_height t = 0 \<longleftrightarrow> t = TNull"
  by (cases t) auto

text \<open>
  \<open>grown l\<close> is what the recursion of \<open>sprout\<close> knows of a branch that became one higher: it is
  balanced, and unless it is a new leaf its two branches differ in height.
\<close>

definition grown :: "'a tree \<Rightarrow> bool" where
  "grown t \<longleftrightarrow> balanced t \<and> 0 < tree_height t \<and> (tree_height t \<noteq> 1 \<longrightarrow> tree_b t \<noteq> 0)"

lemma grownL_ok:
  assumes "grown l" "balanced r" "b = int (tree_height r) - (int (tree_height l) - 1)" "-1 \<le> b" "b \<le> 1"
  shows "\<exists>t' bal. grownL l r b p = Some (t', bal) \<and> inorder t' = inorder l @ p # inorder r \<and>
           balanced t' \<and> (bal = 0 \<or> bal = 1 \<and> grown t') \<and>
           int (tree_height t') = 1 + max (int (tree_height l) - 1) (int (tree_height r)) + bal"
proof -
  consider "b = 1" | "b = 0" | "b = -1" using assms(4,5) by linarith
  then show ?thesis
  proof cases
    case 3
    then have h: "int (tree_height l) = int (tree_height r) + 2" using assms(3) by simp
    then obtain l1 r1 b1 p1 where l: "l = TNode l1 r1 b1 p1" by (cases l) auto
    show ?thesis
    proof (cases "b1 = -1")
      case True
      then show ?thesis using assms(1,2) 3 h l by (auto simp: grownL_def grown_def)
    next
      case False
      then obtain l2 r2 b2 p2 where "r1 = TNode l2 r2 b2 p2"
        using assms(1,2) h l by (cases r1) (auto simp: grown_def)
      then show ?thesis using assms(1,2) 3 False h l
        by (auto simp: grownL_def grown_def max_def split: if_splits)
    qed
  qed (use assms in \<open>auto simp: grownL_def grown_def\<close>)
qed

lemma grownR_ok:
  assumes "balanced l" "grown r" "b = (int (tree_height r) - 1) - int (tree_height l)" "-1 \<le> b" "b \<le> 1"
  shows "\<exists>t' bal. grownR l r b p = Some (t', bal) \<and> inorder t' = inorder l @ p # inorder r \<and>
           balanced t' \<and> (bal = 0 \<or> bal = 1 \<and> grown t') \<and>
           int (tree_height t') = 1 + max (int (tree_height l)) (int (tree_height r) - 1) + bal"
proof -
  consider "b = 1" | "b = 0" | "b = -1" using assms(4,5) by linarith
  then show ?thesis
  proof cases
    case 1
    then have h: "int (tree_height r) = int (tree_height l) + 2" using assms(3) by simp
    then obtain l1 r1 b1 p1 where r: "r = TNode l1 r1 b1 p1" by (cases r) auto
    show ?thesis
    proof (cases "b1 = 1")
      case True
      then show ?thesis using assms(1,2) 1 h r by (auto simp: grownR_def grown_def)
    next
      case False
      then obtain l2 r2 b2 p2 where "l1 = TNode l2 r2 b2 p2"
        using assms(1,2) h r by (cases l1) (auto simp: grown_def)
      then show ?thesis using assms(1,2) 1 False h r
        by (auto simp: grownR_def grown_def max_def split: if_splits)
    qed
  qed (use assms in \<open>auto simp: grownR_def grown_def\<close>)
qed

lemma balanceL_ok:
  assumes "balanced l" "balanced r" "b = int (tree_height r) - (int (tree_height l) + 1)" "-1 \<le> b" "b \<le> 1"
  shows "\<exists>t' bal. balanceL l r b p 1 = Some (t', bal) \<and> inorder t' = inorder l @ p # inorder r \<and>
           balanced t' \<and> (bal = 0 \<or> bal = 1) \<and>
           int (tree_height t') = 1 + max (int (tree_height l) + 1) (int (tree_height r)) - bal"
proof -
  consider "b = 1" | "b = 0" | "b = -1" using assms(4,5) by linarith
  then show ?thesis
  proof cases
    case 1
    then have h: "int (tree_height r) = int (tree_height l) + 2" using assms(3) by simp
    then obtain l1 r1 b1 p1 where r: "r = TNode l1 r1 b1 p1" by (cases r) auto
    show ?thesis
    proof (cases "b1 \<ge> 0")
      case True
      then show ?thesis using assms(1,2) 1 h r by (auto simp: balanceL_def)
    next
      case False
      then obtain l2 r2 b2 p2 where "l1 = TNode l2 r2 b2 p2"
        using assms(1,2) h r by (cases l1) (auto)
      then show ?thesis using assms(1,2) 1 False h r
        by (auto simp: balanceL_def max_def split: if_splits)
    qed
  qed (use assms in \<open>auto simp: balanceL_def\<close>)
qed

lemma balanceR_ok:
  assumes "balanced l" "balanced r" "b = (int (tree_height r) + 1) - int (tree_height l)" "-1 \<le> b" "b \<le> 1"
  shows "\<exists>t' bal. balanceR l r b p 1 = Some (t', bal) \<and> inorder t' = inorder l @ p # inorder r \<and>
           balanced t' \<and> (bal = 0 \<or> bal = 1) \<and>
           int (tree_height t') = 1 + max (int (tree_height l)) (int (tree_height r) + 1) - bal"
proof -
  consider "b = 1" | "b = 0" | "b = -1" using assms(4,5) by linarith
  then show ?thesis
  proof cases
    case 3
    then have h: "int (tree_height l) = int (tree_height r) + 2" using assms(3) by simp
    then obtain l1 r1 b1 p1 where l: "l = TNode l1 r1 b1 p1" by (cases l) auto
    show ?thesis
    proof (cases "b1 \<le> 0")
      case True
      then show ?thesis using assms(1,2) 3 h l by (auto simp: balanceR_def)
    next
      case False
      then obtain l2 r2 b2 p2 where "r1 = TNode l2 r2 b2 p2"
        using assms(1,2) h l by (cases r1) (auto)
      then show ?thesis using assms(1,2) 3 False h l
        by (auto simp: balanceR_def max_def split: if_splits)
    qed
  qed (use assms in \<open>auto simp: balanceR_def\<close>)
qed

section \<open>Insertion and deletion keep the balance and never follow NULL\<close>

lemma sprout_balanced:
  "balanced t \<Longrightarrow> \<exists>t' bal freed. sprout cmp t x = Some (t', bal, freed) \<and> balanced t' \<and>
     (bal = 0 \<or> bal = 1 \<and> grown t') \<and> int (tree_height t') = int (tree_height t) + bal"
proof (induction t)
  case TNull
  then show ?case by (simp add: grown_def)
next
  case (TNode l r b p)
  have bal: "balanced l" "balanced r" "b = int (tree_height r) - int (tree_height l)" "-1 \<le> b" "b \<le> 1"
    using TNode.prems by auto
  consider "cmp x p < 0" | "cmp x p > 0" | "cmp x p = 0" by linarith
  then show ?case
  proof cases
    case 1
    from TNode.IH(1)[OF bal(1)] obtain l' bl fr where
      l': "sprout cmp l x = Some (l', bl, fr)" "balanced l'" "bl = 0 \<or> bl = 1 \<and> grown l'"
        "int (tree_height l') = int (tree_height l) + bl" by blast
    show ?thesis
    proof (cases "bl = 0")
      case True
      then show ?thesis using 1 l' bal by simp
    next
      case False
      then obtain t' bl' where "grownL l' r b p = Some (t', bl')" "balanced t'" "bl' = 0 \<or> bl' = 1 \<and> grown t'"
        "int (tree_height t') = 1 + max (int (tree_height l) + 1 - 1) (int (tree_height r)) + bl'"
        using l' bal grownL_ok[of l' r b p] by auto
      then show ?thesis using 1 l' False by simp
    qed
  next
    case 2
    from TNode.IH(2)[OF bal(2)] obtain r' bl fr where
      r': "sprout cmp r x = Some (r', bl, fr)" "balanced r'" "bl = 0 \<or> bl = 1 \<and> grown r'"
        "int (tree_height r') = int (tree_height r) + bl" by blast
    show ?thesis
    proof (cases "bl = 0")
      case True
      then show ?thesis using 2 r' bal by simp
    next
      case False
      then obtain t' bl' where "grownR l r' b p = Some (t', bl')" "balanced t'" "bl' = 0 \<or> bl' = 1 \<and> grown t'"
        "int (tree_height t') = 1 + max (int (tree_height l)) (int (tree_height r) + 1 - 1) + bl'"
        using r' bal grownR_ok[of l r' b p] by auto
      then show ?thesis using 2 r' False by simp
    qed
  next
    case 3
    then show ?thesis using bal by simp
  qed
qed


lemma del_simps:
  "del (TNode l TNull b p) = Some (l, 1, p)"
  "r \<noteq> TNull \<Longrightarrow> del (TNode l r b p) =
     do { (r', bal, q) \<leftarrow> del r;
          if bal \<noteq> 0
          then do { (t', bal') \<leftarrow> balanceR l r' b p bal; Some (t', bal', q) }
          else Some (TNode l r' b p, bal, q) }"
  by (simp add: del.simps, cases r, simp_all add: del.simps)

lemma recursive_delete_root:
  "cmp p x = 0 \<Longrightarrow> recursive_delete cmp (TNode l TNull b p) x bal = Some (l, 1, 1, [p])"
  "cmp p x = 0 \<Longrightarrow> r \<noteq> TNull \<Longrightarrow>
     recursive_delete cmp (TNode TNull r b p) x bal = Some (r, 1, 1, [p])"
  "cmp p x = 0 \<Longrightarrow> l \<noteq> TNull \<Longrightarrow> r \<noteq> TNull \<Longrightarrow>
     recursive_delete cmp (TNode l r b p) x bal =
       do { (l', bal', q) \<leftarrow> del l;
            if bal' \<noteq> 0
            then do { (t', bal'') \<leftarrow> balanceL l' r b q bal'; Some (t', 1, bal'', [p]) }
            else Some (TNode l' r b q, 1, bal', [p]) }"
  subgoal by simp
  subgoal by (cases r) simp_all
  subgoal by (cases l; cases r) auto
  done

declare recursive_delete.simps(2) [simp del]

lemma recursive_delete_left_right:
  "cmp p x > 0 \<Longrightarrow> recursive_delete cmp (TNode l r b p) x bal =
     do { (l', ret, bal', uar) \<leftarrow> recursive_delete cmp l x bal;
          if bal' \<noteq> 0
          then do { (t', bal'') \<leftarrow> balanceL l' r b p bal'; Some (t', ret, bal'', uar) }
          else Some (TNode l' r b p, ret, bal', uar) }"
  "cmp p x < 0 \<Longrightarrow> recursive_delete cmp (TNode l r b p) x bal =
     do { (r', ret, bal', uar) \<leftarrow> recursive_delete cmp r x bal;
          if bal' \<noteq> 0
          then do { (t', bal'') \<leftarrow> balanceR l r' b p bal'; Some (t', ret, bal'', uar) }
          else Some (TNode l r' b p, ret, bal', uar) }"
  by (simp_all only: recursive_delete.simps Let_def if_True if_False less_not_sym)

lemmas recursive_delete_simps = recursive_delete_root recursive_delete_left_right

lemma del_balanced:
  "balanced t \<Longrightarrow> t \<noteq> TNull \<Longrightarrow> \<exists>t' bal q. del t = Some (t', bal, q) \<and> balanced t' \<and>
     (bal = 0 \<or> bal = 1) \<and> int (tree_height t') = int (tree_height t) - bal \<and>
     inorder t = inorder t' @ [q]"
proof (induction t)
  case TNull
  then show ?case by simp
next
  case (TNode l r b p)
  have bal: "balanced l" "balanced r" "b = int (tree_height r) - int (tree_height l)" "-1 \<le> b" "b \<le> 1"
    using TNode.prems by auto
  show ?case
  proof (cases "r = TNull")
    case True
    then show ?thesis using bal by (simp add: del_simps)
  next
    case False
    from TNode.IH(2)[OF bal(2) False] obtain r' bl q where
      r': "del r = Some (r', bl, q)" "balanced r'" "bl = 0 \<or> bl = 1"
        "int (tree_height r') = int (tree_height r) - bl" "inorder r = inorder r' @ [q]" by blast
    note sub = this
    show ?thesis
    proof (cases "bl = 0")
      case True
      then show ?thesis using False sub bal by (simp add: del_simps)
    next
      case nz: False
      then obtain t' bl' where "balanceR l r' b p 1 = Some (t', bl')" "balanced t'" "bl' = 0 \<or> bl' = 1"
        "inorder t' = inorder l @ p # inorder r'"
        "int (tree_height t') = 1 + max (int (tree_height l)) (int (tree_height r)) - bl'"
        using sub bal balanceR_ok[of l r' b p] by auto
      then show ?thesis using nz False sub by (simp add: del_simps)
    qed
  qed
qed

lemma recursive_delete_balanced:
  "balanced t \<Longrightarrow> \<exists>t' ret bal uar. recursive_delete cmp t x 0 = Some (t', ret, bal, uar) \<and>
     balanced t' \<and> (bal = 0 \<or> bal = 1) \<and> int (tree_height t') = int (tree_height t) - bal"
proof (induction t)
  case TNull
  then show ?case by simp
next
  case (TNode l r b p)
  have bal: "balanced l" "balanced r" "b = int (tree_height r) - int (tree_height l)" "-1 \<le> b" "b \<le> 1"
    using TNode.prems by auto
  consider "cmp p x > 0" | "cmp p x < 0" | "cmp p x = 0" by linarith
  then show ?case
  proof cases
    case 1
    from TNode.IH(1)[OF bal(1)] obtain l' rt bl u where
      "recursive_delete cmp l x 0 = Some (l', rt, bl, u)" "balanced l'" "bl = 0 \<or> bl = 1"
        "int (tree_height l') = int (tree_height l) - bl" by blast
    note sub = this
    show ?thesis
    proof (cases "bl = 0")
      case True
      then show ?thesis using 1 sub bal by (simp add: recursive_delete_simps)
    next
      case nz: False
      then obtain t' bl' where "balanceL l' r b p 1 = Some (t', bl')" "balanced t'" "bl' = 0 \<or> bl' = 1"
        "inorder t' = inorder l' @ p # inorder r"
        "int (tree_height t') = 1 + max (int (tree_height l)) (int (tree_height r)) - bl'"
        using sub bal balanceL_ok[of l' r b p] by auto
      then show ?thesis using nz 1 sub by (simp add: recursive_delete_simps)
    qed
  next
    case 2
    from TNode.IH(2)[OF bal(2)] obtain r' rt bl u where
      "recursive_delete cmp r x 0 = Some (r', rt, bl, u)" "balanced r'" "bl = 0 \<or> bl = 1"
        "int (tree_height r') = int (tree_height r) - bl" by blast
    note sub = this
    show ?thesis
    proof (cases "bl = 0")
      case True
      then show ?thesis using 2 sub bal by (simp add: recursive_delete_simps)
    next
      case nz: False
      then obtain t' bl' where "balanceR l r' b p 1 = Some (t', bl')" "balanced t'" "bl' = 0 \<or> bl' = 1"
        "inorder t' = inorder l @ p # inorder r'"
        "int (tree_height t') = 1 + max (int (tree_height l)) (int (tree_height r)) - bl'"
        using sub bal balanceR_ok[of l r' b p] by auto
      then show ?thesis using nz 2 sub by (simp add: recursive_delete_simps)
    qed
  next
    case 3
    show ?thesis
    proof (cases "l = TNull \<or> r = TNull")
      case True
      then show ?thesis using 3 bal by (cases "r = TNull") (auto simp: recursive_delete_root)
    next
      case False
      with del_balanced[OF bal(1)] obtain l' bl q where
        "del l = Some (l', bl, q)" "balanced l'" "bl = 0 \<or> bl = 1"
          "int (tree_height l') = int (tree_height l) - bl" by blast
      note sub = this
      show ?thesis
      proof (cases "bl = 0")
        case True
        then show ?thesis using 3 False sub bal by (simp add: recursive_delete_root)
      next
        case nz: False
        then obtain t' bl' where "balanceL l' r b q 1 = Some (t', bl')" "balanced t'" "bl' = 0 \<or> bl' = 1"
          "inorder t' = inorder l' @ q # inorder r"
          "int (tree_height t') = 1 + max (int (tree_height l)) (int (tree_height r)) - bl'"
          using sub bal balanceL_ok[of l' r b q] by auto
        then show ?thesis using nz 3 False sub by (simp add: recursive_delete_root)
      qed
    qed
  qed
qed

section \<open>Height\<close>

lemma balanced_size: "balanced t \<Longrightarrow> 2 ^ (tree_height t div 2) \<le> length (inorder t) + 1"
proof (induction t)
  case TNull
  then show ?case by simp
next
  case (TNode l r b p)
  let ?h = "tree_height (TNode l r b p)"
  have h: "tree_height l \<ge> ?h - 2" "tree_height r \<ge> ?h - 2" using TNode.prems by auto
  have "(2::nat) ^ ((?h - 2) div 2) \<le> 2 ^ (tree_height l div 2)"
    "(2::nat) ^ ((?h - 2) div 2) \<le> 2 ^ (tree_height r div 2)"
    using h by (auto intro!: power_increasing div_le_mono)
  moreover have "2 ^ (tree_height l div 2) \<le> length (inorder l) + 1"
    "2 ^ (tree_height r div 2) \<le> length (inorder r) + 1" using TNode by simp_all
  ultimately have "2 * 2 ^ ((?h - 2) div 2) \<le> (length (inorder l) + 1) + (length (inorder r) + 1)"
    by linarith
  then have "2 * 2 ^ ((?h - 2) div 2) \<le> length (inorder (TNode l r b p)) + 1" by simp
  moreover have "(2::nat) ^ (?h div 2) \<le> 2 * 2 ^ ((?h - 2) div 2)"
  proof (cases "?h < 2")
    case True
    then show ?thesis by simp
  next
    case False
    then have "?h div 2 = Suc ((?h - 2) div 2)" by linarith
    then show ?thesis by (simp del: tree_height.simps)
  qed
  ultimately show ?case by linarith
qed

section \<open>The sorted list of a tree\<close>

lemma rebalance_inorder:
  "grownL l r b p = Some (t', bal) \<Longrightarrow> inorder t' = inorder l @ p # inorder r"
  "grownR l r b p = Some (t', bal) \<Longrightarrow> inorder t' = inorder l @ p # inorder r"
  "balanceL l r b p bal0 = Some (t', bal) \<Longrightarrow> inorder t' = inorder l @ p # inorder r"
  "balanceR l r b p bal0 = Some (t', bal) \<Longrightarrow> inorder t' = inorder l @ p # inorder r"
  by (auto simp: grownL_def grownR_def balanceL_def balanceR_def split: if_splits tree.splits)

lemma ins_list_left: "key x < key p \<Longrightarrow> ins_list key x (xs @ p # ys) = ins_list key x xs @ p # ys"
  by (induction xs) auto

lemma ins_list_skip: "\<forall>y\<in>set xs. key y < key x \<Longrightarrow> ins_list key x (xs @ ys) = xs @ ins_list key x ys"
  by (induction xs) auto

lemma set_ins_list: "set (ins_list key x xs) \<subseteq> insert x (set xs)"
  by (induction xs) auto

lemma ins_list_sorted:
  "sorted_wrt (<) (map key xs) \<Longrightarrow> sorted_wrt (<) (map key (ins_list key x xs))"
  using set_ins_list by (induction xs) fastforce+

lemma find_ins_list:
  "sorted_wrt (<) (map key xs) \<Longrightarrow>
   find (\<lambda>y. key y = k) (ins_list key x xs) = (if key x = k then Some x else find (\<lambda>y. key y = k) xs)"
  by (induction xs) auto

lemma del_list_sorted: "sorted_wrt (<) (map key xs) \<Longrightarrow> sorted_wrt (<) (map key (del_list key x xs))"
  by (induction xs) (auto simp: del_list_def)

lemma find_del_list:
  "find (\<lambda>y. key y = k) (del_list key x xs) = (if key x = k then None else find (\<lambda>y. key y = k) xs)"
  by (induction xs) (auto simp: del_list_def)

lemma sprout_below:
  "cmp x p < 0 \<Longrightarrow> sprout cmp (TNode l r b p) x = Some (t', bal, freed) \<Longrightarrow>
   \<exists>l' bl. sprout cmp l x = Some (l', bl, freed) \<and> inorder t' = inorder l' @ p # inorder r"
  "0 < cmp x p \<Longrightarrow> sprout cmp (TNode l r b p) x = Some (t', bal, freed) \<Longrightarrow>
   \<exists>r' bl. sprout cmp r x = Some (r', bl, freed) \<and> inorder t' = inorder l @ p # inorder r'"
  by (auto simp: bind_eq_Some_conv rebalance_inorder split: if_splits)

lemma recursive_delete_below:
  "0 < cmp p x \<Longrightarrow> recursive_delete cmp (TNode l r b p) x bal = Some (t', ret, bal', uar) \<Longrightarrow>
   \<exists>l' bl. recursive_delete cmp l x bal = Some (l', ret, bl, uar) \<and> inorder t' = inorder l' @ p # inorder r"
  "cmp p x < 0 \<Longrightarrow> recursive_delete cmp (TNode l r b p) x bal = Some (t', ret, bal', uar) \<Longrightarrow>
   \<exists>r' bl. recursive_delete cmp r x bal = Some (r', ret, bl, uar) \<and> inorder t' = inorder l @ p # inorder r'"
  by (auto simp: recursive_delete_left_right bind_eq_Some_conv rebalance_inorder split: if_splits)

text \<open>
  The contract of the comparison functions that callers pass to the tree: the sign of the
  result orders the payloads by some key.
\<close>

locale comparator =
  fixes cmp :: "'a \<Rightarrow> 'a \<Rightarrow> int" and key :: "'a \<Rightarrow> 'k::linorder"
  assumes cmp_neg: "cmp a b < 0 \<longleftrightarrow> key a < key b"
    and cmp_pos: "0 < cmp a b \<longleftrightarrow> key b < key a"
begin

lemma sprout_inorder:
  "sprout cmp t x = Some (t', bal, freed) \<Longrightarrow> sorted_wrt (<) (map key (inorder t)) \<Longrightarrow>
   inorder t' = ins_list key x (inorder t) \<and> freed = filter (\<lambda>y. key y = key x) (inorder t)"
proof (induction t arbitrary: t' bal freed)
  case TNull
  then show ?case by auto
next
  case (TNode l r b p)
  have srt: "sorted_wrt (<) (map key (inorder l))" "sorted_wrt (<) (map key (inorder r))"
    "\<forall>y\<in>set (inorder l). key y < key p" "\<forall>y\<in>set (inorder r). key p < key y"
    using TNode.prems(2) by (auto simp: sorted_wrt_append)
  consider "key x < key p" | "key p < key x" | "key x = key p" by fastforce
  then show ?case
  proof cases
    case 1
    then have "filter (\<lambda>y. key y = key x) (p # inorder r) = []" using srt by (auto simp: filter_empty_conv)
    then show ?thesis
      using sprout_below(1)[OF _ TNode.prems(1)] TNode.IH(1)[OF _ srt(1)] 1 cmp_neg[of x p]
      by (fastforce simp: ins_list_left)
  next
    case 2
    then have lx: "\<forall>y\<in>set (inorder l). key y < key x" using srt(3) by auto
    then have "filter (\<lambda>y. key y = key x) (inorder l) = []" by (auto simp: filter_empty_conv)
    then show ?thesis
      using sprout_below(2)[OF _ TNode.prems(1)] TNode.IH(2)[OF _ srt(2)] 2 lx cmp_pos[of x p]
      by (fastforce simp: ins_list_skip)
  next
    case 3
    then have lx: "\<forall>y\<in>set (inorder l). key y < key x" and
      "filter (\<lambda>y. key y = key x) (inorder l) = []" "filter (\<lambda>y. key y = key x) (inorder r) = []"
      using srt by (auto simp: filter_empty_conv)
    then show ?thesis
      using TNode.prems(1) 3 cmp_neg[of x p] cmp_pos[of x p] by (auto simp: ins_list_skip)
  qed
qed

lemma recursive_delete_inorder:
  "recursive_delete cmp t x 0 = Some (t', ret, bal, uar) \<Longrightarrow> balanced t \<Longrightarrow>
   sorted_wrt (<) (map key (inorder t)) \<Longrightarrow>
   inorder t' = del_list key x (inorder t) \<and> uar = filter (\<lambda>y. key y = key x) (inorder t) \<and>
   ret = (if uar = [] then 0 else 1)"
proof (induction t arbitrary: t' ret bal uar)
  case TNull
  then show ?case by (simp add: del_list_def)
next
  case (TNode l r b p)
  have srt: "sorted_wrt (<) (map key (inorder l))" "sorted_wrt (<) (map key (inorder r))"
    "\<forall>y\<in>set (inorder l). key y < key p" "\<forall>y\<in>set (inorder r). key p < key y"
    using TNode.prems(3) by (auto simp: sorted_wrt_append)
  have bal: "balanced l" "balanced r" using TNode.prems(2) by auto
  consider "key x < key p" | "key p < key x" | "key x = key p" by fastforce
  then show ?case
  proof cases
    case 1
    then have "\<forall>y\<in>set (p # inorder r). key y \<noteq> key x" using srt by auto
    then have f: "filter (\<lambda>y. key y = key x) (p # inorder r) = []" "del_list key x (p # inorder r) = p # inorder r"
      by (auto simp: filter_empty_conv del_list_def filter_id_conv)
    from 1 recursive_delete_below(1)[OF _ TNode.prems(1)] cmp_pos[of p x] obtain l' bl where
      l': "recursive_delete cmp l x 0 = Some (l', ret, bl, uar)" "inorder t' = inorder l' @ p # inorder r"
      by blast
    show ?thesis using TNode.IH(1)[OF l'(1) bal(1) srt(1)] l'(2) f by (simp add: del_list_def)
  next
    case 2
    then have "\<forall>y\<in>set (inorder l @ [p]). key y \<noteq> key x" using srt by auto
    then have f: "filter (\<lambda>y. key y = key x) (inorder l @ [p]) = []" "del_list key x (inorder l @ [p]) = inorder l @ [p]"
      by (auto simp: filter_empty_conv del_list_def filter_id_conv)
    from 2 recursive_delete_below(2)[OF _ TNode.prems(1)] cmp_neg[of p x] obtain r' bl where
      r': "recursive_delete cmp r x 0 = Some (r', ret, bl, uar)" "inorder t' = inorder l @ p # inorder r'"
      by blast
    show ?thesis using TNode.IH(2)[OF r'(1) bal(2) srt(2)] r'(2) f by (simp add: del_list_def split: if_splits)
  next
    case 3
    then have z: "cmp p x = 0" using cmp_neg[of p x] cmp_pos[of p x] by auto
    have "\<forall>y\<in>set (inorder l @ inorder r). key y \<noteq> key x" using srt 3 by auto
    then have f: "filter (\<lambda>y. key y = key x) (inorder (TNode l r b p)) = [p]"
      "del_list key x (inorder (TNode l r b p)) = inorder l @ inorder r"
      using 3 by (auto simp: filter_empty_conv del_list_def filter_id_conv)
    have "inorder t' = inorder l @ inorder r \<and> uar = [p] \<and> ret = 1"
    proof (cases "l = TNull \<or> r = TNull")
      case True
      then show ?thesis using TNode.prems(1) z by (cases "r = TNull") (auto simp: recursive_delete_root)
    next
      case False
      then show ?thesis using TNode.prems(1) z del_balanced[OF bal(1)]
        by (auto simp: recursive_delete_root rebalance_inorder bind_eq_Some_conv)
    qed
    then show ?thesis using f by simp
  qed
qed

lemma tree_srch_find:
  "sorted_wrt (<) (map key (inorder t)) \<Longrightarrow> tree_srch t cmp x = find (\<lambda>y. key y = key x) (inorder t)"
proof (induction t)
  case TNull
  then show ?case by simp
next
  case (TNode l r b p)
  have srt: "sorted_wrt (<) (map key (inorder l))" "sorted_wrt (<) (map key (inorder r))"
    "\<forall>y\<in>set (inorder l). key y < key p" "\<forall>y\<in>set (inorder r). key p < key y"
    using TNode.prems by (auto simp: sorted_wrt_append)
  consider "key x < key p" | "key p < key x" | "key x = key p" by fastforce
  then show ?case
  proof cases
    case 1
    then have "find (\<lambda>y. key y = key x) (p # inorder r) = None" using srt by (auto simp: find_None_iff)
    then show ?thesis using 1 TNode.IH(1)[OF srt(1)] cmp_neg[of x p] cmp_pos[of x p]
      by (auto simp: find_append split: option.split)
  next
    case 2
    then have "find (\<lambda>y. key y = key x) (inorder l) = None" using srt by (auto simp: find_None_iff)
    then show ?thesis using 2 TNode.IH(2)[OF srt(2)] cmp_pos[of x p] by (auto simp: find_append)
  next
    case 3
    then have "find (\<lambda>y. key y = key x) (inorder l) = None" using srt by (auto simp: find_None_iff)
    then show ?thesis using 3 cmp_neg[of x p] cmp_pos[of x p] by (auto simp: find_append)
  qed
qed

lemma tree_add_wf:
  assumes "tree_wf key t"
  shows "\<exists>t'. tree_add t cmp x = Some (t', filter (\<lambda>y. key y = key x) (inorder t)) \<and>
           tree_wf key t' \<and> inorder t' = ins_list key x (inorder t)"
  using assms sprout_balanced[of t cmp x] sprout_inorder[of t x] ins_list_sorted[of key "inorder t" x]
  by (fastforce simp: tree_wf_def tree_add_def)

lemma tree_delete_wf:
  assumes "tree_wf key t"
  shows "\<exists>t' ret. tree_delete t cmp x = Some (t', ret, filter (\<lambda>y. key y = key x) (inorder t)) \<and>
           ret = (if \<exists>y\<in>set (inorder t). key y = key x then 1 else 0) \<and>
           tree_wf key t' \<and> inorder t' = del_list key x (inorder t)"
proof -
  obtain t' ret bal uar where d: "recursive_delete cmp t x 0 = Some (t', ret, bal, uar)" "balanced t'"
    using assms recursive_delete_balanced[of t cmp x] by (auto simp: tree_wf_def)
  then show ?thesis
    using assms recursive_delete_inorder[OF d(1)] del_list_sorted[of key "inorder t" x]
    by (auto simp: tree_wf_def tree_delete_def filter_empty_conv)
qed

end

section \<open>Traversal\<close>

lemma tree_trav_inorder:
  "tree_trav t f = (if \<forall>y\<in>set (inorder t). f y \<noteq> 0 then (1, inorder t)
                    else (0, takeWhile (\<lambda>y. f y \<noteq> 0) (inorder t) @ [hd (dropWhile (\<lambda>y. f y \<noteq> 0) (inorder t))]))"
  by (induction t) (auto simp: takeWhile_append dropWhile_append)

lemma tree_mung_all: "fst (tree_mung t) = TNull" "mset (snd (tree_mung t)) = mset (inorder t)"
  by (induction t) auto

section \<open>The tree as a keyed store\<close>

sublocale comparator \<subseteq> keyed_store "tree_wf key" "\<lambda>t. tree_srch t cmp"
  "\<lambda>t x. map_option fst (tree_add t cmp x)" "\<lambda>t x. map_option fst (tree_delete t cmp x)" key
proof
  fix t x
  assume wf: "tree_wf key t"
  obtain t' where "tree_add t cmp x = Some (t', filter (\<lambda>y. key y = key x) (inorder t))"
    "tree_wf key t'" "inorder t' = ins_list key x (inorder t)"
    using tree_add_wf[OF wf] by blast
  then show "\<exists>s'. map_option fst (tree_add t cmp x) = Some s' \<and> tree_wf key s' \<and>
      (\<forall>y. tree_srch s' cmp y = (if key y = key x then Some x else tree_srch t cmp y))"
    using wf by (auto simp: tree_srch_find find_ins_list tree_wf_def)
  obtain t' ret where "tree_delete t cmp x = Some (t', ret, filter (\<lambda>y. key y = key x) (inorder t))"
    "tree_wf key t'" "inorder t' = del_list key x (inorder t)"
    using tree_delete_wf[OF wf] by blast
  then show "\<exists>s'. map_option fst (tree_delete t cmp x) = Some s' \<and> tree_wf key s' \<and>
      (\<forall>y. tree_srch s' cmp y = (if key y = key x then None else tree_srch t cmp y))"
    using wf by (auto simp: tree_srch_find find_del_list tree_wf_def)
qed

context comparator
begin

lemma tree_store: "keyed_store (tree_wf key) (\<lambda>t. tree_srch t cmp)
  (\<lambda>t x. map_option fst (tree_add t cmp x)) (\<lambda>t x. map_option fst (tree_delete t cmp x)) key"
  by unfold_locales

end

section \<open>Properties\<close>

lemma comparator_minus: "comparator (\<lambda>a b. a - b :: int) (\<lambda>a. a)"
  by unfold_locales auto

text \<open>C1. For every comparison function that orders the payloads by a key, \<open>tree_add\<close> on a
  balanced search tree follows no NULL pointer, returns a balanced search tree whose in-order
  payloads are the old ones with the new one inserted at its place (or put in the place of the
  one with the same key), and calls \<open>pfi_delete\<close> exactly on the payload it replaces.\<close>

theorem tree_add_correct:
  assumes "comparator cmp key" and "tree_wf key t"
  shows "\<exists>t'. tree_add t cmp x = Some (t', filter (\<lambda>y. key y = key x) (inorder t)) \<and>
           tree_wf key t' \<and> inorder t' = ins_list key x (inorder t)"
  using assms by (rule comparator.tree_add_wf)

theorem tree_add_correct_witness:
  "\<exists>t'. tree_add (TNode (TNode TNull TNull 0 1) TNull (-1) 2) (\<lambda>a b. a - b :: int) 0 = Some (t', []) \<and>
     tree_wf (\<lambda>a. a) t' \<and> inorder t' = [0, 1, 2]"
  using tree_add_correct[OF comparator_minus, of "TNode (TNode TNull TNull 0 1) TNull (-1) 2" 0]
  by (simp add: tree_wf_def)

text \<open>C9. \<open>tree_delete\<close> on a balanced search tree follows no NULL pointer, returns 1 exactly when
  a payload with the given key was in the tree, hands exactly that payload to \<open>pfi_uar\<close>, and
  leaves a balanced search tree of all the other payloads in their order.\<close>

theorem tree_delete_correct:
  assumes "comparator cmp key" and "tree_wf key t"
  shows "\<exists>t' ret. tree_delete t cmp x = Some (t', ret, filter (\<lambda>y. key y = key x) (inorder t)) \<and>
           ret = (if \<exists>y\<in>set (inorder t). key y = key x then 1 else 0) \<and>
           tree_wf key t' \<and> inorder t' = del_list key x (inorder t)"
  using assms by (rule comparator.tree_delete_wf)

theorem tree_delete_correct_witness:
  "\<exists>t'. tree_delete (TNode (TNode TNull TNull 0 1) (TNode TNull TNull 0 3) 0 2) (\<lambda>a b. a - b :: int) 2
       = Some (t', 1, [2]) \<and> tree_wf (\<lambda>a. a) t' \<and> inorder t' = [1, 3]"
  using tree_delete_correct[OF comparator_minus,
      of "TNode (TNode TNull TNull 0 1) (TNode TNull TNull 0 3) 0 2" 2]
  by (simp add: tree_wf_def del_list_def)

text \<open>C10. Every sequence of \<open>tree_add\<close> and \<open>tree_delete\<close> calls from the empty tree runs to its
  end, and \<open>tree_srch\<close> on the tree that results answers for every key what a finite map
  updated by the same calls answers.\<close>

theorem tree_run_correct:
  assumes "comparator cmp key"
  shows "\<exists>t. run_store (\<lambda>t x. map_option fst (tree_add t cmp x))
                (\<lambda>t x. map_option fst (tree_delete t cmp x)) tree_init ops = Some t \<and>
           tree_wf key t \<and> (\<forall>y. tree_srch t cmp y = run_map key Map.empty ops (key y))"
  by (rule keyed_store.run_store_refines[OF comparator.tree_store[OF assms]])
    (simp_all add: tree_init_def tree_wf_def)

theorem tree_run_correct_witness:
  "\<exists>t. run_store (\<lambda>t x. map_option fst (tree_add t (\<lambda>a b. a - b :: int) x))
          (\<lambda>t x. map_option fst (tree_delete t (\<lambda>a b. a - b) x)) tree_init [Add 1, Add 2, Add 3, Remove 2] = Some t \<and>
     tree_srch t (\<lambda>a b. a - b) 3 = Some 3 \<and> tree_srch t (\<lambda>a b. a - b) 2 = None"
  using tree_run_correct[OF comparator_minus, of "[Add 1, Add 2, Add 3, Remove 2]"]
  by (auto simp del: run_store.simps)

text \<open>A balanced tree of height \<open>h\<close> holds at least \<open>2 ^ (h div 2) - 1\<close> payloads, so the
  recursion of \<open>sprout\<close> and \<open>recursive_delete\<close> and the loop of \<open>tree_srch\<close> go at most
  logarithmically deep.\<close>

theorem tree_height_bound:
  assumes "balanced t"
  shows "2 ^ (tree_height t div 2) \<le> length (inorder t) + 1"
  using assms by (rule balanced_size)

theorem tree_height_bound_witness:
  "2 ^ (tree_height (TNode (TNode TNull TNull 0 1) (TNode TNull TNull 0 (3::int)) 0 2) div 2) \<le> (4::nat)"
  using tree_height_bound[of "TNode (TNode TNull TNull 0 1) (TNode TNull TNull 0 (3::int)) 0 2"] by simp

end
