(* ===== verification/Ring_Buffer.thy ===== *)
theory Ring_Buffer
  imports Interfaces
begin

text \<open>
  The byte ring buffer of \<^verbatim>\<open>src/net/ring_buffer.c\<close>.  \<open>size\<close>, \<open>head\<close> and \<open>tail\<close> are 64-bit
  words, because \<open>rb_available\<close> subtracts them and relies on the wrap-around of \<open>size_t\<close>.
  A byte array and its length argument are a list and a word; the bytes a read stores through
  its \<open>out\<close> pointer are returned.
\<close>

section \<open>Model\<close>

record ring_buffer =
  rb_data :: bytes
  rb_size :: size_t
  rb_head :: size_t
  rb_tail :: size_t

text \<open>The argument is what \<open>malloc (size)\<close> returned: \<open>None\<close>, or fresh memory of some content.\<close>

definition rb_create :: "size_t \<Rightarrow> bytes option \<Rightarrow> ring_buffer option" where
  "rb_create sz mem =
     (case mem of
        None \<Rightarrow> None
      | Some d \<Rightarrow> Some \<lparr>rb_data = d, rb_size = sz, rb_head = 0, rb_tail = 0\<rparr>)"

definition rb_available :: "ring_buffer \<Rightarrow> size_t" where
  "rb_available rb = (rb_head rb - rb_tail rb + rb_size rb) mod rb_size rb"

definition rb_space :: "ring_buffer \<Rightarrow> size_t" where
  "rb_space rb = rb_size rb - rb_available rb - 1"

fun rb_write_loop :: "ring_buffer \<Rightarrow> bytes \<Rightarrow> ring_buffer" where
  "rb_write_loop rb [] = rb"
| "rb_write_loop rb (b # bs) =
     rb_write_loop (rb\<lparr>rb_data := (rb_data rb)[unat (rb_head rb) := b],
                       rb_head := (rb_head rb + 1) mod rb_size rb\<rparr>) bs"

definition rb_write :: "ring_buffer \<Rightarrow> bytes \<Rightarrow> size_t \<Rightarrow> ring_buffer \<times> int" where
  "rb_write rb data len =
     (if rb_space rb < len then (rb, 0)
      else (rb_write_loop rb (take (unat len) data), 1))"

fun rb_read_loop :: "ring_buffer \<Rightarrow> nat \<Rightarrow> ring_buffer \<times> bytes" where
  "rb_read_loop rb 0 = (rb, [])"
| "rb_read_loop rb (Suc n) =
     (let (rb', out) = rb_read_loop (rb\<lparr>rb_tail := (rb_tail rb + 1) mod rb_size rb\<rparr>) n
      in (rb', rb_data rb ! unat (rb_tail rb) # out))"

definition rb_read :: "ring_buffer \<Rightarrow> size_t \<Rightarrow> ring_buffer \<times> int \<times> bytes" where
  "rb_read rb len =
     (if rb_available rb < len then (rb, 0, [])
      else let (rb', out) = rb_read_loop rb (unat len) in (rb', 1, out))"

fun rb_peek_loop :: "ring_buffer \<Rightarrow> size_t \<Rightarrow> nat \<Rightarrow> bytes" where
  "rb_peek_loop rb tail 0 = []"
| "rb_peek_loop rb tail (Suc n) =
     rb_data rb ! unat tail # rb_peek_loop rb ((tail + 1) mod rb_size rb) n"

definition rb_peek :: "ring_buffer \<Rightarrow> size_t \<Rightarrow> int \<times> bytes" where
  "rb_peek rb len =
     (if rb_available rb < len then (0, [])
      else (1, rb_peek_loop rb (rb_tail rb) (unat len)))"

definition rb_clear :: "ring_buffer \<Rightarrow> ring_buffer" where
  "rb_clear rb = rb\<lparr>rb_head := 0, rb_tail := 0\<rparr>"

lemma rb_read_loop_numeral [simp]:
  "rb_read_loop rb (numeral k) =
     (let (rb', out) = rb_read_loop (rb\<lparr>rb_tail := (rb_tail rb + 1) mod rb_size rb\<rparr>) (pred_numeral k)
      in (rb', rb_data rb ! unat (rb_tail rb) # out))"
  by (simp only: numeral_eq_Suc rb_read_loop.simps)

section \<open>Invariant and contents\<close>

text \<open>
  No object is larger than \<open>PTRDIFF_MAX\<close> bytes, so the size is below \<open>2 ^ 63\<close> and
  \<open>head - tail + size\<close> cannot wrap past its true value; a size of 0 would divide by zero.
\<close>

definition rb_wf :: "ring_buffer \<Rightarrow> bool" where
  "rb_wf rb \<longleftrightarrow> 0 < unat (rb_size rb) \<and> unat (rb_size rb) < 2 ^ 63 \<and>
     length (rb_data rb) = unat (rb_size rb) \<and>
     rb_head rb < rb_size rb \<and> rb_tail rb < rb_size rb"

definition rb_count :: "ring_buffer \<Rightarrow> nat" where
  "rb_count rb = (unat (rb_head rb) + (unat (rb_size rb) - unat (rb_tail rb))) mod unat (rb_size rb)"

definition rb_contents :: "ring_buffer \<Rightarrow> bytes" where
  "rb_contents rb = ring_view (rb_data rb) (unat (rb_size rb)) (unat (rb_tail rb)) (rb_count rb)"

lemma rb_contents_length [simp]: "length (rb_contents rb) = rb_count rb"
  by (simp add: rb_contents_def)

lemma unat_rb_available: "rb_wf rb \<Longrightarrow> unat (rb_available rb) = rb_count rb"
proof -
  assume wf: "rb_wf rb"
  let ?h = "rb_head rb" and ?t = "rb_tail rb" and ?s = "rb_size rb"
  have "unat (?s - ?t) = unat ?s - unat ?t"
    using wf by (auto simp: rb_wf_def intro!: unat_sub)
  moreover have "unat ?h < unat ?s" using wf by (simp add: rb_wf_def word_less_nat_alt)
  ultimately have "unat (?h + (?s - ?t)) = unat ?h + (unat ?s - unat ?t)"
    using wf by (subst unat_plus_if') (auto simp: rb_wf_def)
  moreover have "?h - ?t + ?s = ?h + (?s - ?t)" by simp
  ultimately show ?thesis
    unfolding rb_available_def rb_count_def by (simp only: unat_mod)
qed

lemma rb_count_less: "rb_wf rb \<Longrightarrow> rb_count rb < unat (rb_size rb)"
  by (simp add: rb_count_def rb_wf_def)

lemma unat_rb_space: "rb_wf rb \<Longrightarrow> unat (rb_space rb) = unat (rb_size rb) - 1 - rb_count rb"
proof -
  assume wf: "rb_wf rb"
  have "rb_available rb \<le> rb_size rb"
    using wf rb_count_less[OF wf] by (simp add: word_le_nat_alt unat_rb_available)
  then have "unat (rb_size rb - rb_available rb) = unat (rb_size rb) - rb_count rb"
    using wf by (simp add: unat_sub unat_rb_available)
  moreover from this have "1 \<le> rb_size rb - rb_available rb"
    using rb_count_less[OF wf] by (simp add: word_le_nat_alt)
  ultimately show ?thesis by (simp add: rb_space_def unat_sub)
qed

lemma unat_next:
  fixes i s :: size_t
  assumes "i < s"
  shows "unat ((i + 1) mod s) = (unat i + 1) mod unat s"
proof -
  have "unat (i + 1) = unat i + 1"
    using assms unsigned_less[of s, where 'a = nat] by (auto simp: unat_plus_if' word_less_nat_alt)
  then show ?thesis by (simp add: unat_mod)
qed

lemma rb_head_pos: "rb_wf rb \<Longrightarrow> unat (rb_head rb) = (unat (rb_tail rb) + rb_count rb) mod unat (rb_size rb)"
proof -
  assume "rb_wf rb"
  then have "unat (rb_head rb) < unat (rb_size rb)" "unat (rb_tail rb) < unat (rb_size rb)"
    by (simp_all add: rb_wf_def word_less_nat_alt)
  then show ?thesis by (simp add: rb_count_def mod_simps)
qed

section \<open>Refinement to a list of bytes\<close>

text \<open>One turn of the write and of the read loop, on the list that the buffer stands for.\<close>

lemma rb_put_byte:
  fixes b :: byte
  assumes "rb_wf rb" "rb_count rb + 1 < unat (rb_size rb)"
  defines "rb' \<equiv> rb\<lparr>rb_data := (rb_data rb)[unat (rb_head rb) := b],
                    rb_head := (rb_head rb + 1) mod rb_size rb\<rparr>"
  shows "rb_wf rb'" "rb_contents rb' = rb_contents rb @ [b]" "rb_size rb' = rb_size rb"
proof -
  let ?N = "unat (rb_size rb)"
  have h: "rb_head rb < rb_size rb" using assms(1) by (simp add: rb_wf_def)
  have "rb_count rb' = ((unat (rb_head rb) + 1) mod ?N + (?N - unat (rb_tail rb))) mod ?N"
    by (simp add: rb_count_def rb'_def unat_next[OF h])
  also have "\<dots> = Suc (unat (rb_head rb) + (?N - unat (rb_tail rb))) mod ?N"
    by (simp add: mod_add_left_eq)
  also have "\<dots> = Suc (rb_count rb)" using assms(2) by (simp add: mod_Suc rb_count_def)
  finally have cnt: "rb_count rb' = Suc (rb_count rb)" .
  show "rb_size rb' = rb_size rb" by (simp add: rb'_def)
  show "rb_wf rb'" using assms(1) by (auto simp: rb_wf_def rb'_def word_less_nat_alt unat_mod)
  show "rb_contents rb' = rb_contents rb @ [b]"
    unfolding rb_contents_def cnt
    using assms(1,2) by (simp add: rb'_def rb_head_pos ring_view_put rb_wf_def)
qed

lemma rb_get_byte:
  assumes "rb_wf rb" "0 < rb_count rb"
  defines "rb' \<equiv> rb\<lparr>rb_tail := (rb_tail rb + 1) mod rb_size rb\<rparr>"
  shows "rb_wf rb'" "rb_contents rb = rb_data rb ! unat (rb_tail rb) # rb_contents rb'"
proof -
  let ?N = "unat (rb_size rb)" and ?t = "unat (rb_tail rb)"
  have t: "rb_tail rb < rb_size rb" using assms(1) by (simp add: rb_wf_def)
  then have tN: "?t < ?N" by (simp add: word_less_nat_alt)
  have "(unat (rb_head rb) + (?N - (?t + 1) mod ?N)) mod ?N + 1 = rb_count rb"
  proof -
    have "unat (rb_head rb) < ?N" using assms(1) by (simp add: rb_wf_def word_less_nat_alt)
    from ring_distance_next[OF this tN] show ?thesis using assms(2) unfolding rb_count_def by blast
  qed
  then have cnt: "rb_count rb = Suc (rb_count rb')"
    using unat_next[OF t] unfolding rb'_def rb_count_def[of "rb\<lparr>rb_tail := _\<rparr>"] by simp
  show "rb_wf rb'" using assms(1) by (auto simp: rb_wf_def rb'_def word_less_nat_alt unat_mod)
  show "rb_contents rb = rb_data rb ! unat (rb_tail rb) # rb_contents rb'"
    unfolding rb_contents_def cnt using ring_view_get[OF tN] by (simp add: rb'_def unat_next[OF t])
qed

lemma rb_write_loop_contents:
  "rb_wf rb \<Longrightarrow> rb_count rb + length bs < unat (rb_size rb) \<Longrightarrow>
   rb_wf (rb_write_loop rb bs) \<and> rb_contents (rb_write_loop rb bs) = rb_contents rb @ bs \<and>
   rb_size (rb_write_loop rb bs) = rb_size rb"
proof (induction bs arbitrary: rb)
  case Nil
  then show ?case by simp
next
  case (Cons b bs)
  let ?rb = "rb\<lparr>rb_data := (rb_data rb)[unat (rb_head rb) := b], rb_head := (rb_head rb + 1) mod rb_size rb\<rparr>"
  have p: "rb_wf ?rb" "rb_contents ?rb = rb_contents rb @ [b]" "rb_size ?rb = rb_size rb"
    using rb_put_byte[OF Cons.prems(1)] Cons.prems(2) by auto
  then have "rb_count ?rb = Suc (rb_count rb)" by (metis rb_contents_length length_append_singleton)
  then show ?case using Cons.IH[OF p(1)] Cons.prems(2) p by simp
qed

lemma rb_read_loop_contents:
  "rb_wf rb \<Longrightarrow> n \<le> rb_count rb \<Longrightarrow> rb_read_loop rb n = (rb', out) \<Longrightarrow>
   rb_wf rb' \<and> rb_contents rb = out @ rb_contents rb' \<and> length out = n \<and>
   out = rb_peek_loop rb (rb_tail rb) n"
proof (induction n arbitrary: rb rb' out)
  case 0
  then show ?case by simp
next
  case (Suc n)
  let ?rb = "rb\<lparr>rb_tail := (rb_tail rb + 1) mod rb_size rb\<rparr>"
  have g: "rb_wf ?rb" "rb_contents rb = rb_data rb ! unat (rb_tail rb) # rb_contents ?rb"
    using rb_get_byte[OF Suc.prems(1)] Suc.prems(2) by auto
  then have "rb_count rb = Suc (rb_count ?rb)" by (metis rb_contents_length length_Cons)
  moreover obtain out' where "rb_read_loop ?rb n = (rb', out')" "out = rb_data rb ! unat (rb_tail rb) # out'"
    using Suc.prems(3) by (auto split: prod.splits)
  moreover have "rb_peek_loop ?rb t m = rb_peek_loop rb t m" for t m
    by (induction m arbitrary: t) auto
  ultimately show ?case using Suc.IH[OF g(1)] Suc.prems(2) g by auto
qed

lemma rb_write_cases:
  assumes "rb_wf rb" "unat len \<le> length data"
  shows "rb_count rb + unat len < unat (rb_size rb) \<Longrightarrow> snd (rb_write rb data len) = 1 \<and>
           rb_wf (fst (rb_write rb data len)) \<and> rb_size (fst (rb_write rb data len)) = rb_size rb \<and>
           rb_contents (fst (rb_write rb data len)) = rb_contents rb @ take (unat len) data"
    and "unat (rb_size rb) \<le> rb_count rb + unat len \<Longrightarrow> rb_write rb data len = (rb, 0)"
  using assms rb_write_loop_contents[of rb "take (unat len) data"] rb_count_less[of rb]
  by (auto simp: rb_write_def word_less_nat_alt unat_rb_space)

lemma rb_read_cases:
  assumes "rb_wf rb"
  shows "unat len \<le> rb_count rb \<Longrightarrow> \<exists>rb'. rb_read rb len = (rb', 1, take (unat len) (rb_contents rb)) \<and>
           rb_wf rb' \<and> rb_size rb' = rb_size rb \<and> rb_contents rb' = drop (unat len) (rb_contents rb)"
    and "rb_count rb < unat len \<Longrightarrow> rb_read rb len = (rb, 0, [])"
proof -
  have sz: "rb_size (fst (rb_read_loop rb n)) = rb_size rb" for n
    by (induction n arbitrary: rb) (simp_all add: case_prod_unfold Let_def)
  show "\<exists>rb'. rb_read rb len = (rb', 1, take (unat len) (rb_contents rb)) \<and>
           rb_wf rb' \<and> rb_size rb' = rb_size rb \<and> rb_contents rb' = drop (unat len) (rb_contents rb)"
    if "unat len \<le> rb_count rb"
  proof -
    obtain rb' out where l: "rb_read_loop rb (unat len) = (rb', out)" by fastforce
    then show ?thesis
      using rb_read_loop_contents[OF assms that l] sz[of "unat len"] that
      by (auto simp: rb_read_def word_less_nat_alt unat_rb_available assms)
  qed
  show "rb_read rb len = (rb, 0, [])" if "rb_count rb < unat len"
    using that assms by (simp add: rb_read_def word_less_nat_alt unat_rb_available)
qed

lemma rb_peek_cases:
  assumes "rb_wf rb"
  shows "rb_peek rb len = (if unat len \<le> rb_count rb then (1, take (unat len) (rb_contents rb)) else (0, []))"
proof -
  obtain rb' out where "rb_read_loop rb (unat len) = (rb', out)" by fastforce
  from rb_read_loop_contents[OF assms _ this] show ?thesis
    using assms by (auto simp: rb_peek_def word_less_nat_alt unat_rb_available)
qed

section \<open>The buffer as a channel\<close>

definition rb_put :: "ring_buffer \<Rightarrow> bytes \<Rightarrow> ring_buffer option" where
  "rb_put rb bs = (if length bs < 2 ^ 64 \<and> snd (rb_write rb bs (of_nat (length bs))) = 1
                   then Some (fst (rb_write rb bs (of_nat (length bs)))) else None)"

definition rb_get :: "ring_buffer \<Rightarrow> size_t \<Rightarrow> (bytes \<times> ring_buffer) option" where
  "rb_get rb len = (let (rb', ok, out) = rb_read rb len in if ok = 1 then Some (out, rb') else None)"

interpretation rbq: fifo rb_wf rb_contents "\<lambda>bs. bs" rb_put rb_get
proof
  fix s s' :: ring_buffer and x
  assume "rb_wf s" "rb_put s x = Some s'"
  then show "rb_wf s' \<and> rb_contents s' = rb_contents s @ x"
    using rb_write_cases[of s "of_nat (length x)" x]
    by (cases "rb_count s + length x < unat (rb_size s)")
      (auto simp: rb_put_def unsigned_of_nat take_bit_nat_eq_self split: if_splits)
next
  fix s s' :: ring_buffer and r ys
  assume "rb_wf s" "rb_get s r = Some (ys, s')"
  then show "rb_wf s' \<and> rb_contents s = ys @ rb_contents s'"
    using rb_read_cases[of s r]
    by (cases "unat r \<le> rb_count s") (auto simp: rb_get_def split: if_splits prod.splits)
qed

section \<open>Properties\<close>

text \<open>C7. In any sequence of \<open>rb_write\<close> and \<open>rb_read\<close> calls on a well-formed ring buffer the bytes
  come out in the order they went in: what was held and then accepted is what was read followed by
  what is still held; refused calls change nothing.\<close>

theorem rb_first_in_first_out:
  assumes "rb_wf rb" and "run_chan rb_put rb_get (\<lambda>bs. bs) rb ops = (rb', sent, got)"
  shows "rb_wf rb' \<and> rb_contents rb @ sent = got @ rb_contents rb'"
  using assms by (rule rbq.run_chan_fifo)

theorem rb_first_in_first_out_witness:
  "let rb = \<lparr>rb_data = [0, 0, 0, 0], rb_size = 4, rb_head = 0, rb_tail = 0\<rparr>;
       (rb', sent, got) = run_chan rb_put rb_get (\<lambda>bs. bs) rb [Put [1, 2], Get 1, Put [3, 4], Get 5, Get 2]
   in rb_contents rb @ sent = got @ rb_contents rb' \<and> got = [1, 2, 3]"
proof -
  let ?rb = "\<lparr>rb_data = [0, 0, 0, 0], rb_size = 4, rb_head = 0, rb_tail = 0\<rparr> :: ring_buffer"
  let ?ops = "[Put [1, 2], Get 1, Put [3, 4], Get 5, Get 2] :: (bytes, size_t) chan_op list"
  have "run_chan rb_put rb_get (\<lambda>bs. bs) ?rb ?ops =
      (\<lparr>rb_data = [1, 2, 3, 4], rb_size = 4, rb_head = 0, rb_tail = 3\<rparr>, [1, 2, 3, 4], [1, 2, 3])"
    by (simp add: rb_put_def rb_get_def rb_write_def rb_read_def rb_space_def rb_available_def)
  moreover have "rb_wf ?rb" by (simp add: rb_wf_def)
  ultimately show ?thesis using rb_first_in_first_out[of ?rb ?ops] by simp
qed

text \<open>\<open>rb_write\<close> either finds room, returns 1 and appends exactly the \<open>len\<close> bytes, or returns 0 and
  leaves the buffer as it was; it succeeds exactly when \<open>rb_space\<close> allows it, and the free space and the
  available bytes always add up to \<open>size - 1\<close>, with no wrap-around in the unsigned arithmetic.\<close>

theorem rb_write_correct:
  assumes "rb_wf rb" and "unat len \<le> length data"
  shows "unat (rb_available rb) = length (rb_contents rb) \<and>
     unat (rb_space rb) + length (rb_contents rb) + 1 = unat (rb_size rb) \<and>
     (let (rb', ok) = rb_write rb data len in
        rb_wf rb' \<and> (ok = 1 \<longleftrightarrow> len \<le> rb_space rb) \<and>
        (if ok = 1 then rb_contents rb' = rb_contents rb @ take (unat len) data else rb' = rb))"
  using rb_write_cases[OF assms] unat_rb_available[OF assms(1)] unat_rb_space[OF assms(1)]
    rb_count_less[OF assms(1)] assms(1)
  by (cases "rb_count rb + unat len < unat (rb_size rb)")
    (auto simp: word_le_nat_alt split: prod.splits)

theorem rb_write_correct_witness:
  "let rb = \<lparr>rb_data = [0, 0, 0, 9], rb_size = 4, rb_head = 0, rb_tail = 3\<rparr> in
   let (rb', ok) = rb_write rb [5, 6] 2 in ok = 1 \<and> rb_contents rb' = [9, 5, 6]"
proof -
  let ?rb = "\<lparr>rb_data = [0, 0, 0, 9], rb_size = 4, rb_head = 0, rb_tail = 3\<rparr> :: ring_buffer"
  have "rb_wf ?rb" "(2 :: size_t) \<le> rb_space ?rb" "rb_contents ?rb = [9]"
    by (simp_all add: rb_wf_def rb_space_def rb_available_def rb_contents_def rb_count_def ring_view_def)
  then show ?thesis using rb_write_correct[of ?rb 2 "[5, 6]"] by (auto split: prod.splits)
qed

text \<open>\<open>rb_read\<close> and \<open>rb_peek\<close> succeed exactly when \<open>len\<close> bytes are held, yield the oldest \<open>len\<close> bytes,
  and \<open>rb_read\<close> alone removes them; otherwise they return 0 and change nothing.\<close>

theorem rb_read_correct:
  assumes "rb_wf rb"
  shows "(let (rb', ok, out) = rb_read rb len; (okp, outp) = rb_peek rb len in
        rb_wf rb' \<and> (ok = 1 \<longleftrightarrow> unat len \<le> length (rb_contents rb)) \<and> okp = ok \<and> outp = out \<and>
        (if ok = 1 then out = take (unat len) (rb_contents rb) \<and> rb_contents rb' = drop (unat len) (rb_contents rb)
         else rb' = rb))"
  using rb_read_cases[OF assms, of len] rb_peek_cases[OF assms, of len] assms
  by (cases "unat len \<le> rb_count rb") auto

theorem rb_read_correct_witness:
  "let (rb', ok, out) = rb_read \<lparr>rb_data = [5, 0, 0, 9], rb_size = 4, rb_head = 1, rb_tail = 3\<rparr> 2 in
   ok = 1 \<and> out = [9, 5]"
proof -
  let ?rb = "\<lparr>rb_data = [5, 0, 0, 9], rb_size = 4, rb_head = 1, rb_tail = 3\<rparr> :: ring_buffer"
  have "rb_wf ?rb" "rb_contents ?rb = [9, 5]"
    by (simp_all add: rb_wf_def rb_contents_def rb_count_def ring_view_def upt_rec)
  then show ?thesis using rb_read_correct[of ?rb 2] by (auto split: prod.splits)
qed

end
