(* ===== verification/Transport.thy ===== *)
theory Transport
  imports Ring_Buffer "HOL-Library.Monad_Syntax"
begin

text \<open>
  The TCP transport of \<^verbatim>\<open>src/net/tcp_transport.c\<close>.  The results of the socket calls are
  arguments: plain values where a function makes a fixed number of calls, and a function on a
  world state of arbitrary type for \<open>send\<close>, which \<open>tcp_flush\<close> calls in a loop.  Descriptors
  that are closed are returned as a list, and following a NULL pointer is \<open>None\<close>.
\<close>

section \<open>State\<close>

datatype trans_state =
  TRANS_STATE_NEW | TRANS_STATE_CONNECTING | TRANS_STATE_CONNECTED
| TRANS_STATE_CLOSING | TRANS_STATE_CLOSED | TRANS_STATE_ERROR

datatype trans_type = TRANS_TYPE_TCP | TRANS_TYPE_UDP | TRANS_TYPE_TLS | TRANS_TYPE_WEBSOCKET

text \<open>\<open>t_ops\<close> says whether the operation table is set; \<open>t_tcp\<close> is \<open>protocol_data\<close>, the \<open>fd\<close> of its
  \<open>tcp_data_t\<close> or NULL.\<close>

record transport =
  t_type :: trans_type
  t_state :: trans_state
  t_ops :: bool
  t_tcp :: "int option"
  t_fd :: int
  t_host :: "string option"
  t_port :: int
  in_buf :: "ring_buffer option"
  out_buf :: "ring_buffer option"

datatype recv_result = Received bytes | RecvWouldBlock | RecvError
datatype send_result = Sent size_t | SendWouldBlock | SendError

section \<open>The TCP operations\<close>

definition tcp_listen :: "transport \<Rightarrow> int \<Rightarrow> int \<Rightarrow> int \<Rightarrow> transport \<times> int \<times> int list" where
  "tcp_listen t fd bind_rc listen_rc =
     (if fd = -1 then (t, -1, [])
      else if bind_rc < 0 then (t, -1, [fd])
      else if listen_rc < 0 then (t, -1, [fd])
      else (t\<lparr>t_tcp := Some fd, t_fd := fd, t_state := TRANS_STATE_CONNECTED\<rparr>, 0, []))"

definition tcp_connect :: "transport \<Rightarrow> int \<Rightarrow> int \<Rightarrow> int \<Rightarrow> transport \<times> int \<times> int list" where
  "tcp_connect t inet_rc fd connect_rc =
     (if inet_rc \<le> 0 then (t, -1, [])
      else if fd = -1 then (t, -1, [])
      else if connect_rc < 0 then (t, -1, [fd])
      else (t\<lparr>t_tcp := Some fd, t_fd := fd, t_state := TRANS_STATE_CONNECTED\<rparr>, 0, []))"

definition tcp_accept :: "transport \<Rightarrow> int \<Rightarrow> string \<Rightarrow> int \<Rightarrow> transport \<times> int" where
  "tcp_accept t fd peer_host peer_port =
     (if fd = -1 then (t, -1)
      else (t\<lparr>t_tcp := Some fd, t_fd := fd, t_state := TRANS_STATE_CONNECTED,
              t_host := Some peer_host, t_port := peer_port\<rparr>, 0))"

text \<open>The result is the transport, the returned \<open>ssize_t\<close> and the bytes left in \<open>buf\<close>.\<close>

definition tcp_read :: "transport \<Rightarrow> size_t \<Rightarrow> recv_result \<Rightarrow> (transport \<times> int \<times> bytes) option" where
  "tcp_read t len recv =
     do { rb \<leftarrow> in_buf t;
          if rb_available rb > 0 then
            (let avail = rb_available rb;
                 to_read = (if len < avail then len else avail);
                 (rb', ok, out) = rb_read rb to_read
             in Some (t\<lparr>in_buf := Some rb'\<rparr>, sint to_read, out))
          else
            (case recv of
               RecvWouldBlock \<Rightarrow> Some (t, 0, [])
             | RecvError \<Rightarrow> Some (t, -1, [])
             | Received bs \<Rightarrow>
                 if bs = [] then Some (t, -1, [])
                 else let (rb', ok) = rb_write rb bs (of_nat (length bs))
                      in Some (t\<lparr>in_buf := Some rb'\<rparr>, int (length bs), bs)) }"

text \<open>
  The loop of \<open>tcp_flush\<close>; every turn takes at least one byte out of the buffer, so the number
  of bytes in it bounds the turns.  The outer \<open>None\<close> is the exhausted bound.
\<close>

fun tcp_flush_loop ::
  "('w \<Rightarrow> bytes \<Rightarrow> 'w \<times> send_result) \<Rightarrow> nat \<Rightarrow> 'w \<Rightarrow> ring_buffer \<Rightarrow> ('w \<times> ring_buffer \<times> int) option" where
  "tcp_flush_loop send 0 w rb = None"
| "tcp_flush_loop send (Suc fuel) w rb =
     (if rb_available rb > 0 then
        (let avail = rb_available rb;
             to_read = (if avail < 4096 then avail else 4096);
             (rb', ok, buf) = rb_read rb to_read;
             (w', res) = send w buf
         in case res of
              SendWouldBlock \<Rightarrow> Some (w', rb', 0)
            | SendError \<Rightarrow> Some (w', rb', -1)
            | Sent n \<Rightarrow> if n < to_read then Some (w', rb', 0) else tcp_flush_loop send fuel w' rb')
      else Some (w, rb, 0))"

definition tcp_flush ::
  "('w \<Rightarrow> bytes \<Rightarrow> 'w \<times> send_result) \<Rightarrow> 'w \<Rightarrow> transport \<Rightarrow> ('w \<times> transport \<times> int) option" where
  "tcp_flush send w t =
     do { rb \<leftarrow> out_buf t;
          (w', rb', rc) \<leftarrow> tcp_flush_loop send (Suc (unat (rb_available rb))) w rb;
          Some (w', t\<lparr>out_buf := Some rb'\<rparr>, rc) }"

definition transport_flush ::
  "('w \<Rightarrow> bytes \<Rightarrow> 'w \<times> send_result) \<Rightarrow> 'w \<Rightarrow> transport \<Rightarrow> ('w \<times> transport \<times> int) option" where
  "transport_flush send w t = (if t_ops t then tcp_flush send w t else Some (w, t, -1))"

definition tcp_write ::
  "('w \<Rightarrow> bytes \<Rightarrow> 'w \<times> send_result) \<Rightarrow> 'w \<Rightarrow> transport \<Rightarrow> bytes \<Rightarrow> size_t \<Rightarrow> ('w \<times> transport \<times> int) option" where
  "tcp_write send w t buf len =
     do { rb \<leftarrow> out_buf t;
          (w1, t1) \<leftarrow> (if rb_space rb < len
                       then do { (w', t', rc) \<leftarrow> transport_flush send w t; Some (w', t') }
                       else Some (w, t));
          rb1 \<leftarrow> out_buf t1;
          if rb_space rb1 < len then Some (w1, t1, -1)
          else let (rb2, ok) = rb_write rb1 buf len
               in Some (w1, t1\<lparr>out_buf := Some rb2\<rparr>, sint len) }"

text \<open>The list holds the descriptors passed to \<open>close\<close>.\<close>

definition tcp_close :: "transport \<Rightarrow> (transport \<times> int list) option" where
  "tcp_close t =
     do { fd \<leftarrow> t_tcp t;
          if fd \<noteq> -1
          then Some (t\<lparr>t_tcp := Some (-1), t_state := TRANS_STATE_CLOSED\<rparr>, [fd])
          else Some (t\<lparr>t_state := TRANS_STATE_CLOSED\<rparr>, []) }"

definition tcp_get_fd :: "transport \<Rightarrow> int option" where
  "tcp_get_fd t = t_tcp t"

definition tcp_destroy :: "transport \<Rightarrow> (transport \<times> int list) option" where
  "tcp_destroy t =
     (case t_tcp t of
        None \<Rightarrow> Some (t, [])
      | Some _ \<Rightarrow> do { (t', closed) \<leftarrow> tcp_close t; Some (t'\<lparr>t_tcp := None\<rparr>, closed) })"

section \<open>Creation and the wrappers over the operation table\<close>

text \<open>\<open>mem_in\<close> and \<open>mem_out\<close> are what \<open>malloc\<close> returned for the two buffers; \<open>calloc\<close> zeroes the
  rest, the descriptor of a TCP transport included.\<close>

definition transport_create :: "trans_type \<Rightarrow> size_t \<Rightarrow> bytes option \<Rightarrow> bytes option \<Rightarrow> transport" where
  "transport_create type buf_size mem_in mem_out =
     \<lparr>t_type = type, t_state = TRANS_STATE_NEW,
      t_ops = (type = TRANS_TYPE_TCP),
      t_tcp = (if type = TRANS_TYPE_TCP then Some 0 else None),
      t_fd = 0, t_host = None, t_port = 0,
      in_buf = rb_create buf_size mem_in, out_buf = rb_create buf_size mem_out\<rparr>"

definition transport_destroy :: "transport \<Rightarrow> int list option" where
  "transport_destroy t = (if t_ops t then map_option snd (tcp_destroy t) else Some [])"

definition transport_listen :: "transport \<Rightarrow> int \<Rightarrow> int \<Rightarrow> int \<Rightarrow> transport \<times> int \<times> int list" where
  "transport_listen t fd bind_rc listen_rc =
     (if t_ops t then tcp_listen t fd bind_rc listen_rc else (t, -1, []))"

definition transport_connect :: "transport \<Rightarrow> int \<Rightarrow> int \<Rightarrow> int \<Rightarrow> transport \<times> int \<times> int list" where
  "transport_connect t inet_rc fd connect_rc =
     (if t_ops t then tcp_connect t inet_rc fd connect_rc else (t, -1, []))"

definition transport_accept :: "transport \<Rightarrow> int \<Rightarrow> string \<Rightarrow> int \<Rightarrow> transport \<times> int" where
  "transport_accept t fd peer_host peer_port =
     (if t_ops t then tcp_accept t fd peer_host peer_port else (t, -1))"

definition transport_read :: "transport \<Rightarrow> size_t \<Rightarrow> recv_result \<Rightarrow> (transport \<times> int \<times> bytes) option" where
  "transport_read t len recv = (if t_ops t then tcp_read t len recv else Some (t, -1, []))"

definition transport_write ::
  "('w \<Rightarrow> bytes \<Rightarrow> 'w \<times> send_result) \<Rightarrow> 'w \<Rightarrow> transport \<Rightarrow> bytes \<Rightarrow> size_t \<Rightarrow> ('w \<times> transport \<times> int) option" where
  "transport_write send w t buf len =
     (if t_ops t then tcp_write send w t buf len else Some (w, t, -1))"

definition transport_close :: "transport \<Rightarrow> (transport \<times> int list) option" where
  "transport_close t = (if t_ops t then tcp_close t else Some (t, []))"

definition transport_get_fd :: "transport \<Rightarrow> int option" where
  "transport_get_fd t = (if t_ops t then tcp_get_fd t else Some (-1))"

definition transport_get_state :: "transport option \<Rightarrow> trans_state" where
  "transport_get_state p = (case p of Some t \<Rightarrow> t_state t | None \<Rightarrow> TRANS_STATE_CLOSED)"

section \<open>Flushing\<close>

lemma rb_available_pos: "rb_wf rb \<Longrightarrow> 0 < rb_available rb \<longleftrightarrow> rb_contents rb \<noteq> []"
  using unat_rb_available[of rb] rb_contents_length[of rb]
  by (metis length_greater_0_conv unat_eq_zero word_greater_zero_iff zero_less_iff_neq_zero)

lemma rb_count_drop: "rb_contents rb' = drop k (rb_contents rb) \<Longrightarrow> rb_count rb' = rb_count rb - k"
  by (metis rb_contents_length length_drop)

lemma rb_count_pos: "rb_contents rb \<noteq> [] \<Longrightarrow> 0 < rb_count rb"
  by (metis rb_contents_length length_greater_0_conv)

text \<open>One turn of the loop takes a non-empty prefix of at most 4096 bytes.\<close>

lemma flush_chunk:
  fixes rb :: ring_buffer
  assumes "rb_wf rb" "rb_contents rb \<noteq> []"
  defines "to_read \<equiv> if rb_available rb < 4096 then rb_available rb else 4096"
  obtains rb' where
    "rb_read rb to_read = (rb', 1, take (unat to_read) (rb_contents rb))"
    "rb_wf rb'" "rb_contents rb' = drop (unat to_read) (rb_contents rb)" "0 < unat to_read"
    "unat to_read = min (rb_count rb) 4096"
proof -
  have c: "unat to_read = min (rb_count rb) 4096"
    using assms(1) by (auto simp: to_read_def word_less_nat_alt unat_rb_available)
  moreover have "0 < rb_count rb" using assms(2) by (rule rb_count_pos)
  ultimately show thesis
    using rb_read_cases(1)[OF assms(1), of to_read] that by auto
qed

lemma tcp_flush_loop_total:
  "rb_wf rb \<Longrightarrow> rb_count rb < fuel \<Longrightarrow>
   \<exists>w' rb' rc. tcp_flush_loop send fuel w rb = Some (w', rb', rc) \<and> rb_wf rb' \<and>
     (\<exists>k. rb_contents rb' = drop k (rb_contents rb))"
proof (induction fuel arbitrary: w rb)
  case 0
  then show ?case by simp
next
  case (Suc fuel)
  show ?case
  proof (cases "rb_contents rb = []")
    case True
    then show ?thesis using Suc.prems rb_available_pos[of rb] by (auto intro: exI[of _ 0])
  next
    case False
    let ?n = "if rb_available rb < 4096 then rb_available rb else 4096"
    obtain rb' where r: "rb_read rb ?n = (rb', 1, take (unat ?n) (rb_contents rb))"
      "rb_wf rb'" "rb_contents rb' = drop (unat ?n) (rb_contents rb)" "0 < unat ?n"
      using flush_chunk[OF Suc.prems(1) False] by metis
    obtain w' res where sd: "send w (take (unat ?n) (rb_contents rb)) = (w', res)" by fastforce
    have "rb_count rb' < fuel"
      using rb_count_drop[OF r(3)] rb_count_pos[OF False] r(4) Suc.prems(2) by linarith
    from Suc.IH[OF r(2) this, of w'] obtain w'' rb'' rc k where
      "tcp_flush_loop send fuel w' rb' = Some (w'', rb'', rc)" "rb_wf rb''"
      "rb_contents rb'' = drop k (rb_contents rb')" by blast
    then have rec: "tcp_flush_loop send fuel w' rb' = Some (w'', rb'', rc)" "rb_wf rb''"
      "rb_contents rb'' = drop (k + unat ?n) (rb_contents rb)" using r(3) by (simp_all add: add.commute)
    have pos: "rb_available rb > 0" using False Suc.prems(1) by (simp add: rb_available_pos)
    have st: "tcp_flush_loop send (Suc fuel) w rb =
        (case res of SendWouldBlock \<Rightarrow> Some (w', rb', 0) | SendError \<Rightarrow> Some (w', rb', -1)
         | Sent n \<Rightarrow> if n < ?n then Some (w', rb', 0) else tcp_flush_loop send fuel w' rb')"
      using pos r(1) sd by (simp add: Let_def del: if_split)
    show ?thesis
    proof (cases "\<exists>n. res = Sent n \<and> \<not> n < ?n")
      case True
      then show ?thesis using rec unfolding st by auto
    next
      case False
      then show ?thesis using r(2,3) unfolding st by (auto split: send_result.split if_splits)
    qed
  qed
qed

text \<open>The hypothesis on \<open>send\<close> that holds while the socket buffer has room: it takes every byte.\<close>

definition send_accepts :: "('w \<Rightarrow> bytes \<Rightarrow> 'w \<times> send_result) \<Rightarrow> ('w \<Rightarrow> bytes) \<Rightarrow> bool" where
  "send_accepts send log \<longleftrightarrow>
     (\<forall>w bs. \<exists>w'. send w bs = (w', Sent (of_nat (length bs))) \<and> log w' = log w @ bs)"

lemma tcp_flush_loop_accepts:
  assumes "send_accepts send log"
  shows "rb_wf rb \<Longrightarrow> rb_count rb < fuel \<Longrightarrow>
   \<exists>w' rb'. tcp_flush_loop send fuel w rb = Some (w', rb', 0) \<and> rb_wf rb' \<and>
     rb_contents rb' = [] \<and> log w' = log w @ rb_contents rb"
proof (induction fuel arbitrary: w rb)
  case 0
  then show ?case by simp
next
  case (Suc fuel)
  show ?case
  proof (cases "rb_contents rb = []")
    case True
    then show ?thesis using Suc.prems rb_available_pos[of rb] by auto
  next
    case False
    let ?n = "if rb_available rb < 4096 then rb_available rb else 4096"
    obtain rb' where r: "rb_read rb ?n = (rb', 1, take (unat ?n) (rb_contents rb))"
      "rb_wf rb'" "rb_contents rb' = drop (unat ?n) (rb_contents rb)" "0 < unat ?n"
      "unat ?n = min (rb_count rb) 4096"
      using flush_chunk[OF Suc.prems(1) False] by metis
    let ?bs = "take (unat ?n) (rb_contents rb)"
    have "length ?bs = unat ?n" using r(5) by simp
    then have len: "of_nat (length ?bs) = ?n" by (simp only: of_nat_unat ucast_id)
    have "\<exists>w'. send w ?bs = (w', Sent (of_nat (length ?bs))) \<and> log w' = log w @ ?bs"
      using assms unfolding send_accepts_def by blast
    then obtain w' where sd: "send w ?bs = (w', Sent ?n)" "log w' = log w @ ?bs"
      unfolding len by blast
    have "rb_count rb' < fuel"
      using rb_count_drop[OF r(3)] rb_count_pos[OF False] r(4) Suc.prems(2) by linarith
    from Suc.IH[OF r(2) this, of w'] obtain w'' rb'' where
      "tcp_flush_loop send fuel w' rb' = Some (w'', rb'', 0)" "rb_wf rb''" "rb_contents rb'' = []"
      "log w'' = log w' @ rb_contents rb'" by blast
    moreover have "tcp_flush_loop send (Suc fuel) w rb = tcp_flush_loop send fuel w' rb'"
      using False Suc.prems(1) r(1) sd by (simp add: rb_available_pos Let_def del: if_split)
    ultimately show ?thesis using sd(2) r(3) by simp
  qed
qed

section \<open>Properties\<close>

text \<open>C23. Whatever \<open>send\<close> answers, \<open>tcp_flush\<close> on a well-formed output buffer returns (its loop
  ends), keeps the buffer well-formed and only removes bytes from its front.\<close>

theorem tcp_flush_returns:
  assumes "out_buf t = Some rb" and "rb_wf rb"
  shows "\<exists>w' t' rb' rc k. tcp_flush send w t = Some (w', t', rc) \<and> out_buf t' = Some rb' \<and>
           rb_wf rb' \<and> rb_contents rb' = drop k (rb_contents rb)"
  using assms tcp_flush_loop_total[of rb "Suc (unat (rb_available rb))" send w]
  by (fastforce simp: tcp_flush_def unat_rb_available simp del: tcp_flush_loop.simps)

theorem tcp_flush_returns_witness:
  "\<exists>w' t' rb' rc k. tcp_flush (\<lambda>w bs. (w, SendWouldBlock)) () (transport_create TRANS_TYPE_TCP 4 (Some [0, 0, 0, 0]) (Some [0, 0, 0, 0])) =
     Some (w', t', rc) \<and> out_buf t' = Some rb' \<and> rb_wf rb' \<and>
     rb_contents rb' = drop k (rb_contents \<lparr>rb_data = [0, 0, 0, 0], rb_size = 4, rb_head = 0, rb_tail = 0\<rparr>)"
proof -
  have "rb_wf \<lparr>rb_data = [0, 0, 0, 0], rb_size = 4, rb_head = 0, rb_tail = 0\<rparr>" by (simp add: rb_wf_def)
  then show ?thesis by (intro tcp_flush_returns) (simp_all add: transport_create_def rb_create_def)
qed

text \<open>C16. While the socket takes every byte it is offered, \<open>tcp_flush\<close> returns 0, sends exactly
  the bytes of the output buffer in their order and leaves the buffer empty.\<close>

theorem tcp_flush_delivers:
  assumes "send_accepts send log" and "out_buf t = Some rb" and "rb_wf rb"
  shows "\<exists>w' t' rb'. tcp_flush send w t = Some (w', t', 0) \<and> out_buf t' = Some rb' \<and>
           rb_contents rb' = [] \<and> log w' = log w @ rb_contents rb"
  using assms(2,3) tcp_flush_loop_accepts[OF assms(1) assms(3), of "Suc (unat (rb_available rb))" w]
  by (auto simp: tcp_flush_def unat_rb_available simp del: tcp_flush_loop.simps)

theorem tcp_flush_delivers_witness:
  "\<exists>w' t' rb'. tcp_flush (\<lambda>w bs. (w @ bs, Sent (of_nat (length bs)))) [7] (transport_create TRANS_TYPE_TCP 4 None None
       \<lparr>out_buf := Some \<lparr>rb_data = [8, 9, 0, 0], rb_size = 4, rb_head = 2, rb_tail = 0\<rparr>\<rparr>) =
     Some (w', t', 0) \<and> out_buf t' = Some rb' \<and> rb_contents rb' = [] \<and> w' = [7, 8, 9]"
proof -
  let ?rb = "\<lparr>rb_data = [8, 9, 0, 0], rb_size = 4, rb_head = 2, rb_tail = 0\<rparr> :: ring_buffer"
  have "rb_wf ?rb" "rb_contents ?rb = [8, 9]" 
    by (simp_all add: rb_wf_def rb_contents_def rb_count_def ring_view_def upt_rec)
  moreover have "send_accepts (\<lambda>w bs. (w @ bs, Sent (of_nat (length bs)))) (\<lambda>w. w)"
    by (simp add: send_accepts_def)
  ultimately show ?thesis
    using tcp_flush_delivers[of "\<lambda>w bs. (w @ bs, Sent (of_nat (length bs)))" "\<lambda>w. w"
        "transport_create TRANS_TYPE_TCP 4 None None\<lparr>out_buf := Some ?rb\<rparr>" ?rb "[7]"]
    by simp
qed

text \<open>C24. Bytes received while the input buffer is empty are returned to the caller and also
  stored in the input buffer, so the next \<open>tcp_read\<close> delivers the same bytes once more.\<close>

theorem tcp_read_delivers_twice:
  assumes "in_buf t = Some rb" and "rb_wf rb" and "rb_contents rb = []"
    and "bs \<noteq> []" and "length bs \<le> unat len" and "length bs < unat (rb_size rb)"
  shows "\<exists>t1 t2. tcp_read t len (Received bs) = Some (t1, int (length bs), bs) \<and>
           tcp_read t1 len r = Some (t2, int (length bs), bs)"
proof -
  have lt: "length bs < 2 ^ 63" using assms(2,6) by (simp add: rb_wf_def)
  then have n: "unat (of_nat (length bs) :: size_t) = length bs"
    by (simp add: unsigned_of_nat take_bit_nat_eq_self)
  have c0: "rb_count rb = 0" using assms(3) by (metis rb_contents_length list.size(3))
  obtain rb1 where w: "rb_write rb bs (of_nat (length bs)) = (rb1, 1)" "rb_wf rb1" "rb_contents rb1 = bs"
    using rb_write_cases(1)[OF assms(2), of "of_nat (length bs)" bs] n c0 assms(3,6)
    by (cases "rb_write rb bs (of_nat (length bs))") auto
  have av: "rb_available rb = 0" using unat_rb_available[OF assms(2)] c0 by (simp add: unat_eq_0)
  have r1: "tcp_read t len (Received bs) = Some (t\<lparr>in_buf := Some rb1\<rparr>, int (length bs), bs)"
    using assms(1,4) av w(1) by (simp add: tcp_read_def)
  have c1: "rb_count rb1 = length bs" using w(3) by (metis rb_contents_length)
  then have av1: "rb_available rb1 = of_nat (length bs)"
    using unat_rb_available[OF w(2)] n by (simp add: word_eq_iff_unsigned[where 'a = nat])
  then have pos: "rb_available rb1 > 0" and le: "\<not> len < rb_available rb1"
    using assms(4,5) n by (auto simp: word_less_nat_alt)
  have s: "sint (of_nat (length bs) :: size_t) = int (length bs)"
    using lt by (simp add: signed_of_nat signed_take_bit_int_eq_self)
  obtain rb2 where "rb_read rb1 (rb_available rb1) = (rb2, 1, bs)"
    using rb_read_cases(1)[OF w(2), of "rb_available rb1"] av1 n c1 w(3) by auto
  then show ?thesis using r1 pos le av1 s by (simp add: tcp_read_def)
qed

theorem tcp_read_delivers_twice_witness:
  "\<exists>t1 t2. tcp_read (transport_create TRANS_TYPE_TCP 4 (Some [0, 0, 0, 0]) None) 2 (Received [5, 6]) = Some (t1, 2, [5, 6]) \<and>
     tcp_read t1 2 RecvWouldBlock = Some (t2, 2, [5, 6])"
proof -
  let ?rb = "\<lparr>rb_data = [0, 0, 0, 0], rb_size = 4, rb_head = 0, rb_tail = 0\<rparr> :: ring_buffer"
  have "rb_wf ?rb" "rb_contents ?rb = []" 
    by (simp_all add: rb_wf_def rb_contents_def rb_count_def ring_view_def upt_rec)
  then show ?thesis
    using tcp_read_delivers_twice[of "transport_create TRANS_TYPE_TCP 4 (Some [0, 0, 0, 0]) None" ?rb "[5, 6]" 2]
    by (simp add: transport_create_def rb_create_def)
qed

text \<open>C25. When \<open>send\<close> would block, \<open>tcp_flush\<close> reports success although the chunk it had taken out
  of the output buffer was neither sent nor put back: those bytes are lost.\<close>

theorem tcp_flush_loses_chunk:
  assumes "out_buf t = Some rb" and "rb_wf rb" and "rb_contents rb \<noteq> []"
  shows "\<exists>t' rb'. tcp_flush (\<lambda>w bs. (w, SendWouldBlock)) w t = Some (w, t', 0) \<and>
           out_buf t' = Some rb' \<and> rb_contents rb' = drop (min (rb_count rb) 4096) (rb_contents rb)"
proof -
  obtain rb' out where
    "rb_read rb (if rb_available rb < 4096 then rb_available rb else 4096) = (rb', 1, out)"
    "rb_contents rb' = drop (min (rb_count rb) 4096) (rb_contents rb)"
    using flush_chunk[OF assms(2,3)] by metis
  moreover have "rb_available rb > 0" using assms(2,3) by (simp add: rb_available_pos)
  ultimately show ?thesis using assms(1) by (simp add: tcp_flush_def Let_def del: if_split)
qed

theorem tcp_flush_loses_chunk_witness:
  "\<exists>t' rb'. tcp_flush (\<lambda>w bs. (w, SendWouldBlock)) (0::nat) (transport_create TRANS_TYPE_TCP 4 None None
       \<lparr>out_buf := Some \<lparr>rb_data = [8, 9, 0, 0], rb_size = 4, rb_head = 2, rb_tail = 0\<rparr>\<rparr>) = Some (0, t', 0) \<and>
     out_buf t' = Some rb' \<and> rb_contents rb' = []"
proof -
  let ?rb = "\<lparr>rb_data = [8, 9, 0, 0], rb_size = 4, rb_head = 2, rb_tail = 0\<rparr> :: ring_buffer"
  have "rb_wf ?rb" "rb_contents ?rb = [8, 9]" "rb_count ?rb = 2" 
    by (simp_all add: rb_wf_def rb_contents_def rb_count_def ring_view_def upt_rec)
  then show ?thesis
    using tcp_flush_loses_chunk[of "transport_create TRANS_TYPE_TCP 4 None None\<lparr>out_buf := Some ?rb\<rparr>" ?rb "0::nat"]
    by simp
qed

text \<open>A TCP transport that was created and never connected closes descriptor 0 (the standard
  input of the driver) when it is destroyed.\<close>

theorem transport_destroy_closes_stdin:
  "transport_destroy (transport_create TRANS_TYPE_TCP n m1 m2) = Some [0]"
  by (simp add: transport_destroy_def transport_create_def tcp_destroy_def tcp_close_def)

end
