(* ===== verification/Async_Queue.thy ===== *)
theory Async_Queue
  imports Interfaces
begin

text \<open>
  The bounded message queue between threads of \<^verbatim>\<open>lib/async/async_queue.c\<close>.  A slot holds the
  message whose length and bytes the C code writes into it.  Every operation holds the mutex from
  its first to its last access, so it is one step on the queue; the one operation that releases
  the mutex, an enqueue that has to wait, ends in \<open>EnqWait\<close> and is retried as a step of its own.
  The pointer arguments are not NULL.
\<close>

section \<open>Model\<close>

record async_queue =
  q_buffer :: "bytes list"
  q_capacity :: nat
  q_max_msg_size :: nat
  q_head :: nat
  q_tail :: nat
  q_count :: nat
  q_flags :: u32
  q_enqueued :: u64
  q_dequeued :: u64
  q_dropped :: u64
  q_not_full :: bool
  q_not_empty :: bool

definition ASYNC_QUEUE_DROP_OLDEST :: u32 where "ASYNC_QUEUE_DROP_OLDEST = 1"
definition ASYNC_QUEUE_BLOCK_WRITER :: u32 where "ASYNC_QUEUE_BLOCK_WRITER = 2"
definition ASYNC_QUEUE_SIGNAL_ON_DATA :: u32 where "ASYNC_QUEUE_SIGNAL_ON_DATA = 4"

definition q_flag :: "async_queue \<Rightarrow> u32 \<Rightarrow> bool" where
  "q_flag q f \<longleftrightarrow> q_flags q AND f \<noteq> 0"

text \<open>\<open>res_ok\<close> says whether the mutex, the events and the memory could be obtained.  The event
  \<open>not_full\<close> starts signalled, \<open>not_empty\<close> does not.\<close>

definition async_queue_create :: "nat \<Rightarrow> nat \<Rightarrow> u32 \<Rightarrow> bool \<Rightarrow> async_queue option" where
  "async_queue_create capacity max_msg_size flags res_ok =
     (if capacity = 0 \<or> max_msg_size = 0 then None
      else if \<not> res_ok then None
      else Some \<lparr>q_buffer = replicate capacity [], q_capacity = capacity, q_max_msg_size = max_msg_size,
                 q_head = 0, q_tail = 0, q_count = 0, q_flags = flags,
                 q_enqueued = 0, q_dequeued = 0, q_dropped = 0,
                 q_not_full = True, q_not_empty = False\<rparr>)"

datatype enq_result = EnqOk async_queue | EnqFail async_queue | EnqWait async_queue

text \<open>The turns of the full-queue loop that drop the oldest message.  A capacity is never 0, so
  the loop ends before the count does.\<close>

function aq_drop_loop :: "async_queue \<Rightarrow> async_queue" where
  "aq_drop_loop q =
     (if q_capacity q \<le> q_count q \<and> 0 < q_count q
      then aq_drop_loop (q\<lparr>q_tail := (q_tail q + 1) mod q_capacity q, q_count := q_count q - 1,
                           q_dropped := q_dropped q + 1\<rparr>)
      else q)"
  by pat_completeness auto
termination by (relation "measure q_count") auto

declare aq_drop_loop.simps [simp del]

text \<open>The write of the message into the slot at \<open>head\<close> and the bookkeeping after it.\<close>

definition aq_store :: "async_queue \<Rightarrow> bytes \<Rightarrow> async_queue" where
  "aq_store q data =
     q\<lparr>q_buffer := (q_buffer q)[q_head q := data],
       q_head := (q_head q + 1) mod q_capacity q,
       q_count := q_count q + 1,
       q_enqueued := q_enqueued q + 1,
       q_not_empty := (q_flag q ASYNC_QUEUE_SIGNAL_ON_DATA \<or> q_not_empty q)\<rparr>"

definition async_queue_enqueue :: "async_queue \<Rightarrow> bytes \<Rightarrow> enq_result" where
  "async_queue_enqueue q data =
     (if data = [] \<or> length data > q_max_msg_size q then EnqFail q
      else if q_count q \<ge> q_capacity q then
        (if q_flag q ASYNC_QUEUE_DROP_OLDEST then EnqOk (aq_store (aq_drop_loop q) data)
         else if q_flag q ASYNC_QUEUE_BLOCK_WRITER then EnqWait q
         else EnqFail q)
      else EnqOk (aq_store q data))"

text \<open>\<open>None\<close> is the result false; otherwise the message copied out.\<close>

definition async_queue_dequeue :: "async_queue \<Rightarrow> nat \<Rightarrow> (bytes \<times> async_queue) option" where
  "async_queue_dequeue q buffer_size =
     (if q_count q = 0 then None
      else let msg = q_buffer q ! q_tail q in
        if length msg > buffer_size then None
        else Some (msg, q\<lparr>q_tail := (q_tail q + 1) mod q_capacity q,
                          q_count := q_count q - 1,
                          q_dequeued := q_dequeued q + 1,
                          q_not_full := (q_flag q ASYNC_QUEUE_BLOCK_WRITER \<or> q_not_full q)\<rparr>))"

definition async_queue_is_empty :: "async_queue \<Rightarrow> bool" where
  "async_queue_is_empty q \<longleftrightarrow> q_count q = 0"

definition async_queue_is_full :: "async_queue \<Rightarrow> bool" where
  "async_queue_is_full q \<longleftrightarrow> q_count q \<ge> q_capacity q"

definition async_queue_clear :: "async_queue \<Rightarrow> async_queue" where
  "async_queue_clear q = q\<lparr>q_head := 0, q_tail := 0, q_count := 0\<rparr>"

record async_queue_stats =
  s_capacity :: nat
  s_current_size :: nat
  s_max_msg_size :: nat
  s_enqueue_count :: u64
  s_dequeue_count :: u64
  s_dropped_count :: u64

definition async_queue_get_stats :: "async_queue \<Rightarrow> async_queue_stats" where
  "async_queue_get_stats q =
     \<lparr>s_capacity = q_capacity q, s_current_size = q_count q, s_max_msg_size = q_max_msg_size q,
      s_enqueue_count = q_enqueued q, s_dequeue_count = q_dequeued q, s_dropped_count = q_dropped q\<rparr>"

section \<open>Threads\<close>

text \<open>
  The queue together with the writers inside \<open>async_queue_enqueue\<close>: those blocked in
  \<open>platform_event_wait\<close> (each with its message) and those past it that have not yet locked the
  mutex again.  \<open>not_full\<close> is an auto-reset event: a wait that returns clears it.
\<close>

record aq_system =
  sys_q :: async_queue
  sys_waiting :: "bytes list"
  sys_woken :: "bytes list"

inductive aq_step :: "aq_system \<Rightarrow> aq_system \<Rightarrow> bool" where
  send_ok: "async_queue_enqueue (sys_q s) m = EnqOk q' \<Longrightarrow> aq_step s (s\<lparr>sys_q := q'\<rparr>)"
| send_fail: "async_queue_enqueue (sys_q s) m = EnqFail q' \<Longrightarrow> aq_step s s"
| send_wait: "async_queue_enqueue (sys_q s) m = EnqWait q' \<Longrightarrow> aq_step s (s\<lparr>sys_waiting := m # sys_waiting s\<rparr>)"
| wake: "sys_waiting s = ws @ m # ws' \<Longrightarrow> q_not_full (sys_q s) \<Longrightarrow>
    aq_step s (s\<lparr>sys_q := (sys_q s)\<lparr>q_not_full := False\<rparr>, sys_waiting := ws @ ws', sys_woken := m # sys_woken s\<rparr>)"
| retry_ok: "sys_woken s = ws @ m # ws' \<Longrightarrow> async_queue_enqueue (sys_q s) m = EnqOk q' \<Longrightarrow>
    aq_step s (s\<lparr>sys_q := q', sys_woken := ws @ ws'\<rparr>)"
| retry_wait: "sys_woken s = ws @ m # ws' \<Longrightarrow> async_queue_enqueue (sys_q s) m = EnqWait q' \<Longrightarrow>
    aq_step s (s\<lparr>sys_woken := ws @ ws', sys_waiting := m # sys_waiting s\<rparr>)"
| recv: "async_queue_dequeue (sys_q s) n = Some (m, q') \<Longrightarrow> aq_step s (s\<lparr>sys_q := q'\<rparr>)"

text \<open>Runs in which at most one writer is inside a blocking enqueue at any time.\<close>

inductive aq_run1 :: "aq_system \<Rightarrow> aq_system \<Rightarrow> bool" where
  refl: "aq_run1 s s"
| step: "aq_run1 s s' \<Longrightarrow> aq_step s' s'' \<Longrightarrow> length (sys_waiting s'' @ sys_woken s'') \<le> 1 \<Longrightarrow> aq_run1 s s''"

section \<open>Invariant and contents\<close>

definition aq_wf :: "async_queue \<Rightarrow> bool" where
  "aq_wf q \<longleftrightarrow> 0 < q_capacity q \<and> length (q_buffer q) = q_capacity q \<and>
     q_tail q < q_capacity q \<and> q_count q \<le> q_capacity q \<and>
     q_head q = (q_tail q + q_count q) mod q_capacity q"

definition aq_contents :: "async_queue \<Rightarrow> bytes list" where
  "aq_contents q = ring_view (q_buffer q) (q_capacity q) (q_tail q) (q_count q)"

text \<open>Every message that was enqueued was taken out, dropped, or is still there.\<close>

definition aq_balanced :: "async_queue \<Rightarrow> bool" where
  "aq_balanced q \<longleftrightarrow> q_enqueued q = q_dequeued q + q_dropped q + of_nat (q_count q)"

lemma aq_contents_length [simp]: "length (aq_contents q) = q_count q"
  by (simp add: aq_contents_def)

lemma aq_create_wf:
  "async_queue_create c m f ok = Some q \<Longrightarrow> aq_wf q \<and> aq_contents q = [] \<and> aq_balanced q"
  by (auto simp: async_queue_create_def aq_wf_def aq_contents_def aq_balanced_def split: if_splits)

lemma aq_store_wf:
  assumes "aq_wf q" "q_count q < q_capacity q"
  shows "aq_wf (aq_store q m)" "aq_contents (aq_store q m) = aq_contents q @ [m]"
    "aq_balanced q \<Longrightarrow> aq_balanced (aq_store q m)"
proof -
  show "aq_wf (aq_store q m)" using assms by (auto simp: aq_wf_def aq_store_def mod_simps)
  show "aq_contents (aq_store q m) = aq_contents q @ [m]"
    using assms ring_view_put[of "q_count q" "q_capacity q" "q_buffer q" "q_tail q" m]
    by (simp add: aq_contents_def aq_store_def aq_wf_def)
  show "aq_balanced q \<Longrightarrow> aq_balanced (aq_store q m)"
    by (simp add: aq_balanced_def aq_store_def)
qed

lemma aq_pop_wf:
  assumes "aq_wf q" "0 < q_count q" "q_capacity q' = q_capacity q" "q_buffer q' = q_buffer q"
    "q_head q' = q_head q" "q_tail q' = (q_tail q + 1) mod q_capacity q" "q_count q' = q_count q - 1"
  shows "aq_wf q'" "aq_contents q = q_buffer q ! q_tail q # aq_contents q'"
proof -
  obtain n where n: "q_count q = Suc n" using assms(2) by (cases "q_count q") auto
  show "aq_wf q'" using assms n by (auto simp: aq_wf_def mod_simps)
  show "aq_contents q = q_buffer q ! q_tail q # aq_contents q'"
    using assms n ring_view_get[of "q_tail q" "q_capacity q" "q_buffer q" n]
    by (simp add: aq_contents_def aq_wf_def)
qed

text \<open>On a well-formed full queue the loop drops exactly one message.\<close>

lemma aq_drop_loop_full:
  assumes "aq_wf q" "q_count q = q_capacity q"
  shows "aq_drop_loop q = q\<lparr>q_tail := (q_tail q + 1) mod q_capacity q, q_count := q_count q - 1,
                           q_dropped := q_dropped q + 1\<rparr>"
  using assms by (subst aq_drop_loop.simps, subst aq_drop_loop.simps) (auto simp: aq_wf_def)

lemma aq_drop_wf:
  assumes "aq_wf q" "q_count q = q_capacity q"
  shows "aq_wf (aq_drop_loop q)" "aq_contents (aq_drop_loop q) = tl (aq_contents q)"
    "q_count (aq_drop_loop q) < q_capacity (aq_drop_loop q)" "aq_balanced q \<Longrightarrow> aq_balanced (aq_drop_loop q)"
    "q_dropped (aq_drop_loop q) = q_dropped q + 1" "q_flags (aq_drop_loop q) = q_flags q"
proof -
  let ?q = "aq_drop_loop q"
  have pos: "0 < q_count q" using assms by (simp add: aq_wf_def)
  have "aq_wf ?q" "aq_contents q = q_buffer q ! q_tail q # aq_contents ?q"
    using aq_pop_wf[OF assms(1) pos, of ?q] by (simp_all add: aq_drop_loop_full[OF assms])
  then show "aq_wf ?q" "aq_contents ?q = tl (aq_contents q)" by simp_all
  show "q_count ?q < q_capacity ?q" using pos assms(2) by (simp add: aq_drop_loop_full[OF assms])
  show "aq_balanced q \<Longrightarrow> aq_balanced ?q"
    using pos by (simp add: aq_balanced_def aq_drop_loop_full[OF assms] of_nat_diff)
qed (simp_all add: aq_drop_loop_full[OF assms])

lemma aq_dequeue_wf:
  assumes "aq_wf q" "async_queue_dequeue q n = Some (m, q')"
  shows "aq_wf q'" "aq_contents q = m # aq_contents q'" "aq_balanced q \<Longrightarrow> aq_balanced q'"
    "q_flags q' = q_flags q" "length m \<le> n"
proof -
  let ?q = "q\<lparr>q_tail := (q_tail q + 1) mod q_capacity q, q_count := q_count q - 1,
              q_dequeued := q_dequeued q + 1,
              q_not_full := (q_flag q ASYNC_QUEUE_BLOCK_WRITER \<or> q_not_full q)\<rparr>"
  have d: "0 < q_count q" "m = q_buffer q ! q_tail q" "q' = ?q" "length m \<le> n"
    using assms(2) by (auto simp: async_queue_dequeue_def Let_def split: if_splits)
  show "aq_wf q'" "aq_contents q = m # aq_contents q'"
    using aq_pop_wf[OF assms(1) d(1), of ?q] d(2,3) by auto
  show "aq_balanced q \<Longrightarrow> aq_balanced q'" using d(1,3) by (simp add: aq_balanced_def of_nat_diff)
  show "q_flags q' = q_flags q" "length m \<le> n" using d by simp_all
qed

section \<open>The queue as a channel\<close>

definition aq_put :: "async_queue \<Rightarrow> bytes \<Rightarrow> async_queue option" where
  "aq_put q m = (case async_queue_enqueue q m of EnqOk q' \<Rightarrow> Some q' | EnqFail _ \<Rightarrow> None | EnqWait _ \<Rightarrow> None)"

definition aq_get :: "async_queue \<Rightarrow> nat \<Rightarrow> (bytes list \<times> async_queue) option" where
  "aq_get q n = map_option (\<lambda>(m, q'). ([m], q')) (async_queue_dequeue q n)"

text \<open>Without \<open>DROP_OLDEST\<close> nothing is lost.\<close>

definition aq_lossless :: "async_queue \<Rightarrow> bool" where
  "aq_lossless q \<longleftrightarrow> aq_wf q \<and> \<not> q_flag q ASYNC_QUEUE_DROP_OLDEST"

interpretation aqq: fifo aq_lossless aq_contents "\<lambda>m. [m]" aq_put aq_get
proof
  fix s s' :: async_queue and x
  assume a: "aq_lossless s" "aq_put s x = Some s'"
  then have "s' = aq_store s x" "q_count s < q_capacity s"
    by (auto simp: aq_put_def async_queue_enqueue_def aq_lossless_def split: if_splits)
  then show "aq_lossless s' \<and> aq_contents s' = aq_contents s @ [x]"
    using a(1) aq_store_wf[of s x] by (simp add: aq_lossless_def q_flag_def) (simp add: aq_store_def)
next
  fix s s' :: async_queue and r ys
  assume "aq_lossless s" "aq_get s r = Some (ys, s')"
  then show "aq_lossless s' \<and> aq_contents s = ys @ aq_contents s'"
    by (auto simp: aq_get_def aq_lossless_def q_flag_def dest: aq_dequeue_wf)
qed

section \<open>Blocked writers\<close>

lemma aq_store_fields:
  "q_flags (aq_store q m) = q_flags q" "q_capacity (aq_store q m) = q_capacity q"
  "q_not_full (aq_store q m) = q_not_full q" "q_count (aq_store q m) = q_count q + 1"
  by (simp_all add: aq_store_def)

lemma aq_drop_loop_fields:
  "q_flags (aq_drop_loop q) = q_flags q" "q_capacity (aq_drop_loop q) = q_capacity q"
  "q_not_full (aq_drop_loop q) = q_not_full q"
  by (induction q rule: aq_drop_loop.induct; subst aq_drop_loop.simps; simp)+

lemma aq_enqueue_fields:
  assumes "async_queue_enqueue q m = EnqOk q'"
  shows "q_flags q' = q_flags q" "q_capacity q' = q_capacity q" "q_not_full q' = q_not_full q"
    "\<not> q_flag q ASYNC_QUEUE_DROP_OLDEST \<Longrightarrow> q_count q' = q_count q + 1"
  using assms
  by (auto simp: async_queue_enqueue_def aq_store_fields aq_drop_loop_fields split: if_splits)

text \<open>A blocked writer of a queue with room has a pending signal to wake it.\<close>

definition aq_signalled :: "aq_system \<Rightarrow> bool" where
  "aq_signalled s \<longleftrightarrow>
     q_flag (sys_q s) ASYNC_QUEUE_BLOCK_WRITER \<and> \<not> q_flag (sys_q s) ASYNC_QUEUE_DROP_OLDEST \<and>
     length (sys_waiting s @ sys_woken s) \<le> 1 \<and>
     (sys_waiting s \<noteq> [] \<and> q_count (sys_q s) < q_capacity (sys_q s) \<longrightarrow> q_not_full (sys_q s))"

lemma aq_step_signalled:
  assumes "aq_step s s'" "aq_signalled s" "length (sys_waiting s' @ sys_woken s') \<le> 1"
  shows "aq_signalled s'"
  using assms(1)
proof (cases rule: aq_step.cases)
  case (send_ok m q')
  then show ?thesis using assms(2,3) aq_enqueue_fields[OF send_ok(2)]
    by (auto simp: aq_signalled_def q_flag_def)
next
  case (send_wait m q')
  then show ?thesis using assms(2,3)
    by (auto simp: aq_signalled_def async_queue_enqueue_def split: if_splits)
next
  case (wake ws m ws')
  then show ?thesis using assms(2,3) by (auto simp: aq_signalled_def q_flag_def)
next
  case (retry_ok ws m ws' q')
  then show ?thesis using assms(2,3) aq_enqueue_fields[OF retry_ok(3)]
    by (auto simp: aq_signalled_def q_flag_def)
next
  case (retry_wait ws m ws' q')
  then show ?thesis using assms(2,3)
    by (auto simp: aq_signalled_def async_queue_enqueue_def split: if_splits)
next
  case (recv n m q')
  then show ?thesis using assms(2,3)
    by (auto simp: aq_signalled_def async_queue_dequeue_def q_flag_def Let_def split: if_splits)
qed (use assms in simp)

lemma aq_run1_signalled: "aq_run1 s s' \<Longrightarrow> aq_signalled s \<Longrightarrow> aq_signalled s'"
  by (induction rule: aq_run1.induct) (auto intro: aq_step_signalled)

section \<open>Properties\<close>

text \<open>C8. Without the flag \<open>DROP_OLDEST\<close> the messages leave the queue in the order in which they
  were accepted, none lost and none twice, in every interleaving of enqueue and dequeue calls by
  any number of threads.\<close>

theorem aq_first_in_first_out:
  assumes "aq_lossless q" and "run_chan aq_put aq_get (\<lambda>m. [m]) q ops = (q', sent, got)"
  shows "aq_lossless q' \<and> aq_contents q @ sent = got @ aq_contents q'"
  using assms by (rule aqq.run_chan_fifo)

theorem aq_first_in_first_out_witness:
  "\<exists>q. async_queue_create 2 4 0 True = Some q \<and>
     (let (q', sent, got) = run_chan aq_put aq_get (\<lambda>m. [m]) q [Put [1], Put [2, 3], Put [4], Get 4, Put [5]] in
        aq_contents q @ sent = got @ aq_contents q' \<and> sent = [[1], [2, 3], [5]] \<and> got = [[1]])"
proof -
  obtain q where q: "async_queue_create 2 4 0 True = Some q" by (simp add: async_queue_create_def)
  let ?ops = "[Put [1], Put [2, 3], Put [4], Get 4, Put [5]]"
  obtain q' sent got where r: "run_chan aq_put aq_get (\<lambda>m. [m]) q ?ops = (q', sent, got)"
    by (metis prod_cases3)
  have "aq_lossless q" using q by (auto simp: async_queue_create_def aq_lossless_def aq_wf_def q_flag_def)
  from aq_first_in_first_out[OF this r] have "aq_contents q @ sent = got @ aq_contents q'" by simp
  moreover have "sent = [[1], [2, 3], [5]] \<and> got = [[1]]"
    using r q by (auto simp: async_queue_create_def aq_put_def aq_get_def async_queue_enqueue_def
        async_queue_dequeue_def aq_store_def q_flag_def numeral_2_eq_2 Let_def)
  ultimately show ?thesis using q r by simp
qed

text \<open>\<open>async_queue_enqueue\<close> on every branch: it accepts a non-empty message that fits, after
  dropping the oldest one (and counting it) if the queue is full and \<open>DROP_OLDEST\<close> is set; on a full
  queue without that flag it waits if \<open>BLOCK_WRITER\<close> is set and fails otherwise, changing nothing.  It
  keeps the invariant and the equation enqueued = dequeued + dropped + present of the statistics.\<close>

theorem async_queue_enqueue_correct:
  assumes "aq_wf q"
  shows "case async_queue_enqueue q m of
      EnqOk q' \<Rightarrow> m \<noteq> [] \<and> length m \<le> q_max_msg_size q \<and> aq_wf q' \<and>
        (aq_balanced q \<longrightarrow> aq_balanced q') \<and>
        (if async_queue_is_full q
         then q_flag q ASYNC_QUEUE_DROP_OLDEST \<and> aq_contents q' = tl (aq_contents q) @ [m] \<and>
              q_dropped q' = q_dropped q + 1
         else aq_contents q' = aq_contents q @ [m] \<and> q_dropped q' = q_dropped q)
    | EnqWait q' \<Rightarrow> q' = q \<and> async_queue_is_full q \<and> q_flag q ASYNC_QUEUE_BLOCK_WRITER \<and>
        \<not> q_flag q ASYNC_QUEUE_DROP_OLDEST
    | EnqFail q' \<Rightarrow> q' = q \<and> (m = [] \<or> length m > q_max_msg_size q \<or>
        async_queue_is_full q \<and> \<not> q_flag q ASYNC_QUEUE_BLOCK_WRITER \<and> \<not> q_flag q ASYNC_QUEUE_DROP_OLDEST)"
proof (cases "async_queue_is_full q")
  case True
  then have full: "q_count q = q_capacity q" using assms by (simp add: async_queue_is_full_def aq_wf_def)
  note d = aq_drop_wf[OF assms full]
  show ?thesis
    using True d aq_store_wf[OF d(1,3), of m]
    by (auto simp: async_queue_enqueue_def async_queue_is_full_def)
      (auto simp: aq_store_def aq_drop_loop_full[OF assms full])
next
  case False
  then show ?thesis
    using assms aq_store_wf[OF assms, of m]
    by (auto simp: async_queue_enqueue_def async_queue_is_full_def) (auto simp: aq_store_def)
qed

theorem async_queue_enqueue_correct_witness:
  "\<exists>q q'. async_queue_create 1 4 ASYNC_QUEUE_DROP_OLDEST True = Some q \<and>
     async_queue_enqueue q [7] = EnqOk q' \<and> aq_contents q' = [[7]]"
proof -
  obtain q where q: "async_queue_create 1 4 ASYNC_QUEUE_DROP_OLDEST True = Some q"
    by (simp add: async_queue_create_def)
  then have "aq_wf q" "aq_contents q = []" "\<not> async_queue_is_full q"
    by (auto simp: async_queue_create_def aq_wf_def aq_contents_def async_queue_is_full_def)
  moreover have "\<exists>q'. async_queue_enqueue q [7] = EnqOk q'"
    using q by (auto simp: async_queue_create_def async_queue_enqueue_def)
  ultimately show ?thesis using q async_queue_enqueue_correct[of q "[7]"] by auto
qed



text \<open>C26. \<open>async_queue_clear\<close> empties the queue without signalling \<open>not_full\<close>: when it runs while a writer
  is blocked and the event is not set, the queue is empty, no wake-up and no dequeue is possible, and the
  writer sleeps on; only another writer that fills the queue for a later dequeue can free it.\<close>

theorem async_queue_clear_strands_writer:
  assumes "sys_waiting s \<noteq> []" and "sys_woken s = []" and "\<not> q_not_full (sys_q s)"
    and "s' = s\<lparr>sys_q := async_queue_clear (sys_q s)\<rparr>"
  shows "async_queue_is_empty (sys_q s') \<and>
     (\<forall>s''. aq_step s' s'' \<longrightarrow> sys_woken s'' = [] \<and> (\<exists>w. sys_waiting s'' = w @ sys_waiting s) \<and>
        \<not> q_not_full (sys_q s''))"
proof -
  have "sys_woken s'' = [] \<and> (\<exists>w. sys_waiting s'' = w @ sys_waiting s) \<and> \<not> q_not_full (sys_q s'')"
    if "aq_step s' s''" for s''
    using that
    by (cases rule: aq_step.cases)
      (use assms in \<open>auto simp: async_queue_clear_def async_queue_dequeue_def dest: aq_enqueue_fields(3)\<close>)
  then show ?thesis using assms(4) by (simp add: async_queue_is_empty_def async_queue_clear_def)
qed

theorem async_queue_clear_strands_writer_witness:
  "let q = \<lparr>q_buffer = [[7]], q_capacity = 1, q_max_msg_size = 4, q_head = 0, q_tail = 0, q_count = 1,
            q_flags = 2, q_enqueued = 1, q_dequeued = 0, q_dropped = 0, q_not_full = False, q_not_empty = False\<rparr>;
       s = \<lparr>sys_q = async_queue_clear q, sys_waiting = [[8]], sys_woken = []\<rparr>
   in async_queue_is_empty (sys_q s) \<and> (\<forall>s''. aq_step s s'' \<longrightarrow> \<not> q_not_full (sys_q s''))"
proof -
  let ?q = "\<lparr>q_buffer = [[7]], q_capacity = 1, q_max_msg_size = 4, q_head = 0, q_tail = 0, q_count = 1,
            q_flags = 2, q_enqueued = 1, q_dequeued = 0, q_dropped = 0, q_not_full = False, q_not_empty = False\<rparr>"
  show ?thesis
    using async_queue_clear_strands_writer[of "\<lparr>sys_q = ?q, sys_waiting = [[8]], sys_woken = []\<rparr>"]
    by simp
qed

end
