(* ===== verification/Crc32.thy ===== *)
theory Crc32
  imports Prelude
begin

text \<open>
  The table-driven checksum of \<^verbatim>\<open>lib/misc/crc32.c\<close>, with the bit-by-bit shift register it is an
  optimisation of.
\<close>

section \<open>Model\<close>

definition cr3tab :: "u32 list" where
  "cr3tab =
     [0x00000000, 0x77073096, 0xee0e612c, 0x990951ba, 0x076dc419, 0x706af48f, 0xe963a535, 0x9e6495a3,
      0x0edb8832, 0x79dcb8a4, 0xe0d5e91e, 0x97d2d988, 0x09b64c2b, 0x7eb17cbd, 0xe7b82d07, 0x90bf1d91,
      0x1db71064, 0x6ab020f2, 0xf3b97148, 0x84be41de, 0x1adad47d, 0x6ddde4eb, 0xf4d4b551, 0x83d385c7,
      0x136c9856, 0x646ba8c0, 0xfd62f97a, 0x8a65c9ec, 0x14015c4f, 0x63066cd9, 0xfa0f3d63, 0x8d080df5,
      0x3b6e20c8, 0x4c69105e, 0xd56041e4, 0xa2677172, 0x3c03e4d1, 0x4b04d447, 0xd20d85fd, 0xa50ab56b,
      0x35b5a8fa, 0x42b2986c, 0xdbbbc9d6, 0xacbcf940, 0x32d86ce3, 0x45df5c75, 0xdcd60dcf, 0xabd13d59,
      0x26d930ac, 0x51de003a, 0xc8d75180, 0xbfd06116, 0x21b4f4b5, 0x56b3c423, 0xcfba9599, 0xb8bda50f,
      0x2802b89e, 0x5f058808, 0xc60cd9b2, 0xb10be924, 0x2f6f7c87, 0x58684c11, 0xc1611dab, 0xb6662d3d,
      0x76dc4190, 0x01db7106, 0x98d220bc, 0xefd5102a, 0x71b18589, 0x06b6b51f, 0x9fbfe4a5, 0xe8b8d433,
      0x7807c9a2, 0x0f00f934, 0x9609a88e, 0xe10e9818, 0x7f6a0dbb, 0x086d3d2d, 0x91646c97, 0xe6635c01,
      0x6b6b51f4, 0x1c6c6162, 0x856530d8, 0xf262004e, 0x6c0695ed, 0x1b01a57b, 0x8208f4c1, 0xf50fc457,
      0x65b0d9c6, 0x12b7e950, 0x8bbeb8ea, 0xfcb9887c, 0x62dd1ddf, 0x15da2d49, 0x8cd37cf3, 0xfbd44c65,
      0x4db26158, 0x3ab551ce, 0xa3bc0074, 0xd4bb30e2, 0x4adfa541, 0x3dd895d7, 0xa4d1c46d, 0xd3d6f4fb,
      0x4369e96a, 0x346ed9fc, 0xad678846, 0xda60b8d0, 0x44042d73, 0x33031de5, 0xaa0a4c5f, 0xdd0d7cc9,
      0x5005713c, 0x270241aa, 0xbe0b1010, 0xc90c2086, 0x5768b525, 0x206f85b3, 0xb966d409, 0xce61e49f,
      0x5edef90e, 0x29d9c998, 0xb0d09822, 0xc7d7a8b4, 0x59b33d17, 0x2eb40d81, 0xb7bd5c3b, 0xc0ba6cad,
      0xedb88320, 0x9abfb3b6, 0x03b6e20c, 0x74b1d29a, 0xead54739, 0x9dd277af, 0x04db2615, 0x73dc1683,
      0xe3630b12, 0x94643b84, 0x0d6d6a3e, 0x7a6a5aa8, 0xe40ecf0b, 0x9309ff9d, 0x0a00ae27, 0x7d079eb1,
      0xf00f9344, 0x8708a3d2, 0x1e01f268, 0x6906c2fe, 0xf762575d, 0x806567cb, 0x196c3671, 0x6e6b06e7,
      0xfed41b76, 0x89d32be0, 0x10da7a5a, 0x67dd4acc, 0xf9b9df6f, 0x8ebeeff9, 0x17b7be43, 0x60b08ed5,
      0xd6d6a3e8, 0xa1d1937e, 0x38d8c2c4, 0x4fdff252, 0xd1bb67f1, 0xa6bc5767, 0x3fb506dd, 0x48b2364b,
      0xd80d2bda, 0xaf0a1b4c, 0x36034af6, 0x41047a60, 0xdf60efc3, 0xa867df55, 0x316e8eef, 0x4669be79,
      0xcb61b38c, 0xbc66831a, 0x256fd2a0, 0x5268e236, 0xcc0c7795, 0xbb0b4703, 0x220216b9, 0x5505262f,
      0xc5ba3bbe, 0xb2bd0b28, 0x2bb45a92, 0x5cb36a04, 0xc2d7ffa7, 0xb5d0cf31, 0x2cd99e8b, 0x5bdeae1d,
      0x9b64c2b0, 0xec63f226, 0x756aa39c, 0x026d930a, 0x9c0906a9, 0xeb0e363f, 0x72076785, 0x05005713,
      0x95bf4a82, 0xe2b87a14, 0x7bb12bae, 0x0cb61b38, 0x92d28e9b, 0xe5d5be0d, 0x7cdcefb7, 0x0bdbdf21,
      0x86d3d2d4, 0xf1d4e242, 0x68ddb3f8, 0x1fda836e, 0x81be16cd, 0xf6b9265b, 0x6fb077e1, 0x18b74777,
      0x88085ae6, 0xff0f6a70, 0x66063bca, 0x11010b5c, 0x8f659eff, 0xf862ae69, 0x616bffd3, 0x166ccf45,
      0xa00ae278, 0xd70dd2ee, 0x4e048354, 0x3903b3c2, 0xa7672661, 0xd06016f7, 0x4969474d, 0x3e6e77db,
      0xaed16a4a, 0xd9d65adc, 0x40df0b66, 0x37d83bf0, 0xa9bcae53, 0xdebb9ec5, 0x47b2cf7f, 0x30b5ffe9,
      0xbdbdf21c, 0xcabac28a, 0x53b39330, 0x24b4a3a6, 0xbad03605, 0xcdd70693, 0x54de5729, 0x23d967bf,
      0xb3667a2e, 0xc4614ab8, 0x5d681b02, 0x2a6f2b94, 0xb40bbe37, 0xc30c8ea1, 0x5a05df1b, 0x2d02ef8d]"

definition UPDC32 :: "byte \<Rightarrow> u32 \<Rightarrow> u32" where
  "UPDC32 b c = cr3tab ! unat ((c XOR ucast b) AND 0xff) XOR (drop_bit 8 c AND 0x00FFFFFF)"

fun crc32_loop :: "u32 \<Rightarrow> bytes \<Rightarrow> u32" where
  "crc32_loop crc [] = crc"
| "crc32_loop crc (b # buf) = crc32_loop (UPDC32 b crc) buf"

definition compute_crc32 :: "bytes \<Rightarrow> u32" where
  "compute_crc32 buf = crc32_loop 0xFFFFFFFF buf"

section \<open>The shift register\<close>

text \<open>One shift with the feedback polynomial in reversed bit order, and the eight shifts of a byte.\<close>

definition crc_shift :: "u32 \<Rightarrow> u32" where
  "crc_shift c = (if odd c then drop_bit 1 c XOR 0xedb88320 else drop_bit 1 c)"

definition crc_shift8 :: "u32 \<Rightarrow> u32" where
  "crc_shift8 c =
     crc_shift (crc_shift (crc_shift (crc_shift (crc_shift (crc_shift (crc_shift (crc_shift c)))))))"

definition crc_bitwise :: "bytes \<Rightarrow> u32" where
  "crc_bitwise buf = fold (\<lambda>b c. crc_shift8 (c XOR ucast b)) buf 0xFFFFFFFF"

text \<open>Shifting is linear over exclusive or.\<close>

lemma odd_xor_word: "odd (a XOR b :: u32) \<longleftrightarrow> odd a \<noteq> odd b"
  by (simp add: even_xor_iff)

lemma crc_shift_xor: "crc_shift (a XOR b) = crc_shift a XOR crc_shift b"
  by (cases "odd a"; cases "odd b")
    (simp_all add: crc_shift_def odd_xor_word drop_bit_xor ac_simps xor.left_commute)

lemma crc_shift8_xor: "crc_shift8 (a XOR b) = crc_shift8 a XOR crc_shift8 b"
  by (simp add: crc_shift8_def crc_shift_xor)

text \<open>A table of the values of a linear function, built by doubling.\<close>

fun xor_table :: "(u32 \<Rightarrow> u32) \<Rightarrow> nat \<Rightarrow> u32 list" where
  "xor_table f 0 = [f 0]"
| "xor_table f (Suc j) = xor_table f j @ map (\<lambda>x. x XOR f (2 ^ j)) (xor_table f j)"

lemma xor_table_length [simp]: "length (xor_table f j) = 2 ^ j"
  by (induction j) simp_all

lemma of_nat_split_bit:
  assumes "k < 2 ^ j"
  shows "(of_nat (2 ^ j + k) :: u32) = of_nat k XOR 2 ^ j"
proof -
  have "\<not> bit k j" using assms by (simp add: bit_iff_odd)
  then have "\<not> bit (of_nat k :: u32) j" by (simp add: bit_of_nat_iff)
  then have "(of_nat k :: u32) AND 2 ^ j = 0" by (simp add: and_exp_eq_0_iff_not_bit)
  then show ?thesis by (simp add: disjunctive_add_eq_xor add.commute)
qed

lemma xor_table_nth:
  assumes lin: "\<And>a b. f (a XOR b) = f a XOR f b"
  shows "k < 2 ^ j \<Longrightarrow> xor_table f j ! k = f (of_nat k)"
proof (induction j arbitrary: k)
  case 0
  then show ?case by simp
next
  case (Suc j)
  show ?case
  proof (cases "k < 2 ^ j")
    case True
    then show ?thesis using Suc.IH by (simp add: nth_append)
  next
    case False
    then obtain i where i: "k = 2 ^ j + i" "i < 2 ^ j" using Suc.prems by (metis add_less_cancel_left le_Suc_ex
          linorder_not_less mult_2 power_Suc)
    then show ?thesis using Suc.IH[of i] by (simp only: of_nat_split_bit lin) (simp add: nth_append)
  qed
qed

lemma xor_table_numeral:
  "xor_table f (numeral k) =
     xor_table f (pred_numeral k) @ map (\<lambda>x. x XOR f (2 ^ pred_numeral k)) (xor_table f (pred_numeral k))"
  by (simp add: numeral_eq_Suc)

lemma crc_shift8_power:
  "crc_shift8 0 = 0" "crc_shift8 1 = 0x77073096" "crc_shift8 2 = 0xee0e612c" "crc_shift8 4 = 0x076dc419"
  "crc_shift8 8 = 0x0edb8832" "crc_shift8 16 = 0x1db71064" "crc_shift8 32 = 0x3b6e20c8"
  "crc_shift8 64 = 0x76dc4190" "crc_shift8 128 = 0xedb88320"
  by (simp_all add: crc_shift8_def crc_shift_def)

lemma cr3tab_xor_table: "cr3tab = xor_table crc_shift8 8"
  by (simp add: cr3tab_def crc_shift8_power xor_table_numeral)

text \<open>The byte split off by the table index leaves the upper 24 bits, which shift out unchanged.\<close>

lemma crc_shift_even: "\<not> bit c 0 \<Longrightarrow> crc_shift c = drop_bit 1 c"
  by (simp add: crc_shift_def bit_0)

lemma crc_shift8_high:
  fixes c :: u32
  assumes "\<And>i. i < 8 \<Longrightarrow> \<not> bit c i"
  shows "crc_shift8 c = drop_bit 8 c"
  using assms by (simp add: crc_shift8_def crc_shift_even bit_drop_bit_eq drop_bit_drop_bit eval_nat_numeral(2,3))

lemma split_low_byte: "(c :: u32) = (c AND 0xff) XOR (c AND NOT 0xff)"
  by (rule bit_eqI) (auto simp: bit_simps)

lemma UPDC32_shift: "UPDC32 b c = crc_shift8 (c XOR ucast b)"
proof -
  let ?x = "c XOR ucast b"
  let ?k = "unat (?x AND 0xff)"
  have k: "?k < 256"
  proof -
    have "?x AND 0xff \<le> 0xff" by (rule word_and_le1)
    then have "?k \<le> unat (0xff :: u32)" by (simp only: word_le_nat_alt)
    then show ?thesis by simp
  qed
  have m: "(0xff :: u32) = mask 8" by (simp add: mask_eq_exp_minus_1)
  have "cr3tab ! ?k = crc_shift8 (?x AND 0xff)"
    using xor_table_nth[of crc_shift8 ?k 8, OF crc_shift8_xor] k by (simp add: cr3tab_xor_table)
  moreover have "drop_bit 8 c AND 0x00FFFFFF = crc_shift8 (?x AND NOT 0xff)"
  proof -
    have "crc_shift8 (?x AND NOT 0xff) = drop_bit 8 (?x AND NOT 0xff)"
      by (rule crc_shift8_high) (simp add: m bit_simps)
    also have "\<dots> = drop_bit 8 c"
      by (rule bit_eqI) (auto simp: m bit_simps dest: bit_imp_le_length)
    also have "\<dots> = drop_bit 8 c AND mask 24"
      by (rule bit_eqI) (auto simp: bit_simps dest: bit_imp_le_length)
    finally show ?thesis by (simp add: mask_eq_exp_minus_1)
  qed
  moreover have "crc_shift8 ?x = crc_shift8 (?x AND 0xff) XOR crc_shift8 (?x AND NOT 0xff)"
    using split_low_byte[of ?x] crc_shift8_xor[of "?x AND 0xff" "?x AND NOT 0xff"] by (simp only:)
  ultimately show ?thesis unfolding UPDC32_def by (simp only:)
qed

text \<open>A shift can be undone: the top bit of the result says whether the polynomial was added.\<close>

lemma crc_shift_inj: "crc_shift a = crc_shift b \<longleftrightarrow> a = b"
proof
  assume eq: "crc_shift a = crc_shift b"
  have top: "bit (crc_shift c) 31 \<longleftrightarrow> odd c" for c
  proof -
    have "\<not> bit c 32" using bit_imp_le_length[of c 32] by auto
    then show ?thesis by (simp add: crc_shift_def bit_simps)
  qed
  have par: "odd a \<longleftrightarrow> odd b" using eq top[of a] top[of b] by simp
  then have d: "drop_bit 1 a = drop_bit 1 b"
    using eq unfolding crc_shift_def by (cases "odd a") (simp_all only: word_xor_cancel if_True if_False not_False_eq_True)
  show "a = b"
  proof (rule bit_eqI)
    fix n
    show "bit a n \<longleftrightarrow> bit b n"
    proof (cases n)
      case 0
      then show ?thesis using par by (simp add: bit_0)
    next
      case (Suc m)
      have "bit (drop_bit 1 a) m \<longleftrightarrow> bit (drop_bit 1 b) m" using d by simp
      then show ?thesis using Suc by (simp add: bit_drop_bit_eq)
    qed
  qed
qed simp

lemma crc_shift8_inj: "crc_shift8 a = crc_shift8 b \<longleftrightarrow> a = b"
  by (simp add: crc_shift8_def crc_shift_inj)

lemma UPDC32_inj: "UPDC32 b c = UPDC32 b c' \<longleftrightarrow> c = c'" "UPDC32 b c = UPDC32 b' c \<longleftrightarrow> b = b'"
proof -
  show "UPDC32 b c = UPDC32 b c' \<longleftrightarrow> c = c'"
    by (simp add: UPDC32_shift crc_shift8_inj word_xor_cancel)
  have "(ucast b :: u32) = ucast b' \<longleftrightarrow> b = b'"
  proof
    assume eq: "(ucast b :: u32) = ucast b'"
    show "b = b'"
    proof (rule bit_word_eqI)
      fix n
      assume "n < LENGTH(8)"
      moreover have "bit (ucast b :: u32) n = bit (ucast b' :: u32) n" using eq by simp
      ultimately show "bit b n = bit b' n" by (simp add: bit_simps)
    qed
  qed simp
  then show "UPDC32 b c = UPDC32 b' c \<longleftrightarrow> b = b'"
    by (simp add: UPDC32_shift crc_shift8_inj word_xor_cancel)
qed

lemma crc32_loop_append: "crc32_loop c (xs @ ys) = crc32_loop (crc32_loop c xs) ys"
  by (induction xs arbitrary: c) simp_all

lemma crc32_loop_inj: "crc32_loop c xs = crc32_loop c' xs \<longleftrightarrow> c = c'"
  by (induction xs arbitrary: c c') (simp_all add: UPDC32_inj)

section \<open>Properties\<close>

text \<open>C21. The table-driven \<open>compute_crc32\<close> computes, for every buffer, what the bit-by-bit shift
  register with the reversed polynomial 0xedb88320 and all ones as its start computes; the 256
  entries of \<open>cr3tab\<close> are the eight-fold shifts of the byte values.\<close>

theorem compute_crc32_bitwise: "compute_crc32 buf = crc_bitwise buf"
proof -
  have "crc32_loop c buf = fold (\<lambda>b c. crc_shift8 (c XOR ucast b)) buf c" for c
    by (induction buf arbitrary: c) (simp_all add: UPDC32_shift)
  then show ?thesis by (simp add: compute_crc32_def crc_bitwise_def)
qed

text \<open>C22. Changing one byte of a buffer, wherever it stands, always changes its \<open>compute_crc32\<close>.\<close>

theorem compute_crc32_detects_byte:
  "compute_crc32 (xs @ b # ys) = compute_crc32 (xs @ b' # ys) \<longleftrightarrow> b = b'"
  by (simp add: compute_crc32_def crc32_loop_append crc32_loop_inj UPDC32_inj)

end
