(* ===== verification/Hash_Table.thy ===== *)
theory Hash_Table
  imports Prelude
begin

text \<open>
  Chained hash tables as the driver has several of them (shared strings, objects, mappings): an
  array of chains of nodes.  The facts about looking at, extending, reordering and shortening one
  chain are proved once, for any key and any index function, in the locale \<open>chained_table\<close>.
\<close>

section \<open>Tables\<close>

definition ht_inv :: "('k \<Rightarrow> nat) \<Rightarrow> ('n \<Rightarrow> 'k) \<Rightarrow> 'n list list \<Rightarrow> bool" where
  "ht_inv idx key tab \<longleftrightarrow>
     (\<forall>i<length tab. \<forall>x\<in>set (tab ! i). idx (key x) = i) \<and> distinct (map key (concat tab))"

definition ht_map :: "('n \<Rightarrow> 'k) \<Rightarrow> 'n list list \<Rightarrow> 'k \<rightharpoonup> 'n" where
  "ht_map key tab k = find (\<lambda>x. key x = k) (concat tab)"

definition ht_nodes :: "'n list list \<Rightarrow> 'n set" where
  "ht_nodes tab = set (concat tab)"

text \<open>
  The walk along a chain with a trailing pointer, as the C code writes it: the first node that
  passes the test, and the chain with that node unlinked.
\<close>

fun chain_take :: "('n \<Rightarrow> bool) \<Rightarrow> 'n list \<Rightarrow> ('n \<times> 'n list) option" where
  "chain_take P [] = None"
| "chain_take P (x # xs) =
     (if P x then Some (x, xs) else map_option (\<lambda>(y, r). (y, x # r)) (chain_take P xs))"

lemma chain_take_none: "chain_take P xs = None \<longleftrightarrow> (\<forall>x\<in>set xs. \<not> P x)"
  by (induction xs) auto

lemma chain_take_some:
  "chain_take P zs = Some (x, r) \<Longrightarrow>
   \<exists>xs ys. zs = xs @ x # ys \<and> r = xs @ ys \<and> P x \<and> (\<forall>y\<in>set xs. \<not> P y)"
proof (induction zs arbitrary: r)
  case Nil
  then show ?case by simp
next
  case (Cons z zs)
  show ?case
  proof (cases "P z")
    case True
    then show ?thesis using Cons.prems by (intro exI[of _ "[]"] exI[of _ zs]) auto
  next
    case False
    then obtain r' where "chain_take P zs = Some (x, r')" "r = z # r'" using Cons.prems by auto
    then obtain xs ys where "zs = xs @ x # ys" "r' = xs @ ys" "P x" "\<forall>y\<in>set xs. \<not> P y"
      using Cons.IH by blast
    then show ?thesis using False \<open>r = z # r'\<close> by (intro exI[of _ "z # xs"] exI[of _ ys]) auto
  qed
qed

lemma chain_take_find: "map_option fst (chain_take P xs) = find P xs"
  by (induction xs) (auto simp: option.map_comp comp_def case_prod_unfold)

section \<open>One chain among the others\<close>

lemma mset_concat_update:
  "i < length tab \<Longrightarrow> mset (concat (tab[i := c])) + mset (tab ! i) = mset (concat tab) + mset c"
proof (induction tab arbitrary: i)
  case Nil
  then show ?case by simp
next
  case (Cons a tab)
  then show ?case by (cases i) (simp_all add: add.assoc)
qed

lemma mset_concat_reorder:
  "i < length tab \<Longrightarrow> mset c = mset (tab ! i) \<Longrightarrow> mset (concat (tab[i := c])) = mset (concat tab)"
  by (metis add_right_cancel mset_concat_update)

lemma distinct_map_mset: "mset xs = mset ys \<Longrightarrow> distinct (map f xs) \<longleftrightarrow> distinct (map f ys)"
  by (metis mset_eq_imp_distinct_iff mset_map)

lemma find_some_iff:
  "distinct (map key xs) \<Longrightarrow> find (\<lambda>x. key x = k) xs = Some x \<longleftrightarrow> x \<in> set xs \<and> key x = k"
  by (induction xs) (auto simp: image_iff)

lemma find_none_iff: "find (\<lambda>x. key x = k) xs = None \<longleftrightarrow> k \<notin> key ` set xs"
  by (auto simp: find_None_iff)

lemma ht_nodes_mset: "ht_nodes tab = set_mset (mset (concat tab))"
  by (simp add: ht_nodes_def)

lemma ht_nodes_chain: "i < length tab \<Longrightarrow> x \<in> set (tab ! i) \<Longrightarrow> x \<in> ht_nodes tab"
  by (auto simp: ht_nodes_def)

lemma ht_map_some: "ht_inv idx key tab \<Longrightarrow> ht_map key tab k = Some x \<longleftrightarrow> x \<in> ht_nodes tab \<and> key x = k"
  unfolding ht_inv_def ht_map_def ht_nodes_def by (intro find_some_iff) simp

lemma ht_map_none: "ht_map key tab k = None \<longleftrightarrow> k \<notin> key ` ht_nodes tab"
  by (simp only: ht_map_def find_none_iff ht_nodes_def)

text \<open>Two tables agree on a key when they hold the same nodes of that key.\<close>

lemma ht_map_eqI:
  assumes "ht_inv idx key tab" "ht_inv idx' key tab'"
    and "\<And>y. key y = k \<Longrightarrow> y \<in> ht_nodes tab \<longleftrightarrow> y \<in> ht_nodes tab'"
  shows "ht_map key tab k = ht_map key tab' k"
proof (cases "ht_map key tab k")
  case None
  then have "ht_map key tab' k = None" using assms(3) unfolding ht_map_none by blast
  then show ?thesis using None by simp
next
  case (Some x)
  then have "ht_map key tab' k = Some x"
    using ht_map_some[OF assms(1), of k x] ht_map_some[OF assms(2), of k x] assms(3) by blast
  then show ?thesis using Some by simp
qed

text \<open>A change of the nodes that keeps their keys.\<close>

lemma concat_map_map: "concat (map (map g) tab) = map g (concat tab)"
  by (induction tab) auto

lemma ht_inv_map: "(\<And>x. key (g x) = key x) \<Longrightarrow> ht_inv idx key (map (map g) tab) = ht_inv idx key tab"
  by (simp add: ht_inv_def concat_map_map comp_def)

lemma ht_map_map:
  assumes "\<And>x. key (g x) = key x"
  shows "ht_map key (map (map g) tab) k = map_option g (ht_map key tab k)"
proof -
  have "find (\<lambda>x. key x = k) (map g xs) = map_option g (find (\<lambda>x. key x = k) xs)" for xs
    by (induction xs) (auto simp: assms)
  then show ?thesis by (simp add: ht_map_def concat_map_map)
qed

locale chained_table =
  fixes idx :: "'k \<Rightarrow> nat" and key :: "'n \<Rightarrow> 'k" and n :: nat
  assumes idx_less: "idx k < n"
begin

lemma chain_distinct:
  assumes "ht_inv idx key tab" "i < length tab"
  shows "distinct (map key (tab ! i))"
proof -
  have "distinct (concat (map (map key) tab))" using assms(1) by (simp add: ht_inv_def map_concat)
  moreover have "map key (tab ! i) \<in> set (map (map key) tab)" using assms(2) by simp
  ultimately show ?thesis unfolding distinct_concat_iff by blast
qed

lemma node_chain:
  assumes "ht_inv idx key tab" "length tab = n" "x \<in> ht_nodes tab"
  shows "x \<in> set (tab ! idx (key x))"
  using assms by (auto simp: ht_inv_def ht_nodes_def in_set_conv_nth[of _ tab])

lemma ht_map_chain:
  assumes "ht_inv idx key tab" "length tab = n"
  shows "ht_map key tab k = find (\<lambda>x. key x = k) (tab ! idx k)"
proof -
  have i: "idx k < length tab" using assms(2) idx_less by simp
  show ?thesis
  proof (cases "find (\<lambda>x. key x = k) (tab ! idx k)")
    case None
    then have "k \<notin> key ` ht_nodes tab" using node_chain[OF assms] by (auto simp: find_none_iff)
    then show ?thesis using None by (simp add: ht_map_none)
  next
    case (Some x)
    then have "x \<in> set (tab ! idx k)" "key x = k"
      using chain_distinct[OF assms(1) i] by (simp_all add: find_some_iff)
    then have "ht_map key tab k = Some x" using ht_nodes_chain[OF i] by (simp add: ht_map_some[OF assms(1)])
    then show ?thesis using Some by simp
  qed
qed

text \<open>A chain rearranged (moved to front) changes nothing.\<close>

lemma ht_reorder:
  assumes "ht_inv idx key tab" "i < length tab" "mset c = mset (tab ! i)"
  shows "ht_inv idx key (tab[i := c])" "ht_map key (tab[i := c]) = ht_map key tab"
    "ht_nodes (tab[i := c]) = ht_nodes tab"
proof -
  have m: "mset (concat (tab[i := c])) = mset (concat tab)"
    by (rule mset_concat_reorder[OF assms(2,3)])
  then show st: "ht_nodes (tab[i := c]) = ht_nodes tab" by (simp add: ht_nodes_mset)
  have "set c = set (tab ! i)" using assms(3) by (rule mset_eq_setD)
  then show inv: "ht_inv idx key (tab[i := c])"
    using assms(1,2) distinct_map_mset[OF m, of key] by (auto simp: ht_inv_def nth_list_update)
  show "ht_map key (tab[i := c]) = ht_map key tab" 
    by (rule ext, rule ht_map_eqI[OF inv assms(1)]) (simp add: st)
qed

text \<open>A node with a new key put at the front of its chain.\<close>

lemma ht_insert:
  assumes "ht_inv idx key tab" "length tab = n" "ht_map key tab (key x) = None"
  defines "tab' \<equiv> tab[idx (key x) := x # tab ! idx (key x)]"
  shows "ht_inv idx key tab'" "ht_map key tab' = (ht_map key tab)(key x \<mapsto> x)"
    "ht_nodes tab' = insert x (ht_nodes tab)"
proof -
  have i: "idx (key x) < length tab" using assms(2) idx_less by simp
  have m: "mset (concat tab') = add_mset x (mset (concat tab))"
    using mset_concat_update[OF i, of "x # tab ! idx (key x)"] by (simp add: tab'_def)
  then show st: "ht_nodes tab' = insert x (ht_nodes tab)"
    by (simp only: ht_nodes_mset set_mset_add_mset_insert)
  have eq: "mset (map key (concat tab')) = mset (map key (x # concat tab))" using m by simp
  have "distinct (map key (x # concat tab))"
    using assms(1,3) by (simp add: ht_inv_def ht_map_none ht_nodes_def)
  then have "distinct (map key (concat tab'))" using mset_eq_imp_distinct_iff[OF eq] by blast
  then show inv: "ht_inv idx key tab'"
    using assms(1) i by (auto simp: ht_inv_def tab'_def nth_list_update)
  show "ht_map key tab' = (ht_map key tab)(key x \<mapsto> x)"
  proof
    fix k
    show "ht_map key tab' k = ((ht_map key tab)(key x \<mapsto> x)) k"
    proof (cases "k = key x")
      case True
      then show ?thesis using ht_map_some[OF inv] st by simp
    next
      case False
      then show ?thesis
        using ht_map_eqI[OF inv assms(1), of k] st by auto
    qed
  qed
qed

text \<open>A node unlinked from its chain, or replaced in place by one with the same key.\<close>

lemma ht_remove:
  assumes "ht_inv idx key tab" "i < length tab" "tab ! i = xs @ x # ys"
  shows "ht_inv idx key (tab[i := xs @ ys])" "ht_map key (tab[i := xs @ ys]) = (ht_map key tab)(key x := None)"
    "ht_nodes (tab[i := xs @ ys]) = ht_nodes tab - {x}"
proof -
  let ?t = "tab[i := xs @ ys]"
  have m: "mset (concat tab) = add_mset x (mset (concat ?t))"
    using mset_concat_update[OF assms(2), of "xs @ ys"] assms(3) by simp
  then have eq: "mset (map key (concat tab)) = mset (map key (x # concat ?t))" by simp
  then have d: "distinct (map key (x # concat ?t))"
    using assms(1) mset_eq_imp_distinct_iff[OF eq] unfolding ht_inv_def by blast
  then show inv: "ht_inv idx key ?t"
    using assms by (auto simp: ht_inv_def nth_list_update)
  have s: "ht_nodes tab = insert x (ht_nodes ?t)"
    using m by (simp only: ht_nodes_mset set_mset_add_mset_insert)
  then show st: "ht_nodes ?t = ht_nodes tab - {x}" using d by (auto simp: ht_nodes_def)
  show "ht_map key ?t = (ht_map key tab)(key x := None)"
  proof
    fix k
    show "ht_map key ?t k = ((ht_map key tab)(key x := None)) k"
    proof (cases "k = key x")
      case True
      then show ?thesis using d by (simp add: ht_map_none ht_nodes_def)
    next
      case False
      then show ?thesis
        using ht_map_eqI[OF inv assms(1), of k] s by auto
    qed
  qed
qed

lemma ht_replace:
  assumes "ht_inv idx key tab" "i < length tab" "tab ! i = xs @ x # ys" "key x' = key x"
  shows "ht_inv idx key (tab[i := xs @ x' # ys])"
    "ht_map key (tab[i := xs @ x' # ys]) = (ht_map key tab)(key x \<mapsto> x')"
proof -
  let ?t = "tab[i := xs @ x' # ys]"
  have m: "mset (concat ?t) + {#x#} = mset (concat tab) + {#x'#}"
    using mset_concat_update[OF assms(2), of "xs @ x' # ys"] assms(3) by simp
  have "image_mset key (mset (concat ?t) + {#x#}) = image_mset key (mset (concat tab) + {#x'#})"
    by (simp only: m)
  then have "image_mset key (mset (concat ?t)) = image_mset key (mset (concat tab))"
    using assms(4) by simp
  then have eq: "mset (map key (concat ?t)) = mset (map key (concat tab))" by simp
  have "distinct (map key (concat ?t))"
    using assms(1) mset_eq_imp_distinct_iff[OF eq] unfolding ht_inv_def by blast
  then show inv: "ht_inv idx key ?t"
    using assms by (auto simp: ht_inv_def nth_list_update)
  have r: "ht_nodes ?t = insert x' (ht_nodes (tab[i := xs @ ys]))"
  proof -
    have "mset (concat tab) = add_mset x (mset (concat (tab[i := xs @ ys])))"
      using mset_concat_update[OF assms(2), of "xs @ ys"] assms(3) by simp
    then have "add_mset x (mset (concat ?t)) = add_mset x (add_mset x' (mset (concat (tab[i := xs @ ys]))))"
      using m by (simp add: add_mset_commute)
    then have "mset (concat ?t) = add_mset x' (mset (concat (tab[i := xs @ ys])))" by simp
    then show ?thesis by (simp only: ht_nodes_mset set_mset_add_mset_insert)
  qed
  note rem = ht_remove[OF assms(1-3)]
  show "ht_map key ?t = (ht_map key tab)(key x \<mapsto> x')"
  proof
    fix k
    show "ht_map key ?t k = ((ht_map key tab)(key x \<mapsto> x')) k"
    proof (cases "k = key x")
      case True
      then show ?thesis using ht_map_some[OF inv, of k] r assms(4) by simp
    next
      case False
      then show ?thesis
        using ht_map_eqI[OF inv assms(1), of k] r rem(3) assms(4) by auto
    qed
  qed
qed

end

end
