(* ===== verification/Hash_Str.thy ===== *)
theory Hash_Str
  imports Prelude
begin

text \<open>
  The string hashes of \<^verbatim>\<open>lib/misc/hash.c\<close> (Pearson's table hash).  A C string is the list of its
  bytes before the terminating NUL; a span \<open>[s, end)\<close> is the list of the bytes in it.
\<close>

section \<open>Model\<close>

definition T_hash :: "int list" where
  "T_hash =
     [1, 87, 49, 12, 176, 178, 102, 166, 121, 193, 6, 84, 249, 230, 44, 163,
      14, 197, 213, 181, 161, 85, 218, 80, 64, 239, 24, 226, 236, 142, 38, 200,
      110, 177, 104, 103, 141, 253, 255, 50, 77, 101, 81, 18, 45, 96, 31, 222,
      25, 107, 190, 70, 86, 237, 240, 34, 72, 242, 20, 214, 244, 227, 149, 235,
      97, 234, 57, 22, 60, 250, 82, 175, 208, 5, 127, 199, 111, 62, 135, 248,
      174, 169, 211, 58, 66, 154, 106, 195, 245, 171, 17, 187, 182, 179, 0, 243,
      132, 56, 148, 75, 128, 133, 158, 100, 130, 126, 91, 13, 153, 246, 216, 219,
      119, 68, 223, 78, 83, 88, 201, 99, 122, 11, 92, 32, 136, 114, 52, 10,
      138, 30, 48, 183, 156, 35, 61, 26, 143, 74, 251, 94, 129, 162, 63, 152,
      170, 7, 115, 167, 241, 206, 3, 150, 55, 59, 151, 220, 90, 53, 23, 131,
      125, 173, 15, 238, 79, 95, 89, 16, 105, 137, 225, 224, 217, 160, 37, 123,
      118, 73, 2, 157, 46, 116, 9, 145, 134, 228, 207, 212, 202, 215, 69, 229,
      27, 188, 67, 124, 168, 252, 42, 4, 29, 108, 21, 247, 19, 205, 39, 203,
      233, 40, 186, 147, 198, 192, 155, 33, 164, 191, 98, 204, 165, 180, 117, 76,
      140, 36, 210, 172, 41, 54, 159, 8, 185, 232, 113, 196, 231, 47, 146, 120,
      51, 65, 28, 144, 254, 221, 93, 189, 194, 139, 112, 43, 71, 109, 184, 209]"

text \<open>The loop of \<open>hashstr\<close> with one and with two running values.\<close>

fun hashstr_loop1 :: "u32 \<Rightarrow> bytes \<Rightarrow> u32" where
  "hashstr_loop1 h [] = h"
| "hashstr_loop1 h (c # cs) = hashstr_loop1 (of_int (T_hash ! unat (h XOR ucast c))) cs"

fun hashstr_loop2 :: "u32 \<Rightarrow> u32 \<Rightarrow> bytes \<Rightarrow> u32 \<times> u32" where
  "hashstr_loop2 h oh [] = (h, oh)"
| "hashstr_loop2 h oh (c # cs) =
     hashstr_loop2 (of_int (T_hash ! unat (h XOR ucast c))) (of_int (T_hash ! unat (oh XOR ucast c))) cs"

definition hashstr :: "bytes \<Rightarrow> nat \<Rightarrow> u32 \<Rightarrow> u32" where
  "hashstr s maxn hashs =
     (case takeWhile (\<lambda>c. c \<noteq> 0) s of
        [] \<Rightarrow> 0 mod hashs
      | c # cs \<Rightarrow>
          if hashs > 256 then
            (let (h, oh) = hashstr_loop2 (ucast c) (of_int (T_hash ! unat c)) (take maxn cs)
             in (h OR push_bit 8 oh) mod hashs)
          else hashstr_loop1 (ucast c) (take maxn cs) mod hashs)"

text \<open>\<open>oh\<close> and \<open>h\<close> of \<open>whashstr\<close>; the argument is what the loop still has to read.\<close>

fun whash_loop :: "byte \<Rightarrow> byte \<Rightarrow> bytes \<Rightarrow> byte \<times> byte" where
  "whash_loop oh h [] = (oh, h)"
| "whash_loop oh h (c # cs) = whash_loop (of_int (T_hash ! unat (oh XOR c))) (of_int (T_hash ! unat (h XOR c))) cs"

definition whash_pair :: "byte \<Rightarrow> byte \<Rightarrow> nat" where
  "whash_pair oh h = unat oh * 256 + unat h"

text \<open>\<open>whashstr (s, end, maxn)\<close> with a span, and \<open>whashstr (s, NULL, maxn)\<close> up to the NUL.\<close>

definition whashstr_span :: "bytes \<Rightarrow> int \<Rightarrow> nat" where
  "whashstr_span s maxn =
     (case s of
        [] \<Rightarrow> 0
      | c # cs \<Rightarrow>
          if maxn \<le> 0 then 0
          else (let (oh, h) = whash_loop (of_int (T_hash ! unat c)) (c + 1) (take (nat (maxn - 1)) cs)
                in whash_pair oh h))"

definition whashstr_nul :: "bytes \<Rightarrow> int \<Rightarrow> nat" where
  "whashstr_nul s maxn =
     (case takeWhile (\<lambda>c. c \<noteq> 0) s of
        [] \<Rightarrow> 0
      | c # cs \<Rightarrow>
          (let (oh, h) = whash_loop (of_int (T_hash ! unat c)) (c + 1) (take (nat (maxn - 1)) cs)
           in whash_pair oh h))"

section \<open>The table is a permutation of the bytes\<close>

lemma T_hash_length [simp]: "length T_hash = 256"
  by (simp add: T_hash_def)

lemma T_hash_distinct: "distinct T_hash"
  by (simp add: T_hash_def)

lemma T_hash_range: "\<forall>x\<in>set T_hash. 0 \<le> x \<and> x < 256"
proof -
  have "list_all (\<lambda>x. 0 \<le> x \<and> x < 256) T_hash" by (simp add: T_hash_def)
  then show ?thesis by (simp add: list_all_iff)
qed

definition pearson :: "byte \<Rightarrow> byte" where
  "pearson b = of_int (T_hash ! unat b)"

lemma unat_byte: "unat (b :: byte) < 256"
  using unsigned_less[of b, where 'a = nat] by simp

lemma pearson_inj: "pearson a = pearson b \<longleftrightarrow> a = b"
proof
  assume eq: "pearson a = pearson b"
  let ?x = "T_hash ! unat a" and ?y = "T_hash ! unat b"
  have r: "0 \<le> ?x" "?x < 256" "0 \<le> ?y" "?y < 256"
    using T_hash_range nth_mem[of "unat a" T_hash] nth_mem[of "unat b" T_hash] unat_byte[of a] unat_byte[of b]
    by auto
  have u: "uint (of_int x :: byte) = x" if "0 \<le> x" "x < 256" for x :: int
    using that by (simp add: unsigned_of_int take_bit_int_eq_self)
  have "?x = ?y" using eq u[OF r(1,2)] u[OF r(3,4)] unfolding pearson_def by metis
  then have "unat a = unat b"
    using T_hash_distinct unat_byte[of a] unat_byte[of b] by (simp add: nth_eq_iff_index_eq)
  then show "a = b" by (simp add: word_unat_eq_iff)
qed simp

lemma whash_loop_pearson:
  "whash_loop oh h (c # cs) = whash_loop (pearson (oh XOR c)) (pearson (h XOR c)) cs"
  by (simp add: pearson_def)

lemma whash_loop_append: "whash_loop oh h (xs @ ys) = (case whash_loop oh h xs of (oh', h') \<Rightarrow> whash_loop oh' h' ys)"
  by (induction xs arbitrary: oh h) simp_all

text \<open>Every step of the loop is a bijection of each running value.\<close>

lemma whash_loop_inj: "whash_loop a b cs = whash_loop a' b' cs \<longleftrightarrow> a = a' \<and> b = b'"
proof (induction cs arbitrary: a b a' b')
  case Nil
  then show ?case by simp
next
  case (Cons c cs)
  then show ?case by (simp del: whash_loop.simps add: whash_loop_pearson pearson_inj)
qed

lemma whash_loop_last:
  "whash_loop a b (cs @ [c]) = whash_loop a b (cs @ [c']) \<longleftrightarrow> c = c'"
proof -
  obtain x y where "whash_loop a b cs = (x, y)" by fastforce
  then show ?thesis
    by (auto simp: whash_loop_append whash_loop_pearson pearson_inj simp del: whash_loop.simps(2))
qed

lemma whash_pair_inj: "whash_pair a b = whash_pair a' b' \<longleftrightarrow> a = a' \<and> b = b'"
proof -
  have "whash_pair x y div 256 = unat x" "whash_pair x y mod 256 = unat y" for x y
    using unat_byte[of y] by (simp_all add: whash_pair_def)
  then show ?thesis by (metis word_unat_eq_iff)
qed

lemma whash_pair_bound: "whash_pair a b < 65536"
  using unat_byte[of a] unat_byte[of b] by (simp add: whash_pair_def)

section \<open>Properties\<close>



text \<open>Two strings of the same length within the bound that differ in their last byte only never
  get the same \<open>whashstr\<close> value, because every step of Pearson's hash is a permutation of the bytes.\<close>

theorem whashstr_last_byte:
  assumes "length (cs @ [c]) \<le> nat maxn" and "c \<noteq> c'"
  shows "whashstr_span (cs @ [c]) maxn \<noteq> whashstr_span (cs @ [c']) maxn"
proof (cases cs)
  case Nil
  then show ?thesis using assms
    by (simp add: whashstr_span_def whash_pair_inj Let_def)
next
  case (Cons d ds)
  obtain a b where ab: "whash_loop (of_int (T_hash ! unat d)) (d + 1) (ds @ [c]) = (a, b)" by fastforce
  obtain a' b' where ab': "whash_loop (of_int (T_hash ! unat d)) (d + 1) (ds @ [c']) = (a', b')" by fastforce
  have "(a, b) \<noteq> (a', b')" using assms(2) whash_loop_last[of _ _ ds c c'] ab ab' by metis
  then show ?thesis using assms(1) Cons ab ab'
    by (simp add: whashstr_span_def whash_pair_inj Let_def)
qed

theorem whashstr_last_byte_witness: "whashstr_span [111, 98, 49] 40 \<noteq> whashstr_span [111, 98, 50] 40"
  using whashstr_last_byte[of "[111, 98]" 49 40 50] by simp

end
