(* ===== verification/Stralloc.thy ===== *)
theory Stralloc
  imports Hash_Table Hash_Str
begin

text \<open>
  The shared strings and the reference-counted strings of \<^verbatim>\<open>src/stralloc.c\<close>.  A block of the
  shared table is its address, its 16-bit size and reference count and its bytes; the table is the
  array of chains.  Addresses that the allocator returns are arguments.  The statistics counters
  and the trace output are left out, and so is the search inside the debug assertions.
\<close>

section \<open>The shared string table\<close>

record block =
  blk_ptr :: u64
  blk_size :: u16
  blk_refs :: u16
  blk_str :: bytes

record strtab =
  base_table :: "block list list"
  max_string_length :: nat

text \<open>A string argument is a pair of pointers: an \<open>end\<close> that is NULL, or a span.\<close>

datatype str_arg = Cstr bytes | Span bytes

definition USHRT_MAX :: nat where "USHRT_MAX = 65535"

text \<open>The loop of \<open>init_strings\<close> that rounds the size of the table up to a power of two.\<close>

function htable_round :: "nat \<Rightarrow> nat \<Rightarrow> nat" where
  "htable_round sz hash_size = (if 0 < sz \<and> sz < hash_size then htable_round (sz * 2) hash_size else sz)"
  by pat_completeness auto
termination by (relation "measure (\<lambda>(sz, hash_size). hash_size - sz)") auto

declare htable_round.simps [simp del]

definition init_strings :: "nat \<Rightarrow> nat \<Rightarrow> strtab" where
  "init_strings hash_size max_len =
     \<lparr>base_table = replicate (htable_round 1 hash_size) [], max_string_length = max_len\<rparr>"

definition StrHashN :: "nat \<Rightarrow> bytes \<Rightarrow> nat" where
  "StrHashN htable_size s = (whashstr_span s 20) AND (htable_size - 1)"

abbreviation str_hash :: "strtab \<Rightarrow> bytes \<Rightarrow> nat" where
  "str_hash t s \<equiv> StrHashN (length (base_table t)) s"

definition sfindblock :: "strtab \<Rightarrow> bytes \<Rightarrow> nat \<Rightarrow> block option \<times> strtab" where
  "sfindblock t s h =
     (case chain_take (\<lambda>b. unat (blk_size b) = length s \<and> take (length s) (blk_str b) = s) (base_table t ! h) of
        None \<Rightarrow> (None, t)
      | Some (b, rest) \<Rightarrow> (Some b, t\<lparr>base_table := (base_table t)[h := b # rest]\<rparr>))"

definition findstring :: "strtab \<Rightarrow> str_arg \<Rightarrow> u64 option \<times> strtab" where
  "findstring t arg =
     (case arg of
        Span [] \<Rightarrow> (None, t)
      | Span s \<Rightarrow> let (b, t') = sfindblock t s (str_hash t s) in (map_option blk_ptr b, t')
      | Cstr cs \<Rightarrow> let s = takeWhile (\<lambda>c. c \<noteq> 0) cs; (b, t') = sfindblock t s (str_hash t s)
                   in (map_option blk_ptr b, t'))"

definition alloc_new_string :: "strtab \<Rightarrow> bytes \<Rightarrow> nat \<Rightarrow> u64 \<Rightarrow> block \<times> strtab" where
  "alloc_new_string t s h fresh =
     (let b = \<lparr>blk_ptr = fresh, blk_size = of_nat (length s), blk_refs = 1, blk_str = s\<rparr>
      in (b, t\<lparr>base_table := (base_table t)[h := b # base_table t ! h]\<rparr>))"

text \<open>The bytes that \<open>make_shared_string\<close> interns: the argument cut at the hard limit.\<close>

definition hard_limit :: "strtab \<Rightarrow> nat" where
  "hard_limit t = (if max_string_length t \<ge> USHRT_MAX then USHRT_MAX - 1 else max_string_length t)"

definition interned :: "strtab \<Rightarrow> str_arg \<Rightarrow> bytes" where
  "interned t arg =
     (case arg of
        Span s \<Rightarrow> take (if length s > hard_limit t then hard_limit t else length s) s
      | Cstr cs \<Rightarrow>
          (let s = takeWhile (\<lambda>c. c \<noteq> 0) cs
           in take (if length s \<le> hard_limit t then length s else hard_limit t) s))"

text \<open>The header of the block at an address is changed where the block lies.\<close>

definition upd_block :: "strtab \<Rightarrow> u64 \<Rightarrow> (block \<Rightarrow> block) \<Rightarrow> strtab" where
  "upd_block t p f = t\<lparr>base_table := map (map (\<lambda>b. if blk_ptr b = p then f b else b)) (base_table t)\<rparr>"

definition inc_refs :: "block \<Rightarrow> block" where
  "inc_refs b = (if blk_refs b \<noteq> 0 then b\<lparr>blk_refs := blk_refs b + 1\<rparr> else b)"

definition make_shared_string :: "strtab \<Rightarrow> str_arg \<Rightarrow> u64 \<Rightarrow> u64 \<times> strtab" where
  "make_shared_string t arg fresh =
     (let s = interned t arg; h = str_hash t s in
      case sfindblock t s h of
        (None, t') \<Rightarrow> let (b, t'') = alloc_new_string t' s h fresh in (blk_ptr b, t'')
      | (Some b, t') \<Rightarrow> (blk_ptr b, upd_block t' (blk_ptr b) inc_refs))"

text \<open>\<open>BLOCK (str)\<close>, the header in front of a shared string.\<close>

definition block_at :: "strtab \<Rightarrow> u64 \<Rightarrow> block option" where
  "block_at t p = find (\<lambda>b. blk_ptr b = p) (concat (base_table t))"

definition ref_string :: "strtab \<Rightarrow> u64 \<Rightarrow> (u64 \<times> strtab) option" where
  "ref_string t p =
     (case block_at t p of
        None \<Rightarrow> None
      | Some b \<Rightarrow> Some (p, upd_block t p inc_refs))"

text \<open>The loop that unlinks a block from its chain by its address; also \<open>dealloc_string\<close>.\<close>

definition unlink_block :: "strtab \<Rightarrow> nat \<Rightarrow> u64 \<Rightarrow> strtab" where
  "unlink_block t h p =
     (case chain_take (\<lambda>b. blk_ptr b = p) (base_table t ! h) of
        None \<Rightarrow> t
      | Some (b, rest) \<Rightarrow> t\<lparr>base_table := (base_table t)[h := rest]\<rparr>)"

definition free_string :: "strtab \<Rightarrow> u64 \<Rightarrow> strtab option" where
  "free_string t p =
     (case block_at t p of
        None \<Rightarrow> None
      | Some b \<Rightarrow>
          if blk_refs b = 0 then Some t
          else let t' = upd_block t p (\<lambda>b. b\<lparr>blk_refs := blk_refs b - 1\<rparr>) in
               if blk_refs b - 1 > 0 then Some t'
               else Some (unlink_block t' (str_hash t' (take (unat (blk_size b)) (blk_str b))) p))"

definition dealloc_string :: "strtab \<Rightarrow> u64 \<Rightarrow> strtab option" where
  "dealloc_string t p =
     (case block_at t p of
        None \<Rightarrow> None
      | Some b \<Rightarrow> Some (unlink_block t (str_hash t (take (unat (blk_size b)) (blk_str b))) p))"

section \<open>Strings outside the table\<close>

text \<open>
  A \<open>STRING_MALLOC\<close> block: the payload, its size when it is below \<open>USHRT_MAX\<close>, and otherwise the
  sentinel \<open>USHRT_MAX\<close> with the address of its end.  Memory that the C code leaves uninitialised is
  an argument.
\<close>

record mblock =
  mb_blkend :: "u64 option"
  mb_size :: u16
  mb_ref :: u16
  mb_data :: bytes

type_synonym mheap = "u64 \<rightharpoonup> mblock"

definition mblock_header :: "u64 \<Rightarrow> nat \<Rightarrow> u64 option \<times> u16" where
  "mblock_header p len =
     (if len < USHRT_MAX then (None, of_nat len) else (Some (p + of_nat len), of_nat USHRT_MAX))"

definition int_new_string :: "mheap \<Rightarrow> nat \<Rightarrow> u64 \<Rightarrow> bytes \<Rightarrow> u64 \<times> mheap" where
  "int_new_string hp len fresh mem =
     (let (e, sz) = mblock_header fresh len
      in (fresh, hp(fresh \<mapsto> \<lparr>mb_blkend = e, mb_size = sz, mb_ref = 1, mb_data = take len mem\<rparr>)))"

definition counted_strlen :: "u64 \<Rightarrow> mblock \<Rightarrow> nat" where
  "counted_strlen p b =
     (if unat (mb_size b) = USHRT_MAX
      then (case mb_blkend b of None \<Rightarrow> 0 | Some e \<Rightarrow> unat (e - p))
      else unat (mb_size b))"

definition str_arg_bytes :: "str_arg \<Rightarrow> bytes" where
  "str_arg_bytes arg = (case arg of Span s \<Rightarrow> s | Cstr cs \<Rightarrow> takeWhile (\<lambda>c. c \<noteq> 0) cs)"

text \<open>The payload is allocated and then overwritten by the copied bytes.\<close>

definition int_string_copy :: "strtab \<Rightarrow> mheap \<Rightarrow> str_arg \<Rightarrow> u64 \<Rightarrow> u64 \<times> mheap" where
  "int_string_copy t hp arg fresh =
     (let s = str_arg_bytes arg;
          len = (if length s > max_string_length t then max_string_length t else length s)
      in int_new_string hp len fresh (take len s))"

text \<open>\<open>DREALLOC\<close> keeps the first bytes and returns an address; bytes beyond the old payload are new.\<close>

definition int_extend_string :: "mheap \<Rightarrow> u64 \<Rightarrow> nat \<Rightarrow> u64 \<Rightarrow> bytes \<Rightarrow> (u64 \<times> mheap) option" where
  "int_extend_string hp p len moved mem =
     (case hp p of
        None \<Rightarrow> None
      | Some b \<Rightarrow>
          let (e, sz) = mblock_header moved len
          in Some (moved, (hp(p := None))(moved \<mapsto> b\<lparr>mb_blkend := e, mb_size := sz,
                                                  mb_data := take len (mb_data b @ mem)\<rparr>)))"

definition int_alloc_cstring :: "str_arg \<Rightarrow> bytes" where
  "int_alloc_cstring arg = str_arg_bytes arg @ [0]"

definition int_string_unlink :: "mheap \<Rightarrow> u64 \<Rightarrow> u64 \<Rightarrow> (u64 \<times> mheap) option" where
  "int_string_unlink hp p fresh =
     (case hp p of
        None \<Rightarrow> None
      | Some b \<Rightarrow>
          if mb_ref b \<le> 1 then None
          else
            let hp' = hp(p \<mapsto> b\<lparr>mb_ref := mb_ref b - 1\<rparr>) in
            if unat (mb_size b) = USHRT_MAX then
              (let len = (case mb_blkend b of Some e \<Rightarrow> unat (e - p) | None \<Rightarrow> 0)
               in Some (fresh, hp'(fresh \<mapsto> \<lparr>mb_blkend = Some (fresh + of_nat len), mb_size = of_nat USHRT_MAX,
                                              mb_ref = 1, mb_data = take len (mb_data b)\<rparr>)))
            else
              Some (fresh, hp'(fresh \<mapsto> \<lparr>mb_blkend = None, mb_size = mb_size b, mb_ref = 1,
                                          mb_data = take (unat (mb_size b)) (mb_data b)\<rparr>)))"

definition mstr_update_size_impl :: "u64 \<Rightarrow> mblock \<Rightarrow> nat \<Rightarrow> mblock" where
  "mstr_update_size_impl p b new_size =
     b\<lparr>mb_size := (if new_size > USHRT_MAX then of_nat USHRT_MAX else of_nat new_size),
       mb_blkend := (if new_size \<ge> USHRT_MAX then Some (p + of_nat new_size) else None)\<rparr>"

section \<open>String values\<close>

datatype str_sv = SvConst bytes | SvShared u64 | SvMalloc u64

record str_state =
  st_shared :: strtab
  st_heap :: mheap

definition free_string_svalue :: "str_state \<Rightarrow> str_sv \<Rightarrow> str_state option" where
  "free_string_svalue st v =
     (case v of
        SvConst _ \<Rightarrow> Some st
      | SvShared p \<Rightarrow>
          (case block_at (st_shared st) p of
             None \<Rightarrow> None
           | Some b \<Rightarrow>
               if blk_refs b = 0 then Some st
               else let t' = upd_block (st_shared st) p (\<lambda>b. b\<lparr>blk_refs := blk_refs b - 1\<rparr>) in
                    if blk_refs b - 1 > 0 then Some (st\<lparr>st_shared := t'\<rparr>)
                    else map_option (\<lambda>t''. st\<lparr>st_shared := t''\<rparr>) (dealloc_string t' p))
      | SvMalloc p \<Rightarrow>
          (case st_heap st p of
             None \<Rightarrow> None
           | Some b \<Rightarrow>
               if mb_ref b = 0 then Some st
               else if mb_ref b - 1 > 0 then Some (st\<lparr>st_heap := (st_heap st)(p \<mapsto> b\<lparr>mb_ref := mb_ref b - 1\<rparr>)\<rparr>)
               else Some (st\<lparr>st_heap := (st_heap st)(p := None)\<rparr>)))"

definition unlink_string_svalue :: "str_state \<Rightarrow> str_sv \<Rightarrow> u64 \<Rightarrow> (str_sv \<times> str_state) option" where
  "unlink_string_svalue st v fresh =
     (case v of
        SvMalloc p \<Rightarrow>
          (case st_heap st p of
             None \<Rightarrow> None
           | Some b \<Rightarrow>
               if mb_ref b > 1
               then map_option (\<lambda>(q, hp). (SvMalloc q, st\<lparr>st_heap := hp\<rparr>)) (int_string_unlink (st_heap st) p fresh)
               else Some (v, st))
      | SvShared p \<Rightarrow>
          (case block_at (st_shared st) p of
             None \<Rightarrow> None
           | Some b \<Rightarrow>
               let len = unat (blk_size b);
                   (q, hp) = int_new_string (st_heap st) len fresh (take len (blk_str b))
               in map_option (\<lambda>t'. (SvMalloc q, st\<lparr>st_heap := hp, st_shared := t'\<rparr>))
                    (free_string (st_shared st) p))
      | SvConst s \<Rightarrow>
          (let (q, hp) = int_string_copy (st_shared st) (st_heap st) (Cstr s) fresh
           in Some (SvMalloc q, st\<lparr>st_heap := hp\<rparr>)))"

section \<open>Invariant\<close>

definition strtab_wf :: "strtab \<Rightarrow> bool" where
  "strtab_wf t \<longleftrightarrow> (\<exists>k. length (base_table t) = 2 ^ k) \<and>
     ht_inv (str_hash t) blk_str (base_table t) \<and>
     distinct (map blk_ptr (concat (base_table t))) \<and>
     (\<forall>b\<in>set (concat (base_table t)). unat (blk_size b) = length (blk_str b) \<and> length (blk_str b) \<le> hard_limit t)"

abbreviation smap :: "strtab \<Rightarrow> bytes \<rightharpoonup> block" where
  "smap t \<equiv> ht_map blk_str (base_table t)"

lemma and_pow2_minus1_less: "(x :: nat) AND (2 ^ k - 1) < 2 ^ k"
proof -
  have "x AND (2 ^ k - 1) = take_bit k x" by (simp only: take_bit_eq_mask mask_eq_exp_minus_1)
  then show ?thesis by (simp only: take_bit_nat_less_exp)
qed

interpretation shared_chain: chained_table "StrHashN (2 ^ k)" blk_str "2 ^ k" for k
  by unfold_locales (simp only: StrHashN_def and_pow2_minus1_less)

lemma htable_round_pow2: "\<exists>k. htable_round (2 ^ j) n = 2 ^ k"
proof (induction "2 ^ j :: nat" n arbitrary: j rule: htable_round.induct)
  case (1 n)
  show ?case
  proof (cases "2 ^ j < n")
    case True
    then have "htable_round (2 ^ j) n = htable_round (2 ^ Suc j) n"
      by (subst htable_round.simps) (simp add: mult.commute)
    then show ?thesis using 1[of "Suc j"] True by (simp add: mult.commute)
  next
    case False
    then show ?thesis by (subst htable_round.simps) auto
  qed
qed

lemma hard_limit_less: "hard_limit t < 65535"
  by (simp add: hard_limit_def USHRT_MAX_def)

lemma hard_limit_table [simp]: "hard_limit (t\<lparr>base_table := tab\<rparr>) = hard_limit t"
  by (simp add: hard_limit_def)

lemma length_interned: "length (interned t arg) \<le> hard_limit t"
  by (auto simp: interned_def Let_def split: str_arg.split)

text \<open>The test of \<open>sfindblock\<close> on a block whose size field is exact.\<close>

lemma block_test:
  "unat (blk_size b) = length (blk_str b) \<Longrightarrow>
   unat (blk_size b) = length s \<and> take (length s) (blk_str b) = s \<longleftrightarrow> blk_str b = s"
  by (metis take_all order_refl)

lemma strtab_wfD:
  assumes "strtab_wf t"
  shows "str_hash t s < length (base_table t)" "ht_inv (str_hash t) blk_str (base_table t)"
    "smap t s = find (\<lambda>b. blk_str b = s) (base_table t ! str_hash t s)"
    "\<And>b. b \<in> set (base_table t ! str_hash t s) \<Longrightarrow> unat (blk_size b) = length (blk_str b)"
proof -
  obtain k where k: "length (base_table t) = 2 ^ k" using assms by (auto simp: strtab_wf_def)
  show h: "str_hash t s < length (base_table t)" using shared_chain.idx_less[of k s] k by simp
  show inv: "ht_inv (str_hash t) blk_str (base_table t)" using assms by (simp add: strtab_wf_def)
  show "smap t s = find (\<lambda>b. blk_str b = s) (base_table t ! str_hash t s)"
    using shared_chain.ht_map_chain[of k "base_table t" s] inv k by simp
  show "unat (blk_size b) = length (blk_str b)" if "b \<in> set (base_table t ! str_hash t s)" for b
    using assms that h by (auto simp: strtab_wf_def)
qed

lemma strtab_wf_same:
  assumes "strtab_wf t" "length tab = length (base_table t)" "ht_inv (str_hash t) blk_str tab"
    "mset (concat tab) = mset (concat (base_table t))"
  shows "strtab_wf (t\<lparr>base_table := tab\<rparr>)"
  using assms mset_eq_setD[OF assms(4)] distinct_map_mset[OF assms(4), of blk_ptr]
  by (simp add: strtab_wf_def del: set_concat)

lemma sfindblock_wf:
  assumes "strtab_wf t"
  shows "\<exists>t'. sfindblock t s (str_hash t s) = (smap t s, t') \<and> strtab_wf t' \<and> smap t' = smap t \<and>
           length (base_table t') = length (base_table t) \<and> max_string_length t' = max_string_length t \<and>
           mset (concat (base_table t')) = mset (concat (base_table t))"
proof (cases "chain_take (\<lambda>b. unat (blk_size b) = length s \<and> take (length s) (blk_str b) = s)
    (base_table t ! str_hash t s)")
  case None
  then have "\<forall>b\<in>set (base_table t ! str_hash t s). blk_str b \<noteq> s"
    using strtab_wfD(4)[OF assms] block_test by (fastforce simp: chain_take_none)
  then have "smap t s = None" unfolding strtab_wfD(3)[OF assms] by (simp add: find_None_iff)
  then show ?thesis using None assms by (simp add: sfindblock_def)
next
  case (Some br)
  obtain b r where br: "br = (b, r)" by fastforce
  obtain xs ys where c: "base_table t ! str_hash t s = xs @ b # ys" "r = xs @ ys"
    "unat (blk_size b) = length s" "take (length s) (blk_str b) = s"
    using chain_take_some[of _ _ b r] Some br by blast
  then have bs: "blk_str b = s" using strtab_wfD(4)[OF assms, of b s] block_test[of b s] by simp
  have b: "b \<in> ht_nodes (base_table t)"
    using strtab_wfD(1)[OF assms] c(1) by (intro ht_nodes_chain[of "str_hash t s"]) auto
  then have sm: "smap t s = Some b" using bs by (simp add: ht_map_some[OF strtab_wfD(2)[OF assms]])
  let ?tab = "(base_table t)[str_hash t s := b # r]"
  have m: "mset (b # r) = mset (base_table t ! str_hash t s)" using c by simp
  obtain k where k: "length (base_table t) = 2 ^ k" using assms by (auto simp: strtab_wf_def)
  note ro = shared_chain.ht_reorder[of k "base_table t" "str_hash t s", OF _ strtab_wfD(1)[OF assms] m]
  have inv: "ht_inv (str_hash t) blk_str ?tab" "smap (t\<lparr>base_table := ?tab\<rparr>) = smap t"
    using ro(1,2) strtab_wfD(2)[OF assms] k by simp_all
  moreover have mm: "mset (concat ?tab) = mset (concat (base_table t))"
    by (rule mset_concat_reorder[OF strtab_wfD(1)[OF assms] m])
  ultimately show ?thesis
    using Some br sm strtab_wf_same[OF assms _ inv(1) mm] by (simp add: sfindblock_def)
qed

section \<open>Interning, referencing and freeing\<close>

lemma block_at_iff:
  "strtab_wf t \<Longrightarrow> block_at t p = Some b \<longleftrightarrow> b \<in> ht_nodes (base_table t) \<and> blk_ptr b = p"
  unfolding block_at_def ht_nodes_def by (rule find_some_iff) (simp add: strtab_wf_def)

lemma smap_iff: "strtab_wf t \<Longrightarrow> smap t s = Some b \<longleftrightarrow> b \<in> ht_nodes (base_table t) \<and> blk_str b = s"
  by (rule ht_map_some[OF strtab_wfD(2)])

lemma smap_ptr_inj:
  "strtab_wf t \<Longrightarrow> smap t s = Some b \<Longrightarrow> smap t s' = Some b' \<Longrightarrow> blk_ptr b = blk_ptr b' \<longleftrightarrow> s = s'"
  using block_at_iff[of t "blk_ptr b" b] block_at_iff[of t "blk_ptr b" b'] smap_iff[of t]
  by (metis option.inject)

lemma upd_block_wf:
  assumes "strtab_wf t" "\<And>b. blk_str (f b) = blk_str b" "\<And>b. blk_ptr (f b) = blk_ptr b"
    "\<And>b. blk_size (f b) = blk_size b"
  shows "strtab_wf (upd_block t p f)"
    "smap (upd_block t p f) s = map_option (\<lambda>b. if blk_ptr b = p then f b else b) (smap t s)"
proof -
  let ?g = "\<lambda>b. if blk_ptr b = p then f b else b"
  have g: "blk_str (?g b) = blk_str b" "blk_ptr (?g b) = blk_ptr b" "blk_size (?g b) = blk_size b" for b
    using assms(2-4) by simp_all
  show "strtab_wf (upd_block t p f)"
    using assms ht_inv_map[where g = ?g and key = blk_str, OF g(1)] g
    by (auto simp: strtab_wf_def upd_block_def concat_map_map comp_def simp del: set_concat)
  show "smap (upd_block t p f) s = map_option ?g (smap t s)"
    using ht_map_map[where g = ?g and key = blk_str, OF g(1)] by (simp add: upd_block_def)
qed

text \<open>Changing the block of one string leaves the other strings alone.\<close>

lemma upd_block_smap:
  assumes "strtab_wf t" "smap t s = Some b" "\<And>b. blk_str (f b) = blk_str b" "\<And>b. blk_ptr (f b) = blk_ptr b"
    "\<And>b. blk_size (f b) = blk_size b"
  shows "smap (upd_block t (blk_ptr b) f) = (smap t)(s \<mapsto> f b)"
proof
  fix s'
  show "smap (upd_block t (blk_ptr b) f) s' = ((smap t)(s \<mapsto> f b)) s'"
  proof (cases "smap t s'")
    case None
    then have "s' \<noteq> s" using assms(2) by auto
    then show ?thesis using None by (simp add: upd_block_wf(2)[OF assms(1,3-5)])
  next
    case (Some b')
    then have "blk_ptr b' = blk_ptr b \<longleftrightarrow> s' = s" using smap_ptr_inj[OF assms(1) Some assms(2)] by simp
    then show ?thesis using Some assms(2) by (auto simp: upd_block_wf(2)[OF assms(1,3-5)])
  qed
qed

lemma inc_refs_fields [simp]:
  "blk_str (inc_refs b) = blk_str b" "blk_ptr (inc_refs b) = blk_ptr b" "blk_size (inc_refs b) = blk_size b"
  by (simp_all add: inc_refs_def)

lemma alloc_new_string_wf:
  assumes "strtab_wf t" "smap t s = None" "fresh \<notin> blk_ptr ` ht_nodes (base_table t)" "length s \<le> hard_limit t"
  defines "b \<equiv> \<lparr>blk_ptr = fresh, blk_size = of_nat (length s), blk_refs = 1, blk_str = s\<rparr>"
  shows "\<exists>t'. alloc_new_string t s (str_hash t s) fresh = (b, t') \<and> strtab_wf t' \<and> smap t' = (smap t)(s \<mapsto> b)"
proof -
  obtain k where k: "length (base_table t) = 2 ^ k" using assms(1) by (auto simp: strtab_wf_def)
  let ?tab = "(base_table t)[str_hash t s := b # base_table t ! str_hash t s]"
  have b: "blk_str b = s" by (simp add: b_def)
  have ins: "ht_inv (str_hash t) blk_str ?tab" "ht_map blk_str ?tab = (smap t)(s \<mapsto> b)"
      "ht_nodes ?tab = insert b (ht_nodes (base_table t))"
    using shared_chain.ht_insert[of k "base_table t" b] strtab_wfD(2)[OF assms(1)] k assms(2) b by simp_all
  have "mset (concat ?tab) = mset (b # concat (base_table t))"
    using mset_concat_update[OF strtab_wfD(1)[OF assms(1)], of s "b # base_table t ! str_hash t s"] by simp
  then have "distinct (map blk_ptr (concat ?tab))"
    using distinct_map_mset[of "concat ?tab" "b # concat (base_table t)" blk_ptr] assms(1,3)
    by (simp add: strtab_wf_def ht_nodes_def b_def)
  moreover have "unat (blk_size b) = length (blk_str b) \<and> length (blk_str b) \<le> hard_limit t"
    using assms(4) hard_limit_less[of t] by (simp add: b_def unsigned_of_nat take_bit_nat_eq_self)
  ultimately have "strtab_wf (t\<lparr>base_table := ?tab\<rparr>)"
    using assms(1) ins(1,3) k by (simp add: strtab_wf_def ht_nodes_def[symmetric] del: set_concat)
  then show ?thesis using ins(2) by (simp add: alloc_new_string_def b_def Let_def)
qed

text \<open>What interning does to the abstract table.\<close>

lemma make_shared_string_smap:
  fixes arg :: str_arg
  assumes "strtab_wf t" "fresh \<notin> blk_ptr ` ht_nodes (base_table t)"
  defines "s \<equiv> interned t arg"
  shows "\<exists>b t'. make_shared_string t arg fresh = (blk_ptr b, t') \<and> strtab_wf t' \<and>
     smap t' = (smap t)(s \<mapsto> b) \<and>
     (case smap t s of
        None \<Rightarrow> b = \<lparr>blk_ptr = fresh, blk_size = of_nat (length s), blk_refs = 1, blk_str = s\<rparr>
      | Some b0 \<Rightarrow> b = inc_refs b0)"
proof -
  obtain t1 where t1: "sfindblock t s (str_hash t s) = (smap t s, t1)" "strtab_wf t1" "smap t1 = smap t"
      "length (base_table t1) = length (base_table t)" "max_string_length t1 = max_string_length t"
      "mset (concat (base_table t1)) = mset (concat (base_table t))"
    using sfindblock_wf[OF assms(1), of s] by blast
  show ?thesis
  proof (cases "smap t s")
    case None
    have "fresh \<notin> blk_ptr ` ht_nodes (base_table t1)" using assms(2) t1(6) by (simp add: ht_nodes_mset)
    moreover have "length s \<le> hard_limit t1"
      using length_interned[of t arg] t1(5) unfolding s_def hard_limit_def by (simp only:)
    ultimately obtain t2 where
      "alloc_new_string t1 s (str_hash t s) fresh =
         (\<lparr>blk_ptr = fresh, blk_size = of_nat (length s), blk_refs = 1, blk_str = s\<rparr>, t2)"
      "strtab_wf t2" "smap t2 = (smap t)(s \<mapsto> \<lparr>blk_ptr = fresh, blk_size = of_nat (length s), blk_refs = 1, blk_str = s\<rparr>)"
      using alloc_new_string_wf[OF t1(2), of s fresh] None t1(3,4) by auto
    then show ?thesis using None t1(1) by (simp add: make_shared_string_def s_def[symmetric] Let_def)
  next
    case (Some b0)
    then have s1: "smap t1 s = Some b0" using t1(3) by simp
    have "make_shared_string t arg fresh = (blk_ptr (inc_refs b0), upd_block t1 (blk_ptr b0) inc_refs)"
      using Some t1(1) by (simp add: make_shared_string_def s_def[symmetric] Let_def)
    then show ?thesis
      using Some upd_block_wf(1)[OF t1(2)] upd_block_smap[OF t1(2) s1, of inc_refs] t1(3) by simp
  qed
qed

lemma unlink_block_smap:
  assumes "strtab_wf t" "smap t s = Some b"
  shows "strtab_wf (unlink_block t (str_hash t s) (blk_ptr b))"
    "smap (unlink_block t (str_hash t s) (blk_ptr b)) = (smap t)(s := None)"
proof -
  obtain k where k: "length (base_table t) = 2 ^ k" using assms(1) by (auto simp: strtab_wf_def)
  let ?c = "base_table t ! str_hash t s"
  have bn: "b \<in> ht_nodes (base_table t)" "blk_str b = s" using assms by (simp_all add: smap_iff)
  have bc: "b \<in> set ?c"
    using assms(2) strtab_wfD(3)[OF assms(1), of s] by (auto simp: find_Some_iff) 
  then obtain b' r where ct: "chain_take (\<lambda>x. blk_ptr x = blk_ptr b) ?c = Some (b', r)"
    using chain_take_none[of "\<lambda>x. blk_ptr x = blk_ptr b" ?c] by (cases "chain_take (\<lambda>x. blk_ptr x = blk_ptr b) ?c") auto
  then obtain xs ys where c: "?c = xs @ b' # ys" "r = xs @ ys" "blk_ptr b' = blk_ptr b"
    using chain_take_some[OF ct] by blast
  have "b' \<in> ht_nodes (base_table t)"
    using strtab_wfD(1)[OF assms(1)] c(1) by (intro ht_nodes_chain[of "str_hash t s"]) auto
  then have eq: "b' = b"
    using block_at_iff[OF assms(1), of "blk_ptr b" b'] block_at_iff[OF assms(1), of "blk_ptr b" b] bn(1) c(3) by simp
  let ?tab = "(base_table t)[str_hash t s := xs @ ys]"
  have u: "unlink_block t (str_hash t s) (blk_ptr b) = t\<lparr>base_table := ?tab\<rparr>"
    using ct c(2) by (simp add: unlink_block_def)
  have rm: "ht_inv (str_hash t) blk_str ?tab" "ht_map blk_str ?tab = (smap t)(s := None)"
      "ht_nodes ?tab = ht_nodes (base_table t) - {b}"
    using shared_chain.ht_remove[of k "base_table t" "str_hash t s" xs b ys] strtab_wfD(1,2)[OF assms(1)] c(1) k eq bn(2)
    by simp_all
  have "mset (concat (base_table t)) = mset (b # concat ?tab)"
    using mset_concat_update[OF strtab_wfD(1)[OF assms(1)], of s "xs @ ys"] c(1) eq by simp
  then have "distinct (map blk_ptr (b # concat ?tab))"
    using distinct_map_mset[of "concat (base_table t)" "b # concat ?tab" blk_ptr] assms(1) by (simp add: strtab_wf_def)
  then show "strtab_wf (unlink_block t (str_hash t s) (blk_ptr b))"
    using assms(1) rm(1,3) k unfolding u by (simp add: strtab_wf_def ht_nodes_def[symmetric] del: set_concat)
  show "smap (unlink_block t (str_hash t s) (blk_ptr b)) = (smap t)(s := None)" using rm(2) unfolding u by simp
qed

lemma free_string_smap:
  assumes "strtab_wf t" "smap t s = Some b"
  shows "\<exists>t'. free_string t (blk_ptr b) = Some t' \<and> strtab_wf t' \<and>
     smap t' = (if blk_refs b = 0 then smap t
                else if blk_refs b = 1 then (smap t)(s := None)
                else (smap t)(s \<mapsto> b\<lparr>blk_refs := blk_refs b - 1\<rparr>))"
proof -
  let ?f = "\<lambda>b :: block. b\<lparr>blk_refs := blk_refs b - 1\<rparr>"
  let ?t = "upd_block t (blk_ptr b) ?f"
  have at: "block_at t (blk_ptr b) = Some b" and bs: "blk_str b = s"
    using assms by (simp_all add: smap_iff block_at_iff)
  have sz: "take (unat (blk_size b)) (blk_str b) = s"
    using assms bs by (auto simp: strtab_wf_def smap_iff ht_nodes_def)
  have t': "strtab_wf ?t" "smap ?t = (smap t)(s \<mapsto> ?f b)"
    using upd_block_wf(1)[OF assms(1), of ?f] upd_block_smap[OF assms, of ?f] by simp_all
  consider "blk_refs b = 0" | "blk_refs b = 1" | "blk_refs b \<noteq> 0" "blk_refs b \<noteq> 1" by blast
  then show ?thesis
  proof cases
    case 1
    then show ?thesis using at assms(1) by (simp add: free_string_def)
  next
    case 2
    have "smap ?t s = Some (?f b)" using t'(2) by simp
    from unlink_block_smap[OF t'(1) this] show ?thesis
      using 2 at sz t'(2) by (simp add: free_string_def Let_def)
  next
    case 3
    then have "blk_refs b - 1 > 0" by (simp add: word_gt_0)
    then show ?thesis using 3 at t' by (simp add: free_string_def Let_def)
  qed
qed

lemma init_strings_wf:
  "strtab_wf (init_strings n m)" "smap (init_strings n m) = Map.empty"
  "ht_nodes (base_table (init_strings n m)) = {}" "max_string_length (init_strings n m) = m"
proof -
  obtain k where k: "htable_round (Suc 0) n = 2 ^ k" using htable_round_pow2[of 0 n] by auto
  show "strtab_wf (init_strings n m)" "smap (init_strings n m) = Map.empty"
    "ht_nodes (base_table (init_strings n m)) = {}" "max_string_length (init_strings n m) = m"
    by (auto simp: init_strings_def strtab_wf_def ht_inv_def ht_map_def ht_nodes_def k fun_eq_iff find_None_iff)
qed

section \<open>Properties of the shared table\<close>

text \<open>C4. The table made by \<open>init_strings\<close> is empty and well-formed, its size a power of two; on a well-formed
  table \<open>make_shared_string\<close> returns, for the bytes cut at the length limit, the address of the one block
  that holds them: the existing block with its count raised (a count that has wrapped to 0 stays), or a new
  block with count 1; all other strings keep their blocks and the table stays well-formed.\<close>

theorem make_shared_string_correct:
  assumes "strtab_wf t" and "fresh \<notin> blk_ptr ` ht_nodes (base_table t)"
  shows "strtab_wf (init_strings n m) \<and> smap (init_strings n m) = Map.empty \<and>
    (\<exists>b t'. make_shared_string t arg fresh = (blk_ptr b, t') \<and> strtab_wf t' \<and>
       smap t' = (smap t)(interned t arg \<mapsto> b) \<and>
       (case smap t (interned t arg) of
          None \<Rightarrow> blk_ptr b = fresh \<and> blk_refs b = 1
        | Some b0 \<Rightarrow> blk_ptr b = blk_ptr b0 \<and> blk_refs b = (if blk_refs b0 = 0 then 0 else blk_refs b0 + 1)))"
proof -
  have "strtab_wf (init_strings n m) \<and> smap (init_strings n m) = Map.empty" by (simp add: init_strings_wf)
  moreover obtain b t' where b: "make_shared_string t arg fresh = (blk_ptr b, t')" "strtab_wf t'"
      "smap t' = (smap t)(interned t arg \<mapsto> b)"
    and c: "case smap t (interned t arg) of
        None \<Rightarrow> b = \<lparr>blk_ptr = fresh, blk_size = of_nat (length (interned t arg)), blk_refs = 1, blk_str = interned t arg\<rparr>
      | Some b0 \<Rightarrow> b = inc_refs b0"
    using make_shared_string_smap[OF assms, of arg] by blast
  moreover have "case smap t (interned t arg) of
          None \<Rightarrow> blk_ptr b = fresh \<and> blk_refs b = 1
        | Some b0 \<Rightarrow> blk_ptr b = blk_ptr b0 \<and> blk_refs b = (if blk_refs b0 = 0 then 0 else blk_refs b0 + 1)"
    using c by (cases "smap t (interned t arg)") (simp_all add: inc_refs_def)
  ultimately show ?thesis by blast
qed

theorem make_shared_string_correct_witness:
  "\<exists>b t'. make_shared_string (init_strings 4 100) (Cstr [102, 111, 111]) 1 = (blk_ptr b, t') \<and>
     smap t' = [[102, 111, 111] \<mapsto> b] \<and> blk_ptr b = 1 \<and> blk_refs b = 1"
proof -
  have "interned (init_strings 4 100) (Cstr [102, 111, 111]) = [102, 111, 111]"
    by (simp add: interned_def init_strings_wf hard_limit_def USHRT_MAX_def)
  with make_shared_string_correct[OF init_strings_wf(1)[of 4 100], of 1 _ _ "Cstr [102, 111, 111]"] show ?thesis
    by (auto simp: init_strings_wf)
qed

text \<open>C18. Equality of the addresses that two calls of \<open>make_shared_string\<close> return is equality of the
  interned bytes, whatever the form of the arguments: comparing shared strings by address is sound.\<close>

theorem shared_string_identity:
  assumes "strtab_wf t" and "fresh1 \<notin> blk_ptr ` ht_nodes (base_table t)"
    and "make_shared_string t arg1 fresh1 = (p1, t1)"
    and "fresh2 \<notin> blk_ptr ` ht_nodes (base_table t1)"
    and "make_shared_string t1 arg2 fresh2 = (p2, t2)"
  shows "p1 = p2 \<longleftrightarrow> interned t arg1 = interned t1 arg2"
proof -
  obtain b1 where b1: "p1 = blk_ptr b1" "strtab_wf t1" "smap t1 = (smap t)(interned t arg1 \<mapsto> b1)"
    using make_shared_string_smap[OF assms(1,2), of arg1] assms(3) by auto
  obtain b2 where b2: "p2 = blk_ptr b2" "strtab_wf t2" "smap t2 = (smap t1)(interned t1 arg2 \<mapsto> b2)"
    and c: "case smap t1 (interned t1 arg2) of
        None \<Rightarrow> b2 = \<lparr>blk_ptr = fresh2, blk_size = of_nat (length (interned t1 arg2)), blk_refs = 1, blk_str = interned t1 arg2\<rparr>
      | Some b0 \<Rightarrow> b2 = inc_refs b0"
    using make_shared_string_smap[OF b1(2) assms(4), of arg2] assms(5) by auto
  show ?thesis
  proof (cases "interned t arg1 = interned t1 arg2")
    case True
    then show ?thesis using b1 b2 c by simp
  next
    case False
    then have "smap t2 (interned t arg1) = Some b1" "smap t2 (interned t1 arg2) = Some b2"
      using b1(3) b2(3) by simp_all
    then show ?thesis using smap_ptr_inj[OF b2(2)] b1(1) b2(1) False by auto
  qed
qed

theorem shared_string_identity_witness:
  "\<exists>p t1 q t2. make_shared_string (init_strings 4 100) (Cstr [97]) 8 = (p, t1) \<and>
     make_shared_string t1 (Span [97]) 16 = (q, t2) \<and> p = q"
proof -
  let ?t = "init_strings 4 100"
  obtain p t1 where m1: "make_shared_string ?t (Cstr [97]) 8 = (p, t1)" by fastforce
  obtain q t2 where m2: "make_shared_string t1 (Span [97]) 16 = (q, t2)" by fastforce
  have n: "(8::u64) \<notin> blk_ptr ` ht_nodes (base_table ?t)" by (simp add: init_strings_wf)
  have i: "interned ?t (Cstr [97]) = [97]" "hard_limit ?t = 100"
    by (simp_all add: interned_def init_strings_wf hard_limit_def USHRT_MAX_def)
  obtain b where b: "p = blk_ptr b" "strtab_wf t1" "smap t1 = [[97] \<mapsto> b]"
      "b = \<lparr>blk_ptr = 8, blk_size = 1, blk_refs = 1, blk_str = [97]\<rparr>"
    using make_shared_string_smap[OF init_strings_wf(1) n, of "Cstr [97]"] m1 by (auto simp: i init_strings_wf)
  have "x = b" if "x \<in> ht_nodes (base_table t1)" for x
    using smap_iff[OF b(2), of "blk_str x" x] that b(3) by (simp split: if_splits)
  then have f: "(16::u64) \<notin> blk_ptr ` ht_nodes (base_table t1)" using b(4) by fastforce
  have "max_string_length t1 = 100"
    using m1 by (auto simp: make_shared_string_def sfindblock_def alloc_new_string_def upd_block_def init_strings_wf
        Let_def split: option.splits prod.splits)
  then have "interned t1 (Span [97]) = [97]" by (simp add: interned_def hard_limit_def USHRT_MAX_def)
  then show ?thesis using shared_string_identity[OF init_strings_wf(1) n m1 f m2] i m1 m2 by simp
qed

text \<open>C27. \<open>free_string\<close> undoes \<open>make_shared_string\<close>: after the pair every string has exactly the block and
  the count it had before, unless the count stood at \<open>USHRT_MAX\<close>, where it wraps to 0 for good.\<close>

theorem make_free_roundtrip:
  assumes "strtab_wf t" and "fresh \<notin> blk_ptr ` ht_nodes (base_table t)"
    and "make_shared_string t arg fresh = (p, t1)"
    and "\<forall>b. smap t (interned t arg) = Some b \<longrightarrow> blk_refs b \<noteq> 65535"
  shows "\<exists>t2. free_string t1 p = Some t2 \<and> strtab_wf t2 \<and> smap t2 = smap t"
proof -
  obtain b where b: "p = blk_ptr b" "strtab_wf t1" "smap t1 = (smap t)(interned t arg \<mapsto> b)"
    and c: "case smap t (interned t arg) of
        None \<Rightarrow> b = \<lparr>blk_ptr = fresh, blk_size = of_nat (length (interned t arg)), blk_refs = 1, blk_str = interned t arg\<rparr>
      | Some b0 \<Rightarrow> b = inc_refs b0"
    using make_shared_string_smap[OF assms(1,2), of arg] assms(3) by auto
  have s: "smap t1 (interned t arg) = Some b" using b(3) by simp
  obtain t2 where t2: "free_string t1 (blk_ptr b) = Some t2" "strtab_wf t2"
    "smap t2 = (if blk_refs b = 0 then smap t1
                else if blk_refs b = 1 then (smap t1)(interned t arg := None)
                else (smap t1)(interned t arg \<mapsto> b\<lparr>blk_refs := blk_refs b - 1\<rparr>))"
    using free_string_smap[OF b(2) s] by blast
  have "smap t2 = smap t"
  proof (cases "smap t (interned t arg)")
    case None
    then have "blk_refs b = 1" using c by simp
    then show ?thesis using t2(3) b(3) None by (simp add: fun_upd_idem_iff)
  next
    case (Some b0)
    have nz: "blk_refs b0 + 1 \<noteq> 0"
    proof
      assume "blk_refs b0 + 1 = 0"
      then have "blk_refs b0 = - 1" by (simp add: eq_neg_iff_add_eq_0)
      then show False using assms(4) Some by simp
    qed
    show ?thesis
    proof (cases "blk_refs b0 = 0")
      case True
      then have "b = b0" using c Some by (simp add: inc_refs_def)
      then show ?thesis using t2(3) b(3) Some True by (simp add: fun_upd_idem_iff)
    next
      case False
      then have r: "b = b0\<lparr>blk_refs := blk_refs b0 + 1\<rparr>" using c Some by (simp add: inc_refs_def)
      then have "blk_refs b \<noteq> 0" "blk_refs b \<noteq> 1" using nz False by simp_all
      then show ?thesis using t2(3) b(3) Some r by (simp add: fun_upd_idem_iff)
    qed
  qed
  then show ?thesis using t2 b(1) by blast
qed

theorem make_free_roundtrip_witness:
  "\<exists>p t1 t2. make_shared_string (init_strings 4 100) (Cstr [97]) 8 = (p, t1) \<and> free_string t1 p = Some t2 \<and>
     smap t2 = Map.empty"
proof -
  obtain p t1 where m1: "make_shared_string (init_strings 4 100) (Cstr [97]) 8 = (p, t1)" by fastforce
  show ?thesis using make_free_roundtrip[OF init_strings_wf(1) _ m1] m1 by (auto simp: init_strings_wf)
qed

section \<open>Properties of the counted strings\<close>

definition mb_exact :: "u64 \<Rightarrow> mblock \<Rightarrow> bool" where
  "mb_exact p b \<longleftrightarrow> length (mb_data b) < 2 ^ 64 \<and> (mb_blkend b, mb_size b) = mblock_header p (length (mb_data b))"

lemma counted_strlen_exact: "mb_exact p b \<Longrightarrow> counted_strlen p b = length (mb_data b)"
  by (auto simp: mb_exact_def mblock_header_def counted_strlen_def USHRT_MAX_def unsigned_of_nat
      take_bit_nat_eq_self split: if_splits)

lemma new_string_exact:
  assumes "len \<le> length mem" "len < 2 ^ 64"
  shows "\<exists>b. int_new_string hp len fresh mem = (fresh, hp(fresh \<mapsto> b)) \<and> mb_exact fresh b \<and>
           mb_data b = take len mem \<and> mb_ref b = 1"
  using assms by (auto simp: int_new_string_def mb_exact_def min_def split: prod.splits)

text \<open>The length of a counted string is always recovered exactly, also from \<open>USHRT_MAX\<close> bytes on where
  the 16-bit size field is a sentinel: after \<open>new_string\<close>, \<open>string_copy\<close> (cut at the maximum), \<open>extend_string\<close>
  and \<open>MSTR_UPDATE_SIZE\<close>, \<open>COUNTED_STRLEN\<close> is the number of payload bytes.\<close>

theorem counted_length_exact:
  assumes "len \<le> length mem" and "len < 2 ^ 64"
    and "length (str_arg_bytes arg) < 2 ^ 64"
    and "hp q = Some b" and "len \<le> length (mb_data b) + length mem"
  shows "(\<exists>c. (snd (int_new_string hp len fresh mem)) fresh = Some c \<and>
            counted_strlen fresh c = len \<and> mb_data c = take len mem) \<and>
         (\<exists>c. (snd (int_string_copy t hp arg fresh)) fresh = Some c \<and>
            mb_data c = take (max_string_length t) (str_arg_bytes arg) \<and>
            counted_strlen fresh c = length (mb_data c)) \<and>
         (\<exists>hp' c. int_extend_string hp q len moved mem = Some (moved, hp') \<and> hp' moved = Some c \<and>
            counted_strlen moved c = len \<and> mb_data c = take len (mb_data b @ mem)) \<and>
         counted_strlen q (mstr_update_size_impl q b len) = len"
proof (intro conjI)
  show "\<exists>c. (snd (int_new_string hp len fresh mem)) fresh = Some c \<and>
            counted_strlen fresh c = len \<and> mb_data c = take len mem"
    using new_string_exact[OF assms(1,2), of hp fresh] counted_strlen_exact assms(1) by fastforce
  let ?s = "str_arg_bytes arg"
  let ?l = "if length ?s > max_string_length t then max_string_length t else length ?s"
  have l: "?l \<le> length (take ?l ?s)" "?l < 2 ^ 64" using assms(3) by auto
  obtain c where "int_new_string hp ?l fresh (take ?l ?s) = (fresh, hp(fresh \<mapsto> c))" "mb_exact fresh c"
      "mb_data c = take ?l (take ?l ?s)"
    using new_string_exact[OF l, of hp fresh] by blast
  then show "\<exists>c. (snd (int_string_copy t hp arg fresh)) fresh = Some c \<and>
            mb_data c = take (max_string_length t) ?s \<and> counted_strlen fresh c = length (mb_data c)"
    by (auto simp: int_string_copy_def Let_def counted_strlen_exact)
  show "\<exists>hp' c. int_extend_string hp q len moved mem = Some (moved, hp') \<and> hp' moved = Some c \<and>
            counted_strlen moved c = len \<and> mb_data c = take len (mb_data b @ mem)"
  proof -
    obtain e sz where h: "mblock_header moved len = (e, sz)" by fastforce
    define D where D: "D = take len (mb_data b @ mem)"
    let ?c = "b\<lparr>mb_blkend := e, mb_size := sz, mb_data := D\<rparr>"
    have "length D = len" using assms(5) by (simp add: D)
    then have "mb_exact moved ?c" using h assms(2) unfolding mb_exact_def by simp
    then have "counted_strlen moved ?c = len"
      using counted_strlen_exact[of moved ?c] \<open>length D = len\<close> by simp
    moreover have "int_extend_string hp q len moved mem = Some (moved, (hp(q := None))(moved \<mapsto> ?c))"
      using h assms(4) by (simp add: int_extend_string_def D)
    ultimately show ?thesis by (simp add: D)
  qed
  show "counted_strlen q (mstr_update_size_impl q b len) = len"
    using assms(2) by (auto simp: counted_strlen_def mstr_update_size_impl_def USHRT_MAX_def unsigned_of_nat
        take_bit_nat_eq_self)
qed

theorem counted_length_exact_witness:
  "\<exists>c. (snd (int_new_string [16 \<mapsto> \<lparr>mb_blkend = None, mb_size = 0, mb_ref = 1, mb_data = []\<rparr>] 2 8 [5, 6, 7])) 8 = Some c \<and>
     counted_strlen 8 c = 2"
proof -
  let ?b = "\<lparr>mb_blkend = None, mb_size = 0, mb_ref = 1, mb_data = []\<rparr> :: mblock"
  have "length (str_arg_bytes (Cstr [])) < 2 ^ 64" by (simp add: str_arg_bytes_def)
  from counted_length_exact[OF _ _ this, of 2 "[5, 6, 7]" "[16 \<mapsto> ?b]" 16 ?b 8 "init_strings 4 100" 32]
  show ?thesis by auto
qed

text \<open>The bytes that a string value denotes.\<close>

definition sv_bytes :: "str_state \<Rightarrow> str_sv \<Rightarrow> bytes option" where
  "sv_bytes st v =
     (case v of SvConst s \<Rightarrow> Some (takeWhile (\<lambda>c. c \<noteq> 0) s)
      | SvShared p \<Rightarrow> map_option blk_str (block_at (st_shared st) p)
      | SvMalloc p \<Rightarrow> map_option mb_data (st_heap st p))"

definition str_state_wf :: "str_state \<Rightarrow> bool" where
  "str_state_wf st \<longleftrightarrow> strtab_wf (st_shared st) \<and> (\<forall>p b. st_heap st p = Some b \<longrightarrow> mb_exact p b)"

lemma int_string_unlink_copy:
  assumes "hp p = Some b" "mb_exact p b" "mb_ref b > 1"
  shows "\<exists>c. int_string_unlink hp p fresh = Some (fresh, hp(p \<mapsto> b\<lparr>mb_ref := mb_ref b - 1\<rparr>, fresh \<mapsto> c)) \<and>
           mb_exact fresh c \<and> mb_data c = mb_data b \<and> mb_ref c = 1"
proof -
  have r: "\<not> mb_ref b \<le> 1" using assms(3) by simp
  show ?thesis
  proof (cases "length (mb_data b) < USHRT_MAX")
    case True
    then have "unat (mb_size b) = length (mb_data b)" "mb_blkend b = None" "length (mb_data b) \<noteq> USHRT_MAX"
      using assms(2) by (auto simp: mb_exact_def mblock_header_def USHRT_MAX_def unsigned_of_nat take_bit_nat_eq_self)
    then show ?thesis
      using True assms(1,2) r by (auto simp: int_string_unlink_def mb_exact_def mblock_header_def Let_def)
  next
    case False
    then have h: "mb_size b = of_nat USHRT_MAX" "mb_blkend b = Some (p + of_nat (length (mb_data b)))"
      "length (mb_data b) < 2 ^ 64"
      using assms(2) by (auto simp: mb_exact_def mblock_header_def)
    let ?n = "length (mb_data b)"
    let ?c = "\<lparr>mb_blkend = Some (fresh + of_nat ?n), mb_size = of_nat USHRT_MAX, mb_ref = 1, mb_data = mb_data b\<rparr>"
    have "unat (of_nat ?n :: u64) = ?n" using h(3) by (simp add: unsigned_of_nat take_bit_nat_eq_self)
    moreover have "p + of_nat ?n - p = (of_nat ?n :: u64)" by simp
    ultimately have u: "unat (p + of_nat ?n - p) = ?n" by (simp only:)
    have "unat (mb_size b) = USHRT_MAX" by (simp add: h(1) USHRT_MAX_def)
    then have "int_string_unlink hp p fresh = Some (fresh, hp(p \<mapsto> b\<lparr>mb_ref := mb_ref b - 1\<rparr>, fresh \<mapsto> ?c))"
      using assms(1) r unfolding int_string_unlink_def by (simp only: h(2) u option.case if_True if_False Let_def take_all order_refl refl)
    moreover have "mb_exact fresh ?c" using False h(3) by (simp add: mb_exact_def mblock_header_def)
    ultimately show ?thesis by (intro exI[of _ ?c]) simp
  qed
qed



text \<open>C29. A counted string whose reference count has wrapped to 0 (it has been referenced \<open>USHRT_MAX\<close> times and is
  kept for ever) is not copied by \<open>unlink_string_svalue\<close>, although all its holders still share it, so the caller's
  change in place is seen through every other reference.\<close>

theorem unlink_immortal_not_copied:
  assumes "st_heap st p = Some b" and "mb_ref b = 65535"
    and "st' = st\<lparr>st_heap := (st_heap st)(p \<mapsto> b\<lparr>mb_ref := mb_ref b + 1\<rparr>)\<rparr>"
  shows "unlink_string_svalue st' (SvMalloc p) fresh = Some (SvMalloc p, st')"
proof -
  have "(65535 :: u16) + 1 = 0" by (simp add: word_unat_eq_iff)
  then have "mb_ref b + 1 = 0" by (simp only: assms(2))
  then have "st' = st\<lparr>st_heap := (st_heap st)(p \<mapsto> b\<lparr>mb_ref := 0\<rparr>)\<rparr>" by (simp only: assms(3))
  then show ?thesis by (simp add: unlink_string_svalue_def)
qed

theorem unlink_immortal_not_copied_witness:
  "let b = \<lparr>mb_blkend = None, mb_size = 1, mb_ref = 65535, mb_data = [104]\<rparr>;
       st' = \<lparr>st_shared = init_strings 4 100, st_heap = [8 \<mapsto> b\<lparr>mb_ref := mb_ref b + 1\<rparr>]\<rparr>
   in unlink_string_svalue st' (SvMalloc 8) 16 = Some (SvMalloc 8, st')"
  using unlink_immortal_not_copied[of "\<lparr>st_shared = init_strings 4 100,
      st_heap = [8 \<mapsto> \<lparr>mb_blkend = None, mb_size = 1, mb_ref = 65535, mb_data = [104]\<rparr>]\<rparr>" 8
      "\<lparr>mb_blkend = None, mb_size = 1, mb_ref = 65535, mb_data = [104]\<rparr>" _ 16]
  by simp

end
