(* ===== verification/Otable.thy ===== *)
theory Otable
  imports Stralloc
begin

text \<open>
  The object name table of \<^verbatim>\<open>lib/lpc/otable.c\<close>: the normalisation of file names and the chained hash
  table from names to objects.  An object is its address and its name (bytes without NUL); the \<open>next_hash\<close>
  links are the order of the chains, and an object that is in no chain has a NULL link.  The lookup
  statistics are left out.
\<close>

section \<open>Names\<close>

text \<open>The copy loop with \<open>last_c\<close> and the room that is left; \<open>None\<close> is the refusal of a double slash.\<close>

fun otable_copy :: "byte \<Rightarrow> bytes \<Rightarrow> nat \<Rightarrow> bytes option" where
  "otable_copy last_c [] room = Some []"
| "otable_copy last_c (c # cs) room =
     (if c = 0 \<or> room = 0 then Some []
      else if last_c = 47 \<and> c = 47 then None
      else map_option ((#) c) (otable_copy c cs (room - 1)))"

function otable_strip :: "bytes \<Rightarrow> bytes" where
  "otable_strip s =
     (if length s > 2 \<and> s ! (length s - 1) = 99 \<and> s ! (length s - 2) = 46
      then otable_strip (take (length s - 2) s) else s)"
  by pat_completeness auto
termination by (relation "measure length") auto

declare otable_strip.simps [simp del]

definition make_otable_name :: "bytes \<Rightarrow> nat \<Rightarrow> bytes option" where
  "make_otable_name src sz =
     map_option otable_strip (otable_copy 0 (dropWhile (\<lambda>c. c = 47) src) (sz - 1))"

definition add_slash :: "bytes \<Rightarrow> bytes" where
  "add_slash str = 47 # str"

section \<open>The table\<close>

record obj =
  ob_addr :: u64
  ob_name :: bytes

record otable =
  obj_table :: "obj list list"
  objs_in_table :: int

definition ObjHash :: "nat \<Rightarrow> bytes \<Rightarrow> nat" where
  "ObjHash otable_size s = (whashstr_nul s 40) AND (otable_size - 1)"

abbreviation obj_hash :: "otable \<Rightarrow> bytes \<Rightarrow> nat" where
  "obj_hash t s \<equiv> ObjHash (length (obj_table t)) s"

definition init_otable :: "nat \<Rightarrow> otable" where
  "init_otable sz = \<lparr>obj_table = replicate (htable_round 1 sz) [], objs_in_table = 0\<rparr>"

definition find_obj_n :: "otable \<Rightarrow> bytes \<Rightarrow> obj option \<times> otable" where
  "find_obj_n t s =
     (let h = obj_hash t s in
      case chain_take (\<lambda>ob. ob_name ob = s) (obj_table t ! h) of
        None \<Rightarrow> (None, t)
      | Some (ob, rest) \<Rightarrow> (Some ob, t\<lparr>obj_table := (obj_table t)[h := ob # rest]\<rparr>))"

definition enter_object_hash :: "otable \<Rightarrow> obj \<Rightarrow> otable" where
  "enter_object_hash t ob =
     (case find_obj_n t (ob_name ob) of
        (Some _, t') \<Rightarrow> t'
      | (None, t') \<Rightarrow>
          let h = obj_hash t' (ob_name ob)
          in t'\<lparr>obj_table := (obj_table t')[h := ob # obj_table t' ! h], objs_in_table := objs_in_table t' + 1\<rparr>)"

definition enter_object_hash_at_end :: "otable \<Rightarrow> obj \<Rightarrow> otable" where
  "enter_object_hash_at_end t ob =
     (let t' = snd (find_obj_n t (ob_name ob)); h = obj_hash t' (ob_name ob)
      in t'\<lparr>obj_table := (obj_table t')[h := obj_table t' ! h @ [ob]], objs_in_table := objs_in_table t' + 1\<rparr>)"

text \<open>\<open>ob->next_hash\<close>: the rest of the chain behind the object, or NULL.\<close>

definition next_hash :: "obj list \<Rightarrow> obj \<Rightarrow> obj list" where
  "next_hash chain ob = tl (dropWhile (\<lambda>x. x \<noteq> ob) chain)"

definition remove_object_hash :: "otable \<Rightarrow> obj \<Rightarrow> otable" where
  "remove_object_hash t ob =
     (let t' = snd (find_obj_n t (ob_name ob)); h = obj_hash t' (ob_name ob)
      in t'\<lparr>obj_table := (obj_table t')[h := next_hash (obj_table t' ! h) ob],
            objs_in_table := objs_in_table t' - 1\<rparr>)"

definition lookup_object_hash :: "otable \<Rightarrow> bytes \<Rightarrow> obj option \<times> otable" where
  "lookup_object_hash t s = find_obj_n t s"

section \<open>Names are stable\<close>

lemma otable_strip_fix:
  "\<not> (length s > 2 \<and> s ! (length s - 1) = 99 \<and> s ! (length s - 2) = 46) \<Longrightarrow> otable_strip s = s"
  by (subst otable_strip.simps) auto

lemma otable_strip_stable:
  "\<not> (length (otable_strip s) > 2 \<and> otable_strip s ! (length (otable_strip s) - 1) = 99 \<and>
      otable_strip s ! (length (otable_strip s) - 2) = 46)"
proof (induction s rule: otable_strip.induct)
  case (1 s)
  show ?case
  proof (cases "length s > 2 \<and> s ! (length s - 1) = 99 \<and> s ! (length s - 2) = 46")
    case True
    then show ?thesis using 1[OF True] by (subst (1 2 3 4 5) otable_strip.simps) simp
  next
    case False
    then show ?thesis using otable_strip_fix[OF False] by metis
  qed
qed

lemma otable_strip_prefix: "\<exists>n. otable_strip s = take n s \<and> (s \<noteq> [] \<longrightarrow> 0 < n)"
proof (induction s rule: otable_strip.induct)
  case (1 s)
  show ?case
  proof (cases "length s > 2 \<and> s ! (length s - 1) = 99 \<and> s ! (length s - 2) = 46")
    case True
    then obtain n where "otable_strip (take (length s - 2) s) = take n (take (length s - 2) s)" "0 < n"
      using 1[OF True] by auto
    then show ?thesis using True by (subst otable_strip.simps) (auto intro!: exI[of _ "min n (length s - 2)"])
  next
    case False
    then show ?thesis using otable_strip_fix[OF False] by (intro exI[of _ "length s"]) auto
  qed
qed

text \<open>No double slash and no NUL: what the copy loop lets through.\<close>

fun slashes_ok :: "byte \<Rightarrow> bytes \<Rightarrow> bool" where
  "slashes_ok l [] = True"
| "slashes_ok l (c # cs) = (c \<noteq> 0 \<and> \<not> (l = 47 \<and> c = 47) \<and> slashes_ok c cs)"

lemma otable_copy_ok: "otable_copy l cs n = Some r \<Longrightarrow> slashes_ok l r \<and> length r \<le> n \<and> r = take (length r) cs"
  by (induction l cs n arbitrary: r rule: otable_copy.induct) (auto split: if_splits)

lemma otable_copy_id: "slashes_ok l r \<Longrightarrow> length r \<le> n \<Longrightarrow> otable_copy l r n = Some r"
  by (induction r arbitrary: l n) auto

lemma slashes_ok_take: "slashes_ok l r \<Longrightarrow> slashes_ok l (take n r)"
  by (induction r arbitrary: l n) (auto simp: take_Cons split: nat.split)

lemma otable_strip_Nil [simp]: "otable_strip [] = []"
  by (simp add: otable_strip.simps)

lemma dropWhile_strip:
  assumes "r = [] \<or> hd r \<noteq> 47"
  shows "dropWhile (\<lambda>c. c = 47) (otable_strip r) = otable_strip r"
proof (cases r)
  case Nil
  then show ?thesis by simp
next
  case (Cons a r')
  obtain n where "otable_strip r = take n r" "0 < n" using otable_strip_prefix[of r] Cons by auto
  then show ?thesis using assms Cons by (cases n) auto
qed

text \<open>C30. \<open>make_otable_name\<close> gives a normal form, as its comment asks: whatever the buffer size, running it
  again on its own output changes nothing; the output fits the buffer, begins with no slash, holds no double
  slash and keeps no \<^verbatim>\<open>.c\<close> suffix (of a name longer than the suffix alone).\<close>

theorem make_otable_name_idempotent:
  assumes "make_otable_name src sz = Some name"
  shows "make_otable_name name sz = Some name \<and> length name \<le> sz - 1 \<and> (\<forall>r. name \<noteq> 47 # r) \<and>
    slashes_ok 0 name \<and> (\<forall>r. r \<noteq> [] \<longrightarrow> name \<noteq> r @ [46, 99])"
proof -
  let ?src = "dropWhile (\<lambda>c. c = 47) src"
  obtain r where r: "otable_copy 0 ?src (sz - 1) = Some r" "name = otable_strip r"
    using assms by (auto simp: make_otable_name_def)
  have ok: "slashes_ok 0 r" "length r \<le> sz - 1" "r = take (length r) ?src" using otable_copy_ok[OF r(1)] by auto
  have "?src = [] \<or> hd ?src \<noteq> 47" using hd_dropWhile[of "\<lambda>c. c = 47" src] by blast
  then have "r = [] \<or> hd r \<noteq> 47" using ok(3) by (metis hd_take length_greater_0_conv take_eq_Nil)
  note dw = dropWhile_strip[OF this]
  obtain n where n: "name = take n r" using otable_strip_prefix[of r] r(2) by auto
  have nok: "slashes_ok 0 name" "length name \<le> sz - 1" using slashes_ok_take[OF ok(1)] ok(2) n by auto
  have fix_name: "otable_strip name = name" using otable_strip_fix[OF otable_strip_stable[of r]] r(2) by simp
  have "make_otable_name name sz = Some name"
    using dw r(2) otable_copy_id[OF nok] fix_name by (simp add: make_otable_name_def)
  moreover have "\<forall>r. name \<noteq> 47 # r" using dw r(2) by (metis dropWhile_eq_self_iff list.sel(1) list.distinct(1))
  moreover have "\<forall>r'. r' \<noteq> [] \<longrightarrow> name \<noteq> r' @ [46, 99]"
  proof (intro allI impI notI)
    fix r' assume "r' \<noteq> []" "name = r' @ [46, 99]"
    then show False using otable_strip_stable[of r] r(2) by (simp add: nth_append)
  qed
  ultimately show ?thesis using nok by blast
qed

theorem make_otable_name_idempotent_witness:
  "make_otable_name [47, 97, 47, 98, 46, 99, 46, 99] 64 = Some [97, 47, 98] \<and>
   make_otable_name [97, 47, 98] 64 = Some [97, 47, 98]"
proof -
  have "make_otable_name [47, 97, 47, 98, 46, 99, 46, 99] 64 = Some [97, 47, 98]"
    by (simp add: make_otable_name_def otable_strip.simps)
  with make_otable_name_idempotent[OF this] show ?thesis by blast
qed

section \<open>The table is a map from names to objects\<close>

definition otable_wf :: "otable \<Rightarrow> bool" where
  "otable_wf t \<longleftrightarrow> (\<exists>k. length (obj_table t) = 2 ^ k) \<and> ht_inv (obj_hash t) ob_name (obj_table t) \<and>
     objs_in_table t = int (length (concat (obj_table t)))"

abbreviation omap :: "otable \<Rightarrow> bytes \<rightharpoonup> obj" where
  "omap t \<equiv> ht_map ob_name (obj_table t)"

interpretation obj_chain: chained_table "ObjHash (2 ^ k)" ob_name "2 ^ k" for k
  by unfold_locales (simp only: ObjHash_def and_pow2_minus1_less)

lemma otable_wfD:
  assumes "otable_wf t"
  shows "obj_hash t s < length (obj_table t)"
    and "omap t s = find (\<lambda>ob. ob_name ob = s) (obj_table t ! obj_hash t s)"
proof -
  obtain k where k: "length (obj_table t) = 2 ^ k" "ht_inv (obj_hash t) ob_name (obj_table t)"
    using assms by (auto simp: otable_wf_def)
  show "obj_hash t s < length (obj_table t)" using obj_chain.idx_less[of k s] k(1) by simp
  show "omap t s = find (\<lambda>ob. ob_name ob = s) (obj_table t ! obj_hash t s)"
    using obj_chain.ht_map_chain[of k "obj_table t" s] k by simp
qed

lemma init_otable_wf: "otable_wf (init_otable n)" "omap (init_otable n) = Map.empty"
proof -
  obtain k where k: "htable_round (Suc 0) n = 2 ^ k" using htable_round_pow2[of 0 n] by auto
  show "otable_wf (init_otable n)" "omap (init_otable n) = Map.empty"
    by (auto simp: init_otable_def otable_wf_def ht_inv_def ht_map_def k fun_eq_iff find_None_iff)
qed

lemma length_concat_mset: "mset (concat a) = mset (concat b) \<Longrightarrow> length (concat a) = length (concat b)"
  by (metis size_mset)

text \<open>The lookup moves the object found to the head of its chain.\<close>

lemma find_obj_n_wf:
  assumes "otable_wf t"
  obtains t' where "find_obj_n t s = (omap t s, t')" "otable_wf t'" "omap t' = omap t"
    "length (obj_table t') = length (obj_table t)" "objs_in_table t' = objs_in_table t"
    "\<And>ob. omap t s = Some ob \<Longrightarrow> \<exists>r. obj_table t' ! obj_hash t s = ob # r"
proof (cases "chain_take (\<lambda>ob. ob_name ob = s) (obj_table t ! obj_hash t s)")
  case None
  then have "omap t s = None" unfolding otable_wfD(2)[OF assms] by (simp add: chain_take_none find_None_iff)
  then show ?thesis using None assms by (intro that[of t]) (simp_all add: find_obj_n_def)
next
  case (Some br)
  obtain ob r where br: "br = (ob, r)" by fastforce
  let ?h = "obj_hash t s" and ?t = "t\<lparr>obj_table := (obj_table t)[obj_hash t s := ob # r]\<rparr>"
  have h: "?h < length (obj_table t)" by (rule otable_wfD(1)[OF assms])
  have f: "omap t s = Some ob"
    unfolding otable_wfD(2)[OF assms] chain_take_find[symmetric] using Some br by simp
  obtain k where k: "length (obj_table t) = 2 ^ k" "ht_inv (obj_hash t) ob_name (obj_table t)"
      "objs_in_table t = int (length (concat (obj_table t)))"
    using assms by (auto simp: otable_wf_def)
  obtain xs ys where xy: "obj_table t ! ?h = xs @ ob # ys" "r = xs @ ys"
    using chain_take_some[of _ "obj_table t ! ?h" ob r] Some br by blast
  then have m: "mset (ob # r) = mset (obj_table t ! ?h)" by simp
  have w: "ht_inv (ObjHash (2 ^ k)) ob_name (obj_table t)" using k(1,2) by simp
  note ro = obj_chain.ht_reorder[OF w h m]
  have "length (concat (obj_table ?t)) = length (concat (obj_table t))"
    using length_concat_mset[OF mset_concat_reorder[OF h m]] by simp
  then have "otable_wf ?t" using ro(1) k by (simp add: otable_wf_def)
  then show ?thesis using Some br f ro(2) h by (intro that[of ?t]) (simp_all add: find_obj_n_def)
qed

lemma length_enter: "length (obj_table (enter_object_hash t ob)) = length (obj_table t)"
  by (simp add: enter_object_hash_def find_obj_n_def Let_def split: option.split prod.split)

lemma enter_object_hash_wf:
  assumes "otable_wf t"
  shows "otable_wf (enter_object_hash t ob) \<and>
    omap (enter_object_hash t ob) = (if omap t (ob_name ob) = None then (omap t)(ob_name ob \<mapsto> ob) else omap t)"
proof -
  obtain t' where f: "find_obj_n t (ob_name ob) = (omap t (ob_name ob), t')" "otable_wf t'" "omap t' = omap t"
    using find_obj_n_wf[OF assms, where s = "ob_name ob"] by metis
  show ?thesis
  proof (cases "omap t (ob_name ob)")
    case None
    let ?h = "obj_hash t' (ob_name ob)"
    let ?tab = "(obj_table t')[?h := ob # obj_table t' ! ?h]"
    obtain k where k: "length (obj_table t') = 2 ^ k" "ht_inv (ObjHash (2 ^ k)) ob_name (obj_table t')"
        "objs_in_table t' = int (length (concat (obj_table t')))"
      using f(2) by (auto simp: otable_wf_def)
    have "omap t' (ob_name ob) = None" using None f(3) by simp
    note ins = obj_chain.ht_insert[OF k(2,1) this]
    have "size (mset (concat ?tab) + mset (obj_table t' ! ?h)) =
        size (mset (concat (obj_table t')) + mset (ob # obj_table t' ! ?h))"
      by (rule arg_cong[OF mset_concat_update]) (rule otable_wfD(1)[OF f(2)])
    then have "length (concat ?tab) = length (concat (obj_table t')) + 1" by (simp only: size_union size_mset) simp
    then show ?thesis using None f ins k by (simp add: enter_object_hash_def Let_def otable_wf_def)
  next
    case (Some o')
    then show ?thesis using f by (simp add: enter_object_hash_def)
  qed
qed

lemma remove_object_hash_wf:
  assumes "otable_wf t" "omap t (ob_name ob) = Some ob"
  shows "otable_wf (remove_object_hash t ob) \<and> omap (remove_object_hash t ob) = (omap t)(ob_name ob := None)"
proof -
  obtain t' r where f: "find_obj_n t (ob_name ob) = (Some ob, t')" "otable_wf t'" "omap t' = omap t"
      "length (obj_table t') = length (obj_table t)" "obj_table t' ! obj_hash t (ob_name ob) = ob # r"
    using find_obj_n_wf[OF assms(1), where s = "ob_name ob"] assms(2) by metis
  let ?h = "obj_hash t' (ob_name ob)"
  obtain k where k: "length (obj_table t') = 2 ^ k" "ht_inv (ObjHash (2 ^ k)) ob_name (obj_table t')"
      "objs_in_table t' = int (length (concat (obj_table t')))"
    using f(2) by (auto simp: otable_wf_def)
  have c: "obj_table t' ! ?h = [] @ ob # r" and h: "?h < length (obj_table t')"
    using f(4,5) otable_wfD(1)[OF f(2)] by simp_all
  note rm = obj_chain.ht_remove[OF k(2) h c]
  have "size (mset (concat ((obj_table t')[?h := r])) + mset (obj_table t' ! ?h)) =
      size (mset (concat (obj_table t')) + mset r)"
    by (rule arg_cong[OF mset_concat_update[OF h]])
  then have "length (concat (obj_table t')) = length (concat ((obj_table t')[?h := r])) + 1"
    unfolding c by (simp only: size_union size_mset) simp
  then show ?thesis using f rm c k by (simp add: remove_object_hash_def Let_def otable_wf_def next_hash_def)
qed

text \<open>Sequences of operations on the table, and on the map it stands for.  An object is removed only while it
  is the one that its name finds.\<close>

datatype otable_op = Enter obj | Lookup bytes | Remove obj

fun run_otable :: "otable \<Rightarrow> otable_op list \<Rightarrow> obj option list" where
  "run_otable t [] = []"
| "run_otable t (Enter ob # ops) = run_otable (enter_object_hash t ob) ops"
| "run_otable t (Lookup s # ops) = (case lookup_object_hash t s of (r, t') \<Rightarrow> r # run_otable t' ops)"
| "run_otable t (Remove ob # ops) = run_otable (remove_object_hash t ob) ops"

fun run_names :: "(bytes \<rightharpoonup> obj) \<Rightarrow> otable_op list \<Rightarrow> obj option list option" where
  "run_names m [] = Some []"
| "run_names m (Enter ob # ops) =
     run_names (if m (ob_name ob) = None then m(ob_name ob \<mapsto> ob) else m) ops"
| "run_names m (Lookup s # ops) = map_option ((#) (m s)) (run_names m ops)"
| "run_names m (Remove ob # ops) =
     (if m (ob_name ob) = Some ob then run_names (m(ob_name ob := None)) ops else None)"

lemma run_otable_names: "otable_wf t \<Longrightarrow> run_names (omap t) ops = Some rs \<Longrightarrow> run_otable t ops = rs"
proof (induction t ops arbitrary: rs rule: run_otable.induct)
  case (2 t ob ops)
  have "run_names (omap (enter_object_hash t ob)) ops = Some rs"
    using 2(3) enter_object_hash_wf[OF 2(2), of ob] by simp
  then show ?case using 2(1) enter_object_hash_wf[OF 2(2), of ob] by simp
next
  case (3 t s ops)
  obtain t' where f: "find_obj_n t s = (omap t s, t')" "otable_wf t'" "omap t' = omap t"
    using find_obj_n_wf[OF 3(2)] by metis
  obtain rs' where "run_names (omap t) ops = Some rs'" "rs = omap t s # rs'" using 3(3) by auto
  then show ?case using 3(1)[of "omap t s" t' rs'] f by (simp add: lookup_object_hash_def)
next
  case (4 t ob ops)
  then have "omap t (ob_name ob) = Some ob" by (simp split: if_splits)
  note rm = remove_object_hash_wf[OF 4(2) this]
  have "run_names (omap (remove_object_hash t ob)) ops = Some rs" using 4(3) rm by (simp split: if_splits)
  then have "run_otable (remove_object_hash t ob) ops = rs" using 4(1) rm by blast
  then show ?case by simp
qed simp

text \<open>C6. From \<open>init_otable\<close> on, every sequence of entries, lookups and removals (an object being removed only
  while it is the one its name finds) answers each lookup as a map from names to objects does, where the first
  object of a name stays: the chains, the hash and the reordering by lookups do not show.\<close>

theorem otable_run_correct:
  assumes "run_names Map.empty ops = Some rs"
  shows "run_otable (init_otable n) ops = rs"
  using run_otable_names[OF init_otable_wf(1)[of n]] assms by (simp add: init_otable_wf)

theorem otable_run_correct_witness:
  fixes a b :: obj
  defines "a \<equiv> \<lparr>ob_addr = 1, ob_name = [97]\<rparr>" and "b \<equiv> \<lparr>ob_addr = 2, ob_name = [97]\<rparr>"
  shows "run_otable (init_otable 0) [Enter a, Enter b, Lookup [97], Remove a, Enter b, Lookup [97], Lookup [98]] =
    [Some a, Some b, None]"
  by (rule otable_run_correct) (simp add: a_def b_def)

text \<open>C31. \<open>remove_object_hash\<close> does not check that the lookup found the object it was given: when the name
  finds another object (the second of two objects of one name, which \<open>enter_object_hash\<close> leaves out of the
  table), the whole chain is dropped, and every object of that chain with it.\<close>

theorem remove_duplicate_drops_chain:
  assumes "otable_wf t" and "omap t (ob_name ob) = Some other" and "ob \<noteq> other"
    and "obj_hash t s = obj_hash t (ob_name ob)"
  shows "fst (lookup_object_hash (remove_object_hash (enter_object_hash t ob) ob) s) = None"
proof -
  have e: "otable_wf (enter_object_hash t ob)" "omap (enter_object_hash t ob) = omap t"
    using enter_object_hash_wf[OF assms(1), of ob] assms(2) by simp_all
  obtain t1 where t1: "find_obj_n t (ob_name ob) = (omap t (ob_name ob), t1)"
      "length (obj_table t1) = length (obj_table t)"
    using find_obj_n_wf[OF assms(1)] by metis
  have e1: "enter_object_hash t ob = t1" using t1 assms(2) by (simp add: enter_object_hash_def)
  obtain t2 where t2: "find_obj_n t1 (ob_name ob) = (Some other, t2)" "otable_wf t2" "omap t2 = omap t"
      "length (obj_table t2) = length (obj_table t)"
    using find_obj_n_wf[OF e(1)] e1 e(2) assms(2) t1(2) by metis
  let ?h = "obj_hash t2 (ob_name ob)"
  have h: "?h < length (obj_table t2)" by (rule otable_wfD(1)[OF t2(2)])
  have "ob \<notin> ht_nodes (obj_table t2)"
    using ht_map_some[of _ ob_name "obj_table t2" "ob_name ob" ob] t2(2,3) assms(2,3) by (auto simp: otable_wf_def)
  then have "\<forall>x\<in>set (obj_table t2 ! ?h). x \<noteq> ob" using ht_nodes_chain[OF h] by blast
  then have "dropWhile (\<lambda>x. x \<noteq> ob) (obj_table t2 ! ?h) = []" by (simp only: dropWhile_eq_Nil_conv)
  then have "next_hash (obj_table t2 ! ?h) ob = []" by (simp only: next_hash_def list.sel)
  then have "obj_table (remove_object_hash t1 ob) ! ?h = []" "length (obj_table (remove_object_hash t1 ob)) = length (obj_table t)"
    using h t2 by (simp_all add: remove_object_hash_def Let_def)
  then show ?thesis using t2(4) assms(4) e1 by (simp add: lookup_object_hash_def find_obj_n_def Let_def)
qed

theorem remove_duplicate_drops_chain_witness:
  fixes a b c :: obj and t :: otable
  defines "a \<equiv> \<lparr>ob_addr = 1, ob_name = [97]\<rparr>" and "b \<equiv> \<lparr>ob_addr = 2, ob_name = [97]\<rparr>"
    and "c \<equiv> \<lparr>ob_addr = 3, ob_name = [98]\<rparr>"
  defines "t \<equiv> enter_object_hash (enter_object_hash (init_otable 0) a) c"
  shows "omap t [98] = Some c \<and> fst (lookup_object_hash (remove_object_hash (enter_object_hash t b) b) [98]) = None"
proof -
  have w1: "otable_wf (enter_object_hash (init_otable 0) a)" "omap (enter_object_hash (init_otable 0) a) = [[97] \<mapsto> a]"
    using enter_object_hash_wf[OF init_otable_wf(1)[of 0], of a] by (simp_all add: a_def init_otable_wf)
  have w: "otable_wf t" "omap t = [[97] \<mapsto> a, [98] \<mapsto> c]"
    using enter_object_hash_wf[OF w1(1), of c] by (simp_all add: w1 c_def t_def)
  have "length (obj_table t) = 1"
    by (simp add: t_def length_enter init_otable_def htable_round.simps)
  then have "obj_hash t [98] = obj_hash t (ob_name b)" by (simp add: ObjHash_def)
  then show ?thesis
    using remove_duplicate_drops_chain[OF w(1), of b a "[98]"] w(2) by (simp add: a_def b_def)
qed

end
