(* ===== verification/String_Ptr.thy ===== *)
theory String_Ptr
  imports Stralloc
begin

text \<open>
  The shared strings as their clients see them: a partial injection from contents to addresses, and what
  \<open>make_shared_string\<close>, \<open>ref_string\<close>, \<open>findstring\<close> and \<open>free_string\<close> do to it.
\<close>

text \<open>The address at which a string is interned.\<close>

definition str_ptr :: "strtab \<Rightarrow> bytes \<rightharpoonup> u64" where
  "str_ptr t s = map_option blk_ptr (smap t s)"

lemma str_ptr_inj: "strtab_wf t \<Longrightarrow> str_ptr t s = Some p \<Longrightarrow> str_ptr t s' = Some p \<Longrightarrow> s = s'"
  by (auto simp: str_ptr_def dest: smap_ptr_inj)

lemma str_ptr_ran: "strtab_wf t \<Longrightarrow> ran (str_ptr t) = blk_ptr ` ht_nodes (base_table t)"
  using smap_iff[of t] by (fastforce simp: str_ptr_def ran_def)

lemma ran_intern: "p = (case m s of None \<Rightarrow> f | Some q \<Rightarrow> q) \<Longrightarrow> ran (m(s \<mapsto> p)) = insert p (ran m)"
  by (cases "m s") (auto simp: map_upd_triv ranI)

lemma make_shared_ptr:
  assumes "strtab_wf t" "fresh \<notin> ran (str_ptr t)"
  obtains p t' where "make_shared_string t arg fresh = (p, t')" "strtab_wf t'"
    "str_ptr t' = (str_ptr t)(interned t arg \<mapsto> p)"
    "p = (case str_ptr t (interned t arg) of None \<Rightarrow> fresh | Some q \<Rightarrow> q)"
proof -
  have "fresh \<notin> blk_ptr ` ht_nodes (base_table t)" using assms by (simp add: str_ptr_ran)
  from make_shared_string_smap[OF assms(1) this, of arg] obtain b t' where b:
    "make_shared_string t arg fresh = (blk_ptr b, t')" "strtab_wf t'" "smap t' = (smap t)(interned t arg \<mapsto> b)"
    "case smap t (interned t arg) of
        None \<Rightarrow> b = \<lparr>blk_ptr = fresh, blk_size = of_nat (length (interned t arg)), blk_refs = 1, blk_str = interned t arg\<rparr>
      | Some b0 \<Rightarrow> b = inc_refs b0" by blast
  have "blk_ptr b = (case str_ptr t (interned t arg) of None \<Rightarrow> fresh | Some q \<Rightarrow> q)"
    using b(4) by (cases "smap t (interned t arg)") (simp_all add: str_ptr_def inc_refs_def)
  moreover have "str_ptr t' = (str_ptr t)(interned t arg \<mapsto> blk_ptr b)" using b(3) by (auto simp: str_ptr_def)
  ultimately show ?thesis using that b(1,2) by blast
qed

lemma make_free_ptr:
  assumes "strtab_wf t" "fresh \<notin> ran (str_ptr t)" "str_ptr t (interned t arg) = Some q"
    "make_shared_string t arg fresh = (p, t1)"
  obtains t2 where "free_string t1 p = Some t2" "strtab_wf t2" "str_ptr t2 = str_ptr t"
proof -
  let ?s = "interned t arg"
  have "fresh \<notin> blk_ptr ` ht_nodes (base_table t)" using assms by (simp add: str_ptr_ran)
  moreover obtain b0 where b0: "smap t ?s = Some b0" using assms(3) by (auto simp: str_ptr_def)
  ultimately have m: "p = blk_ptr (inc_refs b0)" "strtab_wf t1" "smap t1 = (smap t)(?s \<mapsto> inc_refs b0)"
    using make_shared_string_smap[OF assms(1), of fresh arg] assms(4) by auto
  have n1: "blk_refs (inc_refs b0) \<noteq> 1" by (simp add: inc_refs_def)
  obtain t2 where t2: "free_string t1 p = Some t2" "strtab_wf t2"
      "smap t2 = (if blk_refs (inc_refs b0) = 0 then smap t1
                  else (smap t1)(?s \<mapsto> inc_refs b0\<lparr>blk_refs := blk_refs (inc_refs b0) - 1\<rparr>))"
    using free_string_smap[OF m(2), of ?s "inc_refs b0"] m n1 by auto
  then have "str_ptr t2 = str_ptr t" using b0 m(3) by (auto simp: str_ptr_def inc_refs_def fun_eq_iff)
  then show ?thesis using that t2 by blast
qed

lemma free_ptr:
  assumes "strtab_wf t" "str_ptr t s = Some p"
  obtains t' where "free_string t p = Some t'" "strtab_wf t'" "\<And>x. x \<noteq> s \<Longrightarrow> str_ptr t' x = str_ptr t x"
    "\<And>q. str_ptr t' s = Some q \<Longrightarrow> q = p" "ran (str_ptr t') \<subseteq> ran (str_ptr t)"
proof -
  obtain b where b: "smap t s = Some b" "p = blk_ptr b" using assms(2) by (auto simp: str_ptr_def)
  obtain t' where t': "free_string t p = Some t'" "strtab_wf t'"
      "smap t' = (if blk_refs b = 0 then smap t else if blk_refs b = 1 then (smap t)(s := None)
                  else (smap t)(s \<mapsto> b\<lparr>blk_refs := blk_refs b - 1\<rparr>))"
    using free_string_smap[OF assms(1) b(1)] b(2) by blast
  have o: "str_ptr t' x = str_ptr t x" if "x \<noteq> s" for x using t'(3) b that by (simp add: str_ptr_def)
  have q: "q = p" if "str_ptr t' s = Some q" for q using t'(3) b that by (auto simp: str_ptr_def split: if_splits)
  have "ran (str_ptr t') \<subseteq> ran (str_ptr t)"
  proof
    fix q assume "q \<in> ran (str_ptr t')"
    then obtain x where "str_ptr t' x = Some q" by (auto simp: ran_def)
    then show "q \<in> ran (str_ptr t)" using o[of x] q assms(2) by (cases "x = s") (auto intro: ranI)
  qed
  then show ?thesis using that[OF t'(1,2)] o q by blast
qed

lemma free_string_limit:
  assumes "free_string t p = Some t'"
  shows "interned t' a = interned t a"
proof -
  have "max_string_length (upd_block u q f) = max_string_length u" "max_string_length (unlink_block u h q) = max_string_length u"
    for u q f h by (simp_all add: upd_block_def unlink_block_def split: option.split prod.split)
  then have "max_string_length t' = max_string_length t"
    using assms by (auto simp: free_string_def Let_def split: option.splits if_splits)
  then have h: "hard_limit t' = hard_limit t" by (simp add: hard_limit_def)
  show ?thesis unfolding interned_def h ..
qed

end
