(* ===== verification/Uids.thy ===== *)
theory Uids
  imports Avl_Tree String_Ptr
begin

text \<open>
  User ids (\<^verbatim>\<open>lib/efuns/uids.c\<close>): the \<open>userid_t\<close> records are kept in an AVL tree ordered by the address of
  their shared name.  A \<open>userid_t\<close> is its address, and its \<open>name\<close> field a store from addresses to string
  addresses, because \<open>set_root_uid\<close> changes the field of a record that other pointers share.  Address 0
  stands for the local variable \<open>t_uid\<close> of \<open>add_uid\<close>; the addresses that the allocators return are arguments.
\<close>

record uid_state =
  uids :: "u64 tree"
  uid_name :: "u64 \<Rightarrow> u64"
  root_uid :: "u64 option"
  backbone_uid :: "u64 option"
  uid_strs :: strtab

definition uidcmp :: "(u64 \<Rightarrow> u64) \<Rightarrow> u64 \<Rightarrow> u64 \<Rightarrow> int" where
  "uidcmp nm a b = (if nm a < nm b then -1 else if nm a > nm b then 1 else 0)"

definition init_uids :: "strtab \<Rightarrow> uid_state" where
  "init_uids t = \<lparr>uids = tree_init, uid_name = (\<lambda>_. 0), root_uid = None, backbone_uid = None, uid_strs = t\<rparr>"

definition add_uid :: "uid_state \<Rightarrow> bytes \<Rightarrow> u64 \<Rightarrow> u64 \<Rightarrow> (u64 \<times> uid_state) option" where
  "add_uid st name fresh_str fresh_uid =
     (let (sname, t1) = make_shared_string (uid_strs st) (Cstr name) fresh_str;
          nm = (uid_name st)(0 := sname)
      in case tree_srch (uids st) (uidcmp nm) 0 of
           Some uid \<Rightarrow> do { t2 \<leftarrow> free_string t1 sname; Some (uid, st\<lparr>uid_strs := t2\<rparr>) }
         | None \<Rightarrow>
             let nm' = (uid_name st)(fresh_uid := sname) in
             do { (tr, _) \<leftarrow> tree_add (uids st) (uidcmp nm') fresh_uid;
                  Some (fresh_uid, st\<lparr>uids := tr, uid_name := nm', uid_strs := t1\<rparr>) })"

text \<open>The common end of \<open>set_root_uid\<close> and \<open>set_backbone_uid\<close>: the record leaves the tree, changes its name
  and comes back.\<close>

definition rename_uid :: "uid_state \<Rightarrow> u64 \<Rightarrow> bytes \<Rightarrow> u64 \<Rightarrow> (u64 \<times> uid_state) option" where
  "rename_uid st uid name fresh_str =
     do { (tr, _, _) \<leftarrow> tree_delete (uids st) (uidcmp (uid_name st)) uid;
          t1 \<leftarrow> (if uid_name st uid \<noteq> 0 then free_string (uid_strs st) (uid_name st uid) else Some (uid_strs st));
          let (sname, t2) = make_shared_string t1 (Cstr name) fresh_str;
          let nm = (uid_name st)(uid := sname);
          (tr', _) \<leftarrow> tree_add tr (uidcmp nm) uid;
          Some (uid, st\<lparr>uids := tr', uid_name := nm, uid_strs := t2\<rparr>) }"

definition set_root_uid :: "uid_state \<Rightarrow> bytes \<Rightarrow> u64 \<Rightarrow> u64 \<Rightarrow> (u64 \<times> uid_state) option" where
  "set_root_uid st name fresh_str fresh_uid =
     (case root_uid st of
        None \<Rightarrow> map_option (\<lambda>(u, st'). (u, st'\<lparr>root_uid := Some u\<rparr>)) (add_uid st name fresh_str fresh_uid)
      | Some uid \<Rightarrow> rename_uid st uid name fresh_str)"

definition set_backbone_uid :: "uid_state \<Rightarrow> bytes \<Rightarrow> u64 \<Rightarrow> u64 \<Rightarrow> (u64 \<times> uid_state) option" where
  "set_backbone_uid st name fresh_str fresh_uid =
     (case backbone_uid st of
        None \<Rightarrow> map_option (\<lambda>(u, st'). (u, st'\<lparr>backbone_uid := Some u\<rparr>)) (add_uid st name fresh_str fresh_uid)
      | Some uid \<Rightarrow> rename_uid st uid name fresh_str)"

text \<open>\<open>uid_free\<close> on the payloads in the order in which \<open>tree_mung\<close> calls it.\<close>

definition uid_free :: "(u64 \<Rightarrow> u64) \<Rightarrow> strtab option \<Rightarrow> u64 \<Rightarrow> strtab option" where
  "uid_free nm t u = Option.bind t (\<lambda>t. free_string t (nm u))"

definition deinit_uids :: "uid_state \<Rightarrow> uid_state option" where
  "deinit_uids st =
     (case tree_mung (uids st) of
        (_, freed) \<Rightarrow> map_option (\<lambda>t. st\<lparr>uids := TNull, root_uid := None, backbone_uid := None, uid_strs := t\<rparr>)
                       (foldl (uid_free (uid_name st)) (Some (uid_strs st)) freed))"

section \<open>The comparison and the invariant\<close>

interpretation uid_order: comparator "uidcmp nm" nm for nm :: "u64 \<Rightarrow> u64"
  by unfold_locales (auto simp: uidcmp_def)

text \<open>Every record of the tree holds a live name, and no two hold the same one.\<close>

definition uids_wf :: "uid_state \<Rightarrow> bool" where
  "uids_wf st \<longleftrightarrow> strtab_wf (uid_strs st) \<and> tree_wf (uid_name st) (uids st) \<and> 0 \<notin> set (inorder (uids st)) \<and>
     0 \<notin> ran (str_ptr (uid_strs st)) \<and> uid_name st ` set (inorder (uids st)) \<subseteq> ran (str_ptr (uid_strs st))"

text \<open>The record of a name.\<close>

definition uid_at :: "uid_state \<Rightarrow> u64 \<Rightarrow> u64 option" where
  "uid_at st p = find (\<lambda>u. uid_name st u = p) (inorder (uids st))"

definition uid_of :: "uid_state \<Rightarrow> bytes \<rightharpoonup> u64" where
  "uid_of st s = Option.bind (str_ptr (uid_strs st) s) (uid_at st)"

lemma tree_wf_cong: "(\<forall>u\<in>set (inorder t). f u = g u) \<Longrightarrow> tree_wf f t = tree_wf g t"
  by (simp add: tree_wf_def cong: map_cong)

lemma find_cong_set: "(\<forall>x\<in>set xs. P x = Q x) \<Longrightarrow> find P xs = find Q xs"
  by (induction xs) auto

lemma uid_srch:
  assumes "uids_wf st"
  shows "tree_srch (uids st) (uidcmp ((uid_name st)(0 := p))) 0 = uid_at st p"
proof -
  let ?nm = "(uid_name st)(0 := p)"
  have e: "\<forall>u\<in>set (inorder (uids st)). ?nm u = uid_name st u" using assms by (auto simp: uids_wf_def)
  then have "tree_wf ?nm (uids st)" using tree_wf_cong[OF e] assms unfolding uids_wf_def by blast
  then have "tree_srch (uids st) (uidcmp ?nm) 0 = find (\<lambda>y. ?nm y = ?nm 0) (inorder (uids st))"
    by (intro uid_order.tree_srch_find) (simp add: tree_wf_def)
  also have "\<dots> = find (\<lambda>u. uid_name st u = p) (inorder (uids st))" using e by (intro find_cong_set) simp
  finally show ?thesis by (simp add: uid_at_def)
qed


section \<open>The operations on the map from names to records\<close>

lemma uid_at_strs [simp]: "uid_at (st\<lparr>uid_strs := t\<rparr>) = uid_at st"
  by (simp add: uid_at_def fun_eq_iff)

lemma uid_at_root [simp]: "uid_at (st\<lparr>root_uid := r\<rparr>) = uid_at st"
  by (simp add: uid_at_def fun_eq_iff)

lemma uid_at_some:
  assumes "tree_wf (uid_name st) (uids st)"
  shows "uid_at st p = Some u \<longleftrightarrow> u \<in> set (inorder (uids st)) \<and> uid_name st u = p"
proof -
  have "distinct (map (uid_name st) (inorder (uids st)))"
    using assms by (auto simp: tree_wf_def strict_sorted_iff)
  then show ?thesis unfolding uid_at_def by (rule find_some_iff)
qed

lemma add_uid_wf:
  fixes st :: uid_state and name :: bytes
  assumes "uids_wf st" "fs \<notin> ran (str_ptr (uid_strs st))" "fs \<noteq> 0" "fu \<notin> set (inorder (uids st))" "fu \<noteq> 0"
  defines "s \<equiv> interned (uid_strs st) (Cstr name)"
  defines "u \<equiv> case uid_of st s of Some u \<Rightarrow> u | None \<Rightarrow> fu"
  shows "\<exists>st'. add_uid st name fs fu = Some (u, st') \<and> uids_wf st' \<and> uid_of st' = (uid_of st)(s \<mapsto> u) \<and>
    ran (str_ptr (uid_strs st')) \<subseteq> insert fs (ran (str_ptr (uid_strs st))) \<and>
    set (inorder (uids st')) \<subseteq> insert fu (set (inorder (uids st)))"
proof -
  have wf: "strtab_wf (uid_strs st)" "tree_wf (uid_name st) (uids st)" using assms(1) by (auto simp: uids_wf_def)
  obtain p t1 where m: "make_shared_string (uid_strs st) (Cstr name) fs = (p, t1)" "strtab_wf t1"
      "str_ptr t1 = (str_ptr (uid_strs st))(s \<mapsto> p)"
      "p = (case str_ptr (uid_strs st) s of None \<Rightarrow> fs | Some q \<Rightarrow> q)"
    using make_shared_ptr[OF wf(1) assms(2), of "Cstr name"] unfolding s_def by metis
  show ?thesis
  proof (cases "uid_at st p")
    case (Some u')
    then have "p \<in> ran (str_ptr (uid_strs st))" using assms(1) uid_at_some[OF wf(2)] by (auto simp: uids_wf_def)
    then obtain q where q: "str_ptr (uid_strs st) s = Some q" using assms(2) m(4) by (cases "str_ptr (uid_strs st) s") auto
    then obtain t2 where t2: "free_string t1 p = Some t2" "strtab_wf t2" "str_ptr t2 = str_ptr (uid_strs st)"
      using make_free_ptr[OF wf(1) assms(2) _ m(1)] unfolding s_def by metis
    have "uid_of st s = Some u'" using q m(4) Some by (simp add: uid_of_def)
    moreover have "uids_wf (st\<lparr>uid_strs := t2\<rparr>)" using assms(1) t2 by (simp add: uids_wf_def)
    moreover have "uid_of (st\<lparr>uid_strs := t2\<rparr>) = uid_of st" using t2(3) by (simp add: uid_of_def fun_eq_iff)
    ultimately show ?thesis
      using m(1) t2(1,3) Some uid_srch[OF assms(1)] by (auto simp: add_uid_def u_def map_upd_triv)
  next
    case None
    let ?nm = "(uid_name st)(fu := p)"
    have e: "\<forall>x\<in>set (inorder (uids st)). ?nm x = uid_name st x" using assms(4) by auto
    have w: "tree_wf ?nm (uids st)" using tree_wf_cong[OF e] wf(2) by blast
    obtain tr fr where tr: "tree_add (uids st) (uidcmp ?nm) fu = Some (tr, fr)" "tree_wf ?nm tr"
        "inorder tr = ins_list ?nm fu (inorder (uids st))"
      using uid_order.tree_add_wf[OF w] by blast
    let ?st = "st\<lparr>uids := tr, uid_name := ?nm, uid_strs := t1\<rparr>"
    have at: "uid_at ?st k = (if p = k then Some fu else uid_at st k)" for k
      using find_ins_list[of ?nm "inorder (uids st)" k fu] w find_cong_set[of "inorder (uids st)"] e
      by (simp add: uid_at_def tr(3) tree_wf_def)
    have "uid_of st s = None" using None m(4) by (cases "str_ptr (uid_strs st) s") (simp_all add: uid_of_def)
    then have u: "u = fu" by (simp add: u_def)
    have "p \<noteq> q" if "str_ptr (uid_strs st) x = Some q" "x \<noteq> s" for x q
      using str_ptr_inj[OF m(2), of s p x] m(3) that by auto
    then have "uid_of ?st = (uid_of st)(s \<mapsto> fu)"
      using m(3) at by (auto simp: uid_of_def fun_eq_iff split: bind_split)
    moreover have sub: "set (inorder tr) \<subseteq> insert fu (set (inorder (uids st)))" unfolding tr(3) by (rule set_ins_list)
    moreover have r: "ran (str_ptr t1) = insert p (ran (str_ptr (uid_strs st)))"
      using ran_intern[where m = "str_ptr (uid_strs st)" and s = s and f = fs] m(3,4) by simp
    moreover have pr: "p = fs \<or> p \<in> ran (str_ptr (uid_strs st))"
      using m(4) by (auto simp: ran_def split: option.splits)
    moreover have "?nm ` set (inorder tr) \<subseteq> ran (str_ptr t1)" using sub r assms(1) by (auto simp: uids_wf_def)
    then have "uids_wf ?st" using sub r pr assms(1,3,5) m(2) tr(2) by (auto simp: uids_wf_def)
    ultimately show ?thesis using m(1) tr(1) None uid_srch[OF assms(1)] u by (auto simp: add_uid_def)
  qed
qed

lemma uid_of_some:
  assumes "uids_wf st"
  shows "uid_of st x = Some u \<longleftrightarrow> u \<in> set (inorder (uids st)) \<and> str_ptr (uid_strs st) x = Some (uid_name st u)"
  using assms uid_at_some[of st] by (auto simp: uid_of_def uids_wf_def bind_eq_Some_conv)

lemma rename_uid_wf:
  fixes st :: uid_state and name :: bytes
  assumes "uids_wf st" "uid \<in> set (inorder (uids st))" "free_string (uid_strs st) (uid_name st uid) = Some t1"
    "fs \<notin> ran (str_ptr t1)" "fs \<noteq> 0"
  defines "s \<equiv> interned (uid_strs st) (Cstr name)"
  shows "\<exists>st'. rename_uid st uid name fs = Some (uid, st') \<and> uids_wf st' \<and>
    uid_of st' = (\<lambda>x. if x = s then Some uid else if uid_of st x = Some uid then None else uid_of st x)"
proof -
  let ?old = "uid_name st" and ?str = "str_ptr (uid_strs st)"
  have wf: "strtab_wf (uid_strs st)" "tree_wf ?old (uids st)" using assms(1) by (auto simp: uids_wf_def)
  obtain s0 where s0: "?str s0 = Some (?old uid)" using assms(1,2) by (fastforce simp: uids_wf_def ran_def)
  have t1: "strtab_wf t1" "\<And>x. x \<noteq> s0 \<Longrightarrow> str_ptr t1 x = ?str x" "\<And>q. str_ptr t1 s0 = Some q \<Longrightarrow> q = ?old uid"
    using free_ptr[OF wf(1) s0] assms(3) by (metis option.inject)+
  have "interned t1 (Cstr name) = s" using free_string_limit[OF assms(3)] by (simp add: s_def)
  then obtain p t2 where m: "make_shared_string t1 (Cstr name) fs = (p, t2)" "strtab_wf t2"
      "str_ptr t2 = (str_ptr t1)(s \<mapsto> p)" "p = (case str_ptr t1 s of None \<Rightarrow> fs | Some q \<Rightarrow> q)"
    using make_shared_ptr[OF t1(1) assms(4), of "Cstr name"] by metis
  obtain tr r d where tr: "tree_delete (uids st) (uidcmp ?old) uid = Some (tr, r, d)" "tree_wf ?old tr"
      "inorder tr = del_list ?old uid (inorder (uids st))"
    using uid_order.tree_delete_wf[OF wf(2), of uid] by blast
  let ?nm = "?old(uid := p)"
  have e: "\<forall>x\<in>set (inorder tr). ?nm x = ?old x" by (simp add: tr(3) del_list_def)
  have w: "tree_wf ?nm tr" using tree_wf_cong[of tr ?nm ?old] e tr(2) by blast
  obtain tr' d' where tr': "tree_add tr (uidcmp ?nm) uid = Some (tr', d')" "tree_wf ?nm tr'"
      "inorder tr' = ins_list ?nm uid (inorder tr)"
    using uid_order.tree_add_wf[OF w] by blast
  let ?st = "st\<lparr>uids := tr', uid_name := ?nm, uid_strs := t2\<rparr>"
  have "find (\<lambda>y. ?nm y = k) (inorder tr) = (if ?old uid = k then None else uid_at st k)" for k
    using find_cong_set[of "inorder tr" "\<lambda>y. ?nm y = k" "\<lambda>y. ?old y = k"] e tr(3) find_del_list[of ?old k uid]
    by (simp add: uid_at_def)
  then have at: "uid_at ?st k = (if p = k then Some uid else if ?old uid = k then None else uid_at st k)" for k
    using find_ins_list[of ?nm "inorder tr" k uid] w by (simp add: uid_at_def tr'(3) tree_wf_def)
  have "uid_of ?st x = (if x = s then Some uid else if uid_of st x = Some uid then None else uid_of st x)" for x
  proof (cases "x = s")
    case True
    then show ?thesis using m(3) at by (simp add: uid_of_def)
  next
    case False
    have np: "k \<noteq> p" if "str_ptr t1 x = Some k" for k using str_ptr_inj[OF m(2), of s p x] m(3) that False by auto
    show ?thesis
    proof (cases "x = s0")
      case True
      then show ?thesis using False m(3) at t1(3) np s0 uid_of_some[OF assms(1), of x uid] assms(2)
        by (cases "str_ptr t1 x") (auto simp: uid_of_def)
    next
      case nx: False
      have "uid_of st x \<noteq> Some uid"
        using uid_of_some[OF assms(1), of x uid] str_ptr_inj[OF wf(1) s0, of x] nx by auto
      moreover have "k \<noteq> ?old uid" if "?str x = Some k" for k using str_ptr_inj[OF wf(1) s0, of x] nx that by auto
      ultimately show ?thesis using False m(3) at t1(2)[OF nx] np by (cases "?str x") (auto simp: uid_of_def)
    qed
  qed
  moreover have "uids_wf ?st"
  proof -
    have sub: "set (inorder tr') \<subseteq> insert uid (set (inorder tr))" unfolding tr'(3) by (rule set_ins_list)
    have r2: "ran (str_ptr t2) = insert p (ran (str_ptr t1))"
      using ran_intern[where m = "str_ptr t1" and s = s and f = fs] m(3,4) by simp
    have r1: "k \<in> ran (str_ptr t1)" if "k \<in> ran ?str" "k \<noteq> ?old uid" for k
      using that t1(2) s0 by (auto simp: ran_def) (metis option.inject)
    have "ran (str_ptr t1) \<subseteq> ran ?str" using t1(2,3) s0 by (auto simp: ran_def) metis
    then have "0 \<notin> ran (str_ptr t2)" using r2 m(4) assms(1,5) by (auto simp: uids_wf_def ran_def split: option.splits)
    moreover have "?nm x \<in> ran (str_ptr t2)" if "x \<in> set (inorder tr')" for x
    proof (cases "x = uid")
      case False
      then have "x \<in> set (inorder (uids st))" "?old x \<noteq> ?old uid" using sub that by (auto simp: tr(3) del_list_def)
      then show ?thesis using False r1[of "?old x"] r2 assms(1) by (auto simp: uids_wf_def)
    qed (simp add: r2)
    then have "?nm ` set (inorder tr') \<subseteq> ran (str_ptr t2)" by (rule image_subsetI)
    ultimately show ?thesis using sub assms(1,2) m(2) tr'(2) by (auto simp: uids_wf_def tr(3) del_list_def)
  qed
  moreover have "?old uid \<noteq> 0" using s0 assms(1) by (auto simp: uids_wf_def ran_def)
  then have "rename_uid st uid name fs = Some (uid, ?st)" using tr(1) tr'(1) assms(3) m(1) by (simp add: rename_uid_def)
  ultimately show ?thesis by blast
qed

section \<open>Properties\<close>

text \<open>Two calls of \<open>add_uid\<close>, with any names, give the same \<open>userid_t\<close> exactly when the names are the same
  (cut at the length limit of shared strings): the tree search by address, the interning of the names and the
  release of the surplus reference fit together, and neither call follows a dangling name.\<close>

theorem add_uid_identity:
  assumes "uids_wf st" and "fs1 \<notin> ran (str_ptr (uid_strs st))" and "fs1 \<noteq> 0"
    and "fu1 \<notin> set (inorder (uids st))" and "fu1 \<noteq> 0"
    and "add_uid st n1 fs1 fu1 = Some (u1, st1)"
    and "fs2 \<notin> ran (str_ptr (uid_strs st1))" and "fs2 \<noteq> 0" and "fu2 \<notin> set (inorder (uids st1))" and "fu2 \<noteq> 0"
  shows "\<exists>u2 st2. add_uid st1 n2 fs2 fu2 = Some (u2, st2) \<and> uids_wf st2 \<and>
    (u1 = u2 \<longleftrightarrow> interned (uid_strs st) (Cstr n1) = interned (uid_strs st1) (Cstr n2))"
proof -
  let ?s1 = "interned (uid_strs st) (Cstr n1)" and ?s2 = "interned (uid_strs st1) (Cstr n2)"
  have w1: "uids_wf st1" "uid_of st1 ?s1 = Some u1" using add_uid_wf[OF assms(1-5), of n1] assms(6) by auto
  obtain u2 st2 where a: "add_uid st1 n2 fs2 fu2 = Some (u2, st2)" "uids_wf st2" "uid_of st2 = (uid_of st1)(?s2 \<mapsto> u2)"
      "u2 = (case uid_of st1 ?s2 of Some u \<Rightarrow> u | None \<Rightarrow> fu2)"
    using add_uid_wf[OF w1(1) assms(7-10), of n2] by auto
  have "?s1 = ?s2" if "u1 = u2"
  proof (rule ccontr)
    assume "?s1 \<noteq> ?s2"
    then have "uid_of st2 ?s1 = Some u1" "uid_of st2 ?s2 = Some u1" using a(3) w1(2) that by simp_all
    then show False
      using uid_of_some[OF a(2)] str_ptr_inj[of "uid_strs st2" ?s1 "uid_name st2 u1" ?s2] a(2) \<open>?s1 \<noteq> ?s2\<close>
      by (auto simp: uids_wf_def)
  qed
  moreover have "u1 = u2" if "?s1 = ?s2" using a(4) w1(2) that by simp
  ultimately show ?thesis using a(1,2) by blast
qed

lemma init_uids_wf: "uids_wf (init_uids (init_strings n m))"
  using str_ptr_ran[OF init_strings_wf(1), of n m]
  by (simp add: uids_wf_def init_uids_def init_strings_wf tree_init_def tree_wf_def)

lemma init_uids_strs: "ran (str_ptr (uid_strs (init_uids (init_strings n m)))) = {}"
  using str_ptr_ran[OF init_strings_wf(1), of n m] by (simp add: init_uids_def init_strings_wf)

lemma init_uids_tree: "uids (init_uids t) = TNull"
  by (simp add: init_uids_def tree_init_def)

text \<open>The first call on the empty tree.\<close>

lemma add_uid_first:
  fixes name :: bytes and n m :: nat
  assumes "fs \<noteq> 0" "fu \<noteq> 0"
  defines "st \<equiv> init_uids (init_strings n m)"
  obtains st1 where "add_uid st name fs fu = Some (fu, st1)" "uids_wf st1"
    "uid_of st1 = [interned (uid_strs st) (Cstr name) \<mapsto> fu]"
    "ran (str_ptr (uid_strs st1)) \<subseteq> {fs}" "set (inorder (uids st1)) \<subseteq> {fu}"
proof -
  have z: "uid_of st = Map.empty"
    by (simp add: fun_eq_iff uid_of_def uid_at_def st_def init_uids_tree bind_eq_None_conv split: bind_split)
  show ?thesis
    using add_uid_wf[OF init_uids_wf[of n m], of fs fu name] assms(1,2) that
    by (simp add: st_def[symmetric] z init_uids_strs[of n m, folded st_def] init_uids_tree[of "init_strings n m", folded st_def]) blast
qed

theorem add_uid_identity_witness:
  "\<exists>u1 st1 u2 st2. add_uid (init_uids (init_strings 4 100)) [97] 8 1 = Some (u1, st1) \<and>
     add_uid st1 [98] 16 2 = Some (u2, st2) \<and> u1 \<noteq> u2"
proof -
  let ?st = "init_uids (init_strings 4 100)"
  obtain st1 where a: "add_uid ?st [97] 8 1 = Some (1, st1)" "uids_wf st1"
      "ran (str_ptr (uid_strs st1)) \<subseteq> {8}" "set (inorder (uids st1)) \<subseteq> {1}"
    by (rule add_uid_first[of 8 1 4 100 "[97]"]) simp_all
  have i: "interned (uid_strs ?st) (Cstr [97]) = [97]"
    by (simp add: init_uids_def interned_def init_strings_wf hard_limit_def USHRT_MAX_def)
  have j: "interned (uid_strs st1) (Cstr [98]) \<noteq> [97]" by (simp add: interned_def Let_def take_Cons')
  have f: "(16::u64) \<notin> ran (str_ptr (uid_strs st1))" "(2::u64) \<notin> set (inorder (uids st1))" using a(3,4) by auto
  have "\<exists>u2 st2. add_uid st1 [98] 16 2 = Some (u2, st2) \<and> uids_wf st2 \<and>
      (1 = u2 \<longleftrightarrow> interned (uid_strs ?st) (Cstr [97]) = interned (uid_strs st1) (Cstr [98]))"
    by (rule add_uid_identity[OF init_uids_wf _ _ _ _ a(1) f(1) _ f(2)]) (simp_all add: init_uids_strs init_uids_tree)
  then show ?thesis using a(1) i j by auto
qed

text \<open>C32. Renaming the root uid moves one record: after \<open>set_root_uid\<close> with a root already set, the new name
  finds the root record, its old name finds nothing and every other name finds what it found before, the record
  that held the new name, if any, being dropped from the tree.\<close>

theorem set_root_uid_renames:
  assumes "uids_wf st" and "root_uid st = Some uid" and "uid \<in> set (inorder (uids st))"
    and "free_string (uid_strs st) (uid_name st uid) = Some t1" and "fs \<notin> ran (str_ptr t1)" and "fs \<noteq> 0"
  shows "\<exists>st'. set_root_uid st name fs fu = Some (uid, st') \<and> uids_wf st' \<and>
    uid_of st' = (\<lambda>x. if x = interned (uid_strs st) (Cstr name) then Some uid
                      else if uid_of st x = Some uid then None else uid_of st x)"
  using rename_uid_wf[OF assms(1,3-6), of name] assms(2) by (simp add: set_root_uid_def)


theorem set_root_uid_renames_witness:
  "\<exists>st st'. set_root_uid (init_uids (init_strings 4 100)) [97] 8 1 = Some (1, st) \<and>
     set_root_uid st [98] 16 2 = Some (1, st') \<and> uid_of st' [97] = None"
proof -
  let ?st = "init_uids (init_strings 4 100)"
  obtain st1 where a: "add_uid ?st [97] 8 1 = Some (1, st1)" "uids_wf st1"
      "uid_of st1 = [interned (uid_strs ?st) (Cstr [97]) \<mapsto> 1]" "ran (str_ptr (uid_strs st1)) \<subseteq> {8}"
    by (rule add_uid_first[of 8 1 4 100 "[97]"]) simp_all
  have i: "interned (uid_strs ?st) (Cstr [97]) = [97]"
    by (simp add: init_uids_def interned_def init_strings_wf hard_limit_def USHRT_MAX_def)
  have j: "interned (uid_strs st1) (Cstr [98]) \<noteq> [97]" by (simp add: interned_def Let_def take_Cons')
  let ?st1 = "st1\<lparr>root_uid := Some 1\<rparr>"
  have r: "set_root_uid ?st [97] 8 1 = Some (1, ?st1)" using a(1) by (simp add: set_root_uid_def init_uids_def)
  have w: "uids_wf ?st1" using a(2) by (simp add: uids_wf_def)
  have u: "uid_of ?st1 = uid_of st1" by (simp add: uid_of_def fun_eq_iff)
  have l: "1 \<in> set (inorder (uids st1))" "str_ptr (uid_strs st1) [97] = Some (uid_name st1 1)"
    using uid_of_some[OF a(2), of "[97]" 1] a(3) i by simp_all
  then obtain t1 where t1: "free_string (uid_strs st1) (uid_name st1 1) = Some t1" "ran (str_ptr t1) \<subseteq> ran (str_ptr (uid_strs st1))"
    using free_ptr[of "uid_strs st1" "[97]" "uid_name st1 1"] a(2) by (metis uids_wf_def)
  have "(16::u64) \<notin> ran (str_ptr t1)" using t1(2) a(4) by auto
  then obtain st' where "set_root_uid ?st1 [98] 16 2 = Some (1, st')"
      "uid_of st' = (\<lambda>x. if x = interned (uid_strs st1) (Cstr [98]) then Some 1
                         else if uid_of st1 x = Some 1 then None else uid_of st1 x)"
    using set_root_uid_renames[OF w, of 1 t1 16 "[98]" 2] l(1) t1(1) unfolding u by auto
  then have "set_root_uid ?st1 [98] 16 2 = Some (1, st')" "uid_of st' [97] = None" using a(3) i j by auto
  then show ?thesis using r by blast
qed

end
