(* ===== verification/Svalue.thy ===== *)
theory Svalue
  imports Prelude
begin

text \<open>
  The tagged values of the interpreter (\<^verbatim>\<open>lib/lpc/types.h\<close>): a type flag, a subtype and a 64-bit union, here
  the bits of the number, of the double or of the pointer.
\<close>

record svalue =
  sv_type :: u16
  sv_subtype :: u16
  sv_bits :: u64

definition T_NUMBER :: u16 where "T_NUMBER = 0x2"
definition T_STRING :: u16 where "T_STRING = 0x4"
definition T_ARRAY :: u16 where "T_ARRAY = 0x8"
definition T_OBJECT :: u16 where "T_OBJECT = 0x10"
definition T_REAL :: u16 where "T_REAL = 0x80"
definition T_UNDEFINED :: u16 where "T_UNDEFINED = 0x4"
definition STRING_SHARED :: u16 where "STRING_SHARED = 0x3"
definition STRING_CONSTANT :: u16 where "STRING_CONSTANT = 0"

definition const0u :: svalue where
  "const0u = \<lparr>sv_type = T_NUMBER, sv_subtype = T_UNDEFINED, sv_bits = 0\<rparr>"

definition sv_number :: "int \<Rightarrow> svalue" where
  "sv_number n = \<lparr>sv_type = T_NUMBER, sv_subtype = 0, sv_bits = word_of_int n\<rparr>"

text \<open>The operator \<open>==\<close> on doubles: NaN equals nothing, the two zeros are equal.\<close>

definition double_nan :: "u64 \<Rightarrow> bool" where
  "double_nan x \<longleftrightarrow> take_bit 63 x > 0x7FF0000000000000"

definition double_eq :: "u64 \<Rightarrow> u64 \<Rightarrow> bool" where
  "double_eq x y \<longleftrightarrow> \<not> double_nan x \<and> \<not> double_nan y \<and> (x = y \<or> take_bit 63 x = 0 \<and> take_bit 63 y = 0)"

text \<open>Key equality of mappings.\<close>

definition msameval :: "svalue \<Rightarrow> svalue \<Rightarrow> bool" where
  "msameval a b =
     (let t = sv_type a OR sv_type b in
      if t = T_NUMBER then sv_bits a = sv_bits b
      else if t = T_REAL then double_eq (sv_bits a) (sv_bits b)
      else sv_bits a = sv_bits b)"

lemma T_REAL_bits: "bit T_REAL n \<longleftrightarrow> n = 7"
proof -
  have w: "T_REAL = push_bit 7 1" by (simp add: T_REAL_def)
  show ?thesis by (simp only: w bit_push_bit_iff bit_1_iff) (auto simp: possible_bit_def)
qed

lemma or_eq_T_REAL:
  assumes "a OR b = T_REAL"
  shows "a = T_REAL \<or> b = T_REAL"
proof -
  have "bit a 7 \<or> bit b 7" using T_REAL_bits[of 7] assms by (metis bit_or_iff)
  moreover have "bit a n \<Longrightarrow> n = 7" "bit b n \<Longrightarrow> n = 7" for n using T_REAL_bits[of n] assms by (metis bit_or_iff)+
  ultimately show ?thesis using T_REAL_bits by (metis bit_word_eqI)
qed

text \<open>Outside the doubles, key equality is equality of the bits: the types do not take part.\<close>

lemma msameval_bits:
  "sv_type a \<noteq> T_REAL \<Longrightarrow> sv_type b \<noteq> T_REAL \<Longrightarrow> msameval a b \<longleftrightarrow> sv_bits a = sv_bits b"
  using or_eq_T_REAL by (auto simp: msameval_def Let_def)

end
