(* ===== verification/Lpc_Mapping.thy ===== *)
theory Lpc_Mapping
  imports Hash_Table Svalue
begin

text \<open>
  LPC mappings (\<^verbatim>\<open>lib/lpc/mapping.c\<close>): a hash table of chains that doubles when its buckets fill up.  A node
  is its key and its value; an address of a value in a node (the result of \<open>find_for_insert\<close>) is the key of
  the node.  The limit \<open>__MAX_MAPPING_SIZE__\<close> and whether \<open>RESIZE\<close> succeeds are arguments; an error carries
  the mapping as it is when the error is raised.  A string key has been replaced by its shared copy, as
  \<open>svalue_to_int\<close> does before it hashes.  Reference counts of the values and the size statistics are left out.
\<close>

section \<open>The table\<close>

record mnode =
  nd_key :: svalue
  nd_val :: svalue

record mapping =
  mp_table :: "mnode list list"
  mp_table_size :: u16
  mp_unfilled :: u16
  mp_count :: int

datatype map_error = OutOfMemory | TooLarge

definition MAX_TABLE_SIZE :: nat where "MAX_TABLE_SIZE = 32768"
definition MAP_HASH_TABLE_SIZE :: nat where "MAP_HASH_TABLE_SIZE = 8"
definition FILL_PERCENT :: nat where "FILL_PERCENT = 80"

definition MAP_POINTER_HASH :: "u64 \<Rightarrow> u64" where
  "MAP_POINTER_HASH x = signed_drop_bit 4 x"

definition sv_hash :: "svalue \<Rightarrow> u32" where
  "sv_hash v = ucast (MAP_POINTER_HASH (sv_bits v))"

definition node_hash :: "mnode \<Rightarrow> u32" where
  "node_hash mn = sv_hash (nd_key mn)"

text \<open>The index of the bucket, \<open>svalue_to_int (lv) & m->table_size\<close>.\<close>

definition bucket :: "mapping \<Rightarrow> svalue \<Rightarrow> nat" where
  "bucket m v = unat (sv_hash v AND ucast (mp_table_size m))"

section \<open>Growing\<close>

text \<open>One chain of the old half: the nodes with the new hash bit go to the head of the new bucket.\<close>

fun grow_chain :: "u32 \<Rightarrow> mnode list \<Rightarrow> mnode list \<Rightarrow> u16 \<Rightarrow> mnode list \<times> mnode list \<times> u16" where
  "grow_chain oldsize [] b unfilled = ([], b, unfilled)"
| "grow_chain oldsize (elt # rest) b unfilled =
     (if node_hash elt AND oldsize \<noteq> 0
      then grow_chain oldsize rest (elt # b) (if b = [] then unfilled - 1 else unfilled)
      else case grow_chain oldsize rest b unfilled of (a', b', u) \<Rightarrow> (elt # a', b', u))"

text \<open>The loop over the old half, from its last bucket down.\<close>

fun grow_loop :: "u32 \<Rightarrow> mnode list list \<Rightarrow> u16 \<Rightarrow> mnode list list \<times> mnode list list \<times> u16" where
  "grow_loop oldsize [] unfilled = ([], [], unfilled)"
| "grow_loop oldsize (a # as) unfilled =
     (case grow_loop oldsize as unfilled of
        (as', bs', u) \<Rightarrow>
          if a = [] then ([] # as', [] # bs', u)
          else case grow_chain oldsize a [] u of
                 (a', b', u') \<Rightarrow> (a' # as', b' # bs', if a' = [] then u' + 1 else u'))"

definition growMap :: "bool \<Rightarrow> mapping \<Rightarrow> mapping option" where
  "growMap resized m =
     (let oldsize = unat (mp_table_size m) + 1; newsize = oldsize * 2 in
      if newsize > MAX_TABLE_SIZE \<or> \<not> resized then None
      else case grow_loop (of_nat oldsize) (mp_table m) (of_nat (oldsize * FILL_PERCENT div 100)) of
             (as, bs, u) \<Rightarrow> Some (m\<lparr>mp_table := as @ bs, mp_table_size := of_nat newsize - 1, mp_unfilled := u\<rparr>))"

section \<open>Creation and copying\<close>

definition smear :: "nat \<Rightarrow> nat" where
  "smear n =
     (let n1 = n OR drop_bit 1 n; n2 = n1 OR drop_bit 2 n1; n4 = n2 OR drop_bit 4 n2
      in if n4 AND 0xff00 \<noteq> 0 then n4 OR drop_bit 8 n4 else n4)"

definition allocate_mapping :: "nat \<Rightarrow> nat \<Rightarrow> mapping" where
  "allocate_mapping max_size n0 =
     (let n = (if n0 > max_size then max_size else n0);
          size = (if n > MAP_HASH_TABLE_SIZE then smear n + 1 else MAP_HASH_TABLE_SIZE)
      in \<lparr>mp_table = replicate size [], mp_table_size = of_nat (size - 1),
          mp_unfilled = of_nat (size * FILL_PERCENT div 100), mp_count = 0\<rparr>)"

definition copyMapping :: "mapping \<Rightarrow> mapping" where
  "copyMapping m = m\<lparr>mp_table := map (foldl (\<lambda>a elt. elt # a) []) (mp_table m)\<rparr>"

section \<open>Lookup and deletion\<close>

definition node_find_in_mapping :: "mapping \<Rightarrow> svalue \<Rightarrow> mnode option" where
  "node_find_in_mapping m lv = find (\<lambda>elt. msameval (nd_key elt) lv) (mp_table m ! bucket m lv)"

definition find_in_mapping :: "mapping \<Rightarrow> svalue \<Rightarrow> svalue" where
  "find_in_mapping m lv =
     (case find (\<lambda>n. msameval (nd_key n) lv) (mp_table m ! bucket m lv) of
        Some n \<Rightarrow> nd_val n
      | None \<Rightarrow> const0u)"

definition mapping_delete :: "mapping \<Rightarrow> svalue \<Rightarrow> mapping" where
  "mapping_delete m lv =
     (let i = bucket m lv in
      case chain_take (\<lambda>elt. msameval (nd_key elt) lv) (mp_table m ! i) of
        None \<Rightarrow> m
      | Some (_, rest) \<Rightarrow>
          m\<lparr>mp_table := (mp_table m)[i := rest],
            mp_unfilled := (if rest = [] then mp_unfilled m + 1 else mp_unfilled m),
            mp_count := mp_count m - 1\<rparr>)"

section \<open>Insertion\<close>

text \<open>
  What the insertions share once the key is known to be absent: an empty bucket uses up one of the unfilled
  ones and may double the table; the number of nodes is checked against the limit; the node becomes the head
  of its bucket.
\<close>

definition claim_bucket :: "bool \<Rightarrow> mapping \<Rightarrow> svalue \<Rightarrow> map_error \<times> mapping + nat \<times> mapping" where
  "claim_bucket resized m key =
     (let i = bucket m key in
      if mp_table m ! i \<noteq> [] then Inr (i, m)
      else let m1 = m\<lparr>mp_unfilled := mp_unfilled m - 1\<rparr> in
        if mp_unfilled m1 \<noteq> 0 then Inr (i, m1)
        else let size = unat (mp_table_size m1) + 1 in
          case growMap resized m1 of
            Some m2 \<Rightarrow> Inr (if sv_hash key AND of_nat size \<noteq> 0 then i OR size else i, m2)
          | None \<Rightarrow> Inl (OutOfMemory, m1))"

definition insert_node :: "nat \<Rightarrow> bool \<Rightarrow> mapping \<Rightarrow> int \<Rightarrow> mnode \<Rightarrow> map_error \<times> mapping + mapping" where
  "insert_node max_size resized m cnt nd =
     (case claim_bucket resized m (nd_key nd) of
        Inl e \<Rightarrow> Inl e
      | Inr (i, m') \<Rightarrow>
          if cnt + 1 > int max_size then Inl (TooLarge, m')
          else Inr (m'\<lparr>mp_table := (mp_table m')[i := nd # mp_table m' ! i]\<rparr>))"

definition find_for_insert :: "nat \<Rightarrow> bool \<Rightarrow> mapping \<Rightarrow> svalue \<Rightarrow> map_error \<times> mapping + svalue \<times> mapping" where
  "find_for_insert max_size resized m lv =
     (case find (\<lambda>n. msameval lv (nd_key n)) (mp_table m ! bucket m lv) of
        Some n \<Rightarrow> Inr (nd_key n, m)
      | None \<Rightarrow>
          (case insert_node max_size resized m (mp_count m) \<lparr>nd_key = lv, nd_val = const0u\<rparr> of
             Inl e \<Rightarrow> Inl e
           | Inr m' \<Rightarrow> Inr (lv, m'\<lparr>mp_count := mp_count m + 1\<rparr>)))"

text \<open>The assignment through the address that \<open>find_for_insert\<close> returned.\<close>

definition set_value :: "mapping \<Rightarrow> svalue \<Rightarrow> svalue \<Rightarrow> mapping" where
  "set_value m key v =
     (let i = bucket m key
      in m\<lparr>mp_table := (mp_table m)[i := map (\<lambda>n. if msameval key (nd_key n) then n\<lparr>nd_val := v\<rparr> else n)
                                           (mp_table m ! i)]\<rparr>)"

section \<open>Traversal\<close>

text \<open>The order in which all loops over a mapping see its nodes.\<close>

definition nodes_of :: "mapping \<Rightarrow> mnode list" where
  "nodes_of m = concat (rev (mp_table m))"

text \<open>The nodes on which \<open>mapTraverse\<close> calls the function: up to the first that returns non-zero.\<close>

fun mapTraverse :: "(mnode \<Rightarrow> bool) \<Rightarrow> mnode list \<Rightarrow> mnode list" where
  "mapTraverse func [] = []"
| "mapTraverse func (elt # rest) = (if func elt then [elt] else elt # mapTraverse func rest)"

definition mapping_indices :: "mapping \<Rightarrow> svalue list" where
  "mapping_indices m = map nd_key (nodes_of m)"

definition mapping_values :: "mapping \<Rightarrow> svalue list" where
  "mapping_values m = map nd_val (nodes_of m)"

section \<open>Adding\<close>

text \<open>The loops of \<open>add_to_mapping\<close> and \<open>unique_add_to_mapping\<close>; the count of the result is kept apart until
  the end, and on an error the nodes entered so far are counted.\<close>

fun add_loop :: "bool \<Rightarrow> nat \<Rightarrow> bool \<Rightarrow> mapping \<Rightarrow> int \<Rightarrow> mnode list \<Rightarrow> map_error \<times> mapping + mapping" where
  "add_loop overwrite max_size resized m cnt [] = Inr (m\<lparr>mp_count := cnt\<rparr>)"
| "add_loop overwrite max_size resized m cnt (elt2 # rest) =
     (case find (\<lambda>n. msameval (nd_key elt2) (nd_key n)) (mp_table m ! bucket m (nd_key elt2)) of
        Some _ \<Rightarrow>
          add_loop overwrite max_size resized
            (if overwrite then set_value m (nd_key elt2) (nd_val elt2) else m) cnt rest
      | None \<Rightarrow>
          (case insert_node max_size resized m cnt elt2 of
             Inl (e, m') \<Rightarrow>
               Inl (e, m'\<lparr>mp_count := cnt,
                          mp_unfilled := (if e = OutOfMemory \<and> \<not> overwrite then mp_unfilled m' + 1
                                          else mp_unfilled m')\<rparr>)
           | Inr m' \<Rightarrow> add_loop overwrite max_size resized m' (cnt + 1) rest))"

definition add_to_mapping :: "nat \<Rightarrow> bool \<Rightarrow> mapping \<Rightarrow> mapping \<Rightarrow> map_error \<times> mapping + mapping" where
  "add_to_mapping max_size resized m1 m2 = add_loop True max_size resized m1 (mp_count m1) (nodes_of m2)"

definition unique_add_to_mapping :: "nat \<Rightarrow> bool \<Rightarrow> mapping \<Rightarrow> mapping \<Rightarrow> map_error \<times> mapping + mapping" where
  "unique_add_to_mapping max_size resized m1 m2 = add_loop False max_size resized m1 (mp_count m1) (nodes_of m2)"

definition absorb_mapping :: "nat \<Rightarrow> bool \<Rightarrow> mapping \<Rightarrow> mapping \<Rightarrow> map_error \<times> mapping + mapping" where
  "absorb_mapping max_size resized m1 m2 =
     (if mp_count m2 \<noteq> 0 then add_to_mapping max_size resized m1 m2 else Inr m1)"

definition add_mapping :: "nat \<Rightarrow> bool \<Rightarrow> mapping \<Rightarrow> mapping \<Rightarrow> map_error \<times> mapping + mapping" where
  "add_mapping max_size resized m1 m2 =
     (if mp_count m1 \<ge> mp_count m2 then
        (if mp_count m2 \<noteq> 0 then add_to_mapping max_size resized (copyMapping m1) m2 else Inr (copyMapping m1))
      else if mp_count m1 \<noteq> 0 then unique_add_to_mapping max_size resized (copyMapping m2) m1
      else Inr (copyMapping m2))"

text \<open>The pairs that lie on the stack, in order; a later value of a key replaces the earlier one.\<close>

definition load_mapping_from_aggregate :: "nat \<Rightarrow> bool \<Rightarrow> (svalue \<times> svalue) list \<Rightarrow> map_error + mapping" where
  "load_mapping_from_aggregate max_size resized pairs =
     (case add_loop True max_size resized (allocate_mapping max_size (length pairs)) 0
             (map (\<lambda>(k, v). \<lparr>nd_key = k, nd_val = v\<rparr>) pairs) of
        Inl (e, _) \<Rightarrow> Inl e
      | Inr m \<Rightarrow> Inr m)"

section \<open>Map, filter and composition\<close>

text \<open>The callback of the efuns is a function of key and value; \<open>None\<close> is a call that could not be made, which
  ends the loop over the current chain only.\<close>

fun map_chain :: "(svalue \<Rightarrow> svalue \<Rightarrow> svalue option) \<Rightarrow> mnode list \<Rightarrow> mnode list" where
  "map_chain call [] = []"
| "map_chain call (elt # rest) =
     (case call (nd_key elt) (nd_val elt) of
        None \<Rightarrow> elt # rest
      | Some ret \<Rightarrow> elt\<lparr>nd_val := ret\<rparr> # map_chain call rest)"

definition map_mapping :: "(svalue \<Rightarrow> svalue \<Rightarrow> svalue option) \<Rightarrow> mapping \<Rightarrow> mapping" where
  "map_mapping call m = (let m' = copyMapping m in m'\<lparr>mp_table := map (map_chain call) (mp_table m')\<rparr>)"

fun filter_chain :: "(svalue \<Rightarrow> svalue \<Rightarrow> svalue option) \<Rightarrow> mnode list \<Rightarrow> mnode list" where
  "filter_chain call [] = []"
| "filter_chain call (elt # rest) =
     (case call (nd_key elt) (nd_val elt) of
        None \<Rightarrow> []
      | Some ret \<Rightarrow>
          if sv_type ret \<noteq> T_NUMBER \<or> sv_bits ret \<noteq> 0 then elt # filter_chain call rest
          else filter_chain call rest)"

fun filter_loop :: "nat \<Rightarrow> bool \<Rightarrow> mapping \<Rightarrow> int \<Rightarrow> mnode list \<Rightarrow> map_error \<times> mapping + mapping" where
  "filter_loop max_size resized newmap cnt [] = Inr (newmap\<lparr>mp_count := cnt\<rparr>)"
| "filter_loop max_size resized newmap cnt (elt # rest) =
     (case insert_node max_size resized newmap cnt elt of
        Inl (e, m') \<Rightarrow> Inl (e, m'\<lparr>mp_count := cnt\<rparr>)
      | Inr m' \<Rightarrow> filter_loop max_size resized m' (cnt + 1) rest)"

definition filter_mapping ::
  "nat \<Rightarrow> bool \<Rightarrow> (svalue \<Rightarrow> svalue \<Rightarrow> svalue option) \<Rightarrow> nat \<Rightarrow> mapping \<Rightarrow> map_error \<times> mapping + mapping" where
  "filter_mapping max_size resized call ref m0 =
     (let m = (if ref > 1 then copyMapping m0 else m0)
      in filter_loop max_size resized (allocate_mapping max_size 0) 0
           (concat (map (filter_chain call) (rev (mp_table m)))))"

text \<open>One chain of \<open>compose_mapping\<close>: the values are looked up in the second mapping.\<close>

fun compose_chain :: "mapping \<Rightarrow> mnode list \<Rightarrow> mnode list" where
  "compose_chain m2 [] = []"
| "compose_chain m2 (elt # rest) =
     (case find (\<lambda>elt2. msameval (nd_val elt) (nd_key elt2)) (mp_table m2 ! bucket m2 (nd_val elt)) of
        Some elt2 \<Rightarrow> elt\<lparr>nd_val := nd_val elt2\<rparr> # compose_chain m2 rest
      | None \<Rightarrow> compose_chain m2 rest)"

text \<open>The result of \<open>compose_mapping\<close>: the copy when \<open>flag\<close> is set, otherwise the first mapping itself.  The
  count of deleted nodes is an unsigned short; \<open>unfilled\<close> goes up once for each bucket that became empty.\<close>

definition compose_mapping :: "mapping \<Rightarrow> mapping \<Rightarrow> bool \<Rightarrow> mapping" where
  "compose_mapping m1 m2 flag =
     (let m = (if flag then copyMapping m1 else m1);
          tab = map (compose_chain m2) (mp_table m);
          deleted = (of_nat (length (concat (mp_table m)) - length (concat tab)) :: u16);
          emptied = length (filter (\<lambda>(c, c'). c \<noteq> [] \<and> c' = []) (zip (mp_table m) tab))
      in m\<lparr>mp_table := tab, mp_unfilled := mp_unfilled m + of_nat emptied, mp_count := mp_count m - int (unat deleted)\<rparr>)"

section \<open>Hash bits\<close>

text \<open>The hash of a key as a number, and the bucket in a table of \<open>2 ^ k\<close>.\<close>

definition khash :: "u64 \<Rightarrow> nat" where
  "khash b = unat (ucast (MAP_POINTER_HASH b) :: u32)"

abbreviation key_bits :: "mnode \<Rightarrow> u64" where
  "key_bits n \<equiv> sv_bits (nd_key n)"

definition bidx :: "nat \<Rightarrow> u64 \<Rightarrow> nat" where
  "bidx k b = take_bit k (khash b)"

lemma bucket_bidx:
  assumes "mp_table_size m = of_nat (2 ^ k - 1)" "k \<le> 16"
  shows "bucket m v = bidx k (sv_bits v)"
proof -
  have "(of_nat (2 ^ k - 1) :: u16) = mask k" by (simp add: mask_eq_exp_minus_1 of_nat_diff)
  then have "(ucast (mp_table_size m) :: u32) = mask k"
    using assms by (intro bit_word_eqI) (auto simp: bit_simps)
  then have "bucket m v = unat (take_bit k (sv_hash v))" by (simp add: bucket_def take_bit_eq_mask)
  then show ?thesis by (simp add: bidx_def khash_def sv_hash_def unsigned_take_bit_eq)
qed

lemma hash_bit:
  assumes "k < 32"
  shows "node_hash n AND of_nat (2 ^ k) \<noteq> 0 \<longleftrightarrow> bit (khash (key_bits n)) k"
    and "sv_hash v AND of_nat (2 ^ k) \<noteq> 0 \<longleftrightarrow> bit (khash (sv_bits v)) k"
proof -
  have "w AND of_nat (2 ^ k) \<noteq> 0 \<longleftrightarrow> bit (unat w) k" for w :: u32
    by (simp add: and_exp_eq_0_iff_not_bit bit_unsigned_iff)
  then show "node_hash n AND of_nat (2 ^ k) \<noteq> 0 \<longleftrightarrow> bit (khash (key_bits n)) k"
    and "sv_hash v AND of_nat (2 ^ k) \<noteq> 0 \<longleftrightarrow> bit (khash (sv_bits v)) k"
    by (simp_all add: node_hash_def sv_hash_def khash_def)
qed

lemma bidx_less: "bidx k b < 2 ^ k"
  by (simp add: bidx_def)

lemma bidx_Suc: "bidx (Suc k) b = (if bit (khash b) k then bidx k b + 2 ^ k else bidx k b)"
  by (simp add: bidx_def take_bit_Suc_from_most)

lemma bidx_Suc_or: "bidx (Suc k) b = (if bit (khash b) k then bidx k b OR 2 ^ k else bidx k b)"
  by (rule bit_eqI) (auto simp: bidx_def bit_simps less_Suc_eq)

interpretation map_chain: chained_table "bidx k" key_bits "2 ^ k" for k
  by unfold_locales (rule bidx_less)

section \<open>Splitting the table\<close>

definition filled :: "'a list list \<Rightarrow> nat" where
  "filled tab = length (filter (\<lambda>c. c \<noteq> []) tab)"

lemma grow_chain_eq:
  "grow_chain sz a b u =
     (filter (\<lambda>n. node_hash n AND sz = 0) a, rev (filter (\<lambda>n. node_hash n AND sz \<noteq> 0) a) @ b,
      if b = [] \<and> (\<exists>n\<in>set a. node_hash n AND sz \<noteq> 0) then u - 1 else u)"
  by (induction sz a b u rule: grow_chain.induct) auto

lemma grow_loop_eq:
  "grow_loop sz as u =
     (map (filter (\<lambda>n. node_hash n AND sz = 0)) as, map (\<lambda>a. rev (filter (\<lambda>n. node_hash n AND sz \<noteq> 0) a)) as,
      u + of_nat (filled as) - of_nat (filled (map (filter (\<lambda>n. node_hash n AND sz = 0)) as) +
        filled (map (filter (\<lambda>n. node_hash n AND sz \<noteq> 0)) as)))"
  by (induction as) (auto simp: grow_chain_eq filled_def filter_empty_conv split: if_splits)

lemma filled_parts:
  "filled as \<le> filled (map (filter P) as) + filled (map (filter (\<lambda>x. \<not> P x)) as)"
  "filled (map (filter P) as) \<le> filled as"
  by (induction as) (auto simp: filled_def filter_empty_conv)

lemma filled_append: "filled (as @ bs) = filled as + filled bs"
  by (simp add: filled_def)

lemma filled_rev: "filled (map (\<lambda>a. rev (f a)) as) = filled (map f as)"
  by (simp add: filled_def filter_map comp_def)

lemma mset_split: "mset (concat (map (filter P) as @ map (\<lambda>a. rev (filter (\<lambda>x. \<not> P x) a)) as)) = mset (concat as)"
  by (induction as) (auto simp: multiset_eq_iff)

section \<open>The invariant\<close>

definition fill_limit :: "nat \<Rightarrow> nat" where
  "fill_limit k = 2 ^ k * FILL_PERCENT div 100"

text \<open>
  \<open>table_inv k slack m\<close>: the table has \<open>2 ^ k\<close> buckets, the keys are distinct, each in its bucket, none of
  them a double; \<open>unfilled\<close> is positive and, with the buckets in use and \<open>slack\<close> more, within the fill limit.
\<close>

definition table_inv :: "nat \<Rightarrow> nat \<Rightarrow> mapping \<Rightarrow> bool" where
  "table_inv k slack m \<longleftrightarrow> k \<le> 16 \<and> length (mp_table m) = 2 ^ k \<and> mp_table_size m = of_nat (2 ^ k - 1) \<and>
     ht_inv (bidx k) key_bits (mp_table m) \<and> (\<forall>n\<in>ht_nodes (mp_table m). sv_type (nd_key n) \<noteq> T_REAL) \<and>
     0 < unat (mp_unfilled m) \<and> unat (mp_unfilled m) + filled (mp_table m) + slack \<le> fill_limit k"

definition map_wf :: "mapping \<Rightarrow> bool" where
  "map_wf m \<longleftrightarrow> (\<exists>k. table_inv k 0 m) \<and> mp_count m = int (length (concat (mp_table m)))"

text \<open>The abstract mapping: from the bits of the key to the node.\<close>

abbreviation mmap :: "mapping \<Rightarrow> u64 \<rightharpoonup> mnode" where
  "mmap m \<equiv> ht_map key_bits (mp_table m)"

lemma table_invD:
  assumes "table_inv k slack m"
  shows "bucket m v = bidx k (sv_bits v)" "bidx k b < length (mp_table m)"
    "mmap m b = find (\<lambda>n. key_bits n = b) (mp_table m ! bidx k b)" "unat (mp_table_size m) = 2 ^ k - 1" "k \<le> 16"
proof -
  have a: "mp_table_size m = of_nat (2 ^ k - 1)" "k \<le> 16" "length (mp_table m) = 2 ^ k"
      "ht_inv (bidx k) key_bits (mp_table m)" using assms by (auto simp: table_inv_def)
  show "bucket m v = bidx k (sv_bits v)" by (rule bucket_bidx[OF a(1,2)])
  show "bidx k b < length (mp_table m)" using a(3) by (simp add: bidx_less)
  show "mmap m b = find (\<lambda>n. key_bits n = b) (mp_table m ! bidx k b)" by (rule map_chain.ht_map_chain[OF a(4,3)])
  have "(2::nat) ^ k \<le> 2 ^ 16" using a(2) by (rule power_increasing) simp
  then have "(2::nat) ^ k - 1 < 2 ^ LENGTH(16)" by simp
  then show "unat (mp_table_size m) = 2 ^ k - 1" by (simp only: a(1) unat_of_nat_lt)
  show "k \<le> 16" by (rule a(2))
qed

text \<open>On a chain of such a table \<open>msameval\<close> is equality of the key bits.\<close>

lemma find_same:
  assumes "table_inv k slack m" "sv_type v \<noteq> T_REAL"
  shows "find (\<lambda>n. msameval (nd_key n) v) (mp_table m ! bucket m v) = mmap m (sv_bits v)"
    "find (\<lambda>n. msameval v (nd_key n)) (mp_table m ! bucket m v) = mmap m (sv_bits v)"
    "chain_take (\<lambda>n. msameval (nd_key n) v) (mp_table m ! bucket m v) =
       chain_take (\<lambda>n. key_bits n = sv_bits v) (mp_table m ! bucket m v)"
proof -
  have "sv_type (nd_key n) \<noteq> T_REAL" if "n \<in> set (mp_table m ! bucket m v)" for n
    using assms(1) that ht_nodes_chain[OF table_invD(2)[OF assms(1)]] table_invD(1)[OF assms(1)]
    by (auto simp: table_inv_def)
  then have "\<forall>n\<in>set (mp_table m ! bucket m v). msameval (nd_key n) v \<longleftrightarrow> key_bits n = sv_bits v"
    "\<forall>n\<in>set (mp_table m ! bucket m v). msameval v (nd_key n) \<longleftrightarrow> key_bits n = sv_bits v"
    using assms(2) msameval_bits by auto
  note e = this
  have c: "find P xs = find Q xs" "chain_take P xs = chain_take Q xs" if "\<forall>x\<in>set xs. P x = Q x" for P Q :: "mnode \<Rightarrow> bool" and xs
    using that by (induction xs) auto
  show "find (\<lambda>n. msameval (nd_key n) v) (mp_table m ! bucket m v) = mmap m (sv_bits v)"
    "find (\<lambda>n. msameval v (nd_key n)) (mp_table m ! bucket m v) = mmap m (sv_bits v)"
    unfolding table_invD(3)[OF assms(1)] using c(1)[OF e(1)] c(1)[OF e(2)] table_invD(1)[OF assms(1)] by simp_all
  show "chain_take (\<lambda>n. msameval (nd_key n) v) (mp_table m ! bucket m v) =
       chain_take (\<lambda>n. key_bits n = sv_bits v) (mp_table m ! bucket m v)" by (rule c(2)[OF e(1)])
qed

section \<open>Growing keeps the nodes\<close>

lemma fill_limit_le: "fill_limit k + fill_limit k \<le> fill_limit (Suc k)" "fill_limit k < 2 ^ k"
proof -
  have "2 ^ k * 80 < 2 ^ k * (100 :: nat)" by simp
  then show "fill_limit k < 2 ^ k" unfolding fill_limit_def FILL_PERCENT_def by (rule less_mult_imp_div_less)
qed (simp add: fill_limit_def FILL_PERCENT_def)

text \<open>Two tables with the same nodes stand for the same map.\<close>

lemma ht_map_mset:
  assumes "ht_inv idx key tab" "ht_inv idx' key tab'" "mset (concat tab') = mset (concat tab)"
  shows "ht_map key tab' = ht_map key tab" "ht_nodes tab' = ht_nodes tab"
proof -
  show n: "ht_nodes tab' = ht_nodes tab" using assms(3) by (simp add: ht_nodes_mset)
  show "ht_map key tab' = ht_map key tab" using n ht_map_eqI[OF assms(2,1)] by auto
qed

lemma split_inv:
  assumes "ht_inv (bidx k) key_bits tab" "length tab = 2 ^ k"
  defines "tab' \<equiv> map (filter (\<lambda>n. \<not> bit (khash (key_bits n)) k)) tab @
                  map (\<lambda>a. rev (filter (\<lambda>n. bit (khash (key_bits n)) k) a)) tab"
  shows "ht_inv (bidx (Suc k)) key_bits tab'" "ht_map key_bits tab' = ht_map key_bits tab" "ht_nodes tab' = ht_nodes tab"
    "length (concat tab') = length (concat tab)"
proof -
  have m: "mset (concat tab') = mset (concat tab)"
    using mset_split[of "\<lambda>n. \<not> bit (khash (key_bits n)) k" tab] by (simp add: tab'_def)
  have "bidx (Suc k) (key_bits x) = i" if "i < length tab'" "x \<in> set (tab' ! i)" for i x
  proof (cases "i < 2 ^ k")
    case True
    then show ?thesis using assms(1,2) that by (auto simp: tab'_def nth_append ht_inv_def bidx_Suc)
  next
    case False
    then have "i - 2 ^ k < length tab" "x \<in> set (tab ! (i - 2 ^ k))" "bit (khash (key_bits x)) k"
      using assms(2) that by (auto simp: tab'_def nth_append)
    then show ?thesis using assms(1,2) False by (auto simp: ht_inv_def bidx_Suc)
  qed
  moreover have "distinct (map key_bits (concat tab'))"
    using assms(1) unfolding ht_inv_def distinct_map_mset[OF m] by blast
  ultimately show inv: "ht_inv (bidx (Suc k)) key_bits tab'" by (simp add: ht_inv_def)
  show "ht_map key_bits tab' = ht_map key_bits tab" "ht_nodes tab' = ht_nodes tab"
    using ht_map_mset[OF assms(1) inv m] by simp_all
  show "length (concat tab') = length (concat tab)" using m by (metis size_mset)
qed

lemma growMap_inv:
  assumes "table_inv k 0 m" "mp_unfilled m = 1" "growMap resized (m\<lparr>mp_unfilled := 0\<rparr>) = Some m'"
  shows "table_inv (Suc k) 1 m'" "mmap m' = mmap m" "ht_nodes (mp_table m') = ht_nodes (mp_table m)"
    "length (concat (mp_table m')) = length (concat (mp_table m))" "mp_count m' = mp_count m"
    "mp_table m ! i = [] \<Longrightarrow> i < 2 ^ k \<Longrightarrow> mp_table m' ! i = [] \<and> mp_table m' ! (i + 2 ^ k) = []"
proof -
  let ?tab = "mp_table m"
  have inv: "k \<le> 16" "length ?tab = 2 ^ k" "ht_inv (bidx k) key_bits ?tab"
      "\<forall>n\<in>ht_nodes ?tab. sv_type (nd_key n) \<noteq> T_REAL" "1 + filled ?tab \<le> fill_limit k"
    using assms(1,2) by (auto simp: table_inv_def)
  have os: "unat (mp_table_size m) + 1 = 2 ^ k" using table_invD(4)[OF assms(1)] by simp
  have lim: "2 ^ Suc k \<le> MAX_TABLE_SIZE" using assms(3) os by (auto simp: growMap_def Let_def split: if_splits)
  then have k: "Suc k \<le> 15" unfolding MAX_TABLE_SIZE_def using power_le_imp_le_exp[of "2 :: nat" "Suc k" 15] by simp
  have hb: "node_hash n AND 2 ^ k = 0 \<longleftrightarrow> \<not> bit (khash (key_bits n)) k" for n using hash_bit(1)[of k n] k by auto
  let ?lo = "map (filter (\<lambda>n. \<not> bit (khash (key_bits n)) k)) ?tab"
  let ?hi = "map (\<lambda>a. rev (filter (\<lambda>n. bit (khash (key_bits n)) k) a)) ?tab"
  let ?u = "of_nat (fill_limit k) + of_nat (filled ?tab) - of_nat (filled (?lo @ ?hi)) :: u16"
  have m': "m' = m\<lparr>mp_table := ?lo @ ?hi, mp_table_size := of_nat (2 ^ Suc k) - 1, mp_unfilled := ?u\<rparr>"
    using assms(3) os by (simp add: growMap_def Let_def grow_loop_eq hb fill_limit_def filled_append filled_rev
        mult.commute split: if_splits)
  have F: "filled ?tab \<le> filled (?lo @ ?hi)" "filled (?lo @ ?hi) \<le> 2 * filled ?tab"
    using filled_parts[where as = ?tab and P = "\<lambda>n. \<not> bit (khash (key_bits n)) k"]
      filled_parts(2)[where as = ?tab and P = "\<lambda>n. bit (khash (key_bits n)) k"] by (simp_all add: filled_append filled_rev)
  let ?v = "fill_limit k + filled ?tab - filled (?lo @ ?hi)"
  have "fill_limit k < 2 ^ LENGTH(16)" using fill_limit_le(2)[of k] power_increasing[of k 16 "2 :: nat"] inv(1) by simp
  note lt = this
  have v: "0 < ?v" "?v \<le> fill_limit k" "filled (?lo @ ?hi) \<le> fill_limit k + filled ?tab" using F inv(5) by arith+
  have "?u = of_nat ?v" using v(3) by (simp add: of_nat_diff)
  then have u: "unat ?u = ?v" using unat_of_nat_lt[OF le_less_trans[OF v(2) lt]] by (simp only:)
  have "?v + filled (?lo @ ?hi) + 1 \<le> fill_limit (Suc k)" using v(3) inv(5) fill_limit_le(1)[of k] by arith
  moreover note sp = split_inv[OF inv(3,2)]
  moreover have "(of_nat (2 ^ Suc k) - 1 :: u16) = of_nat (2 ^ Suc k - 1)" by (simp add: of_nat_diff)
  ultimately show "table_inv (Suc k) 1 m'" using inv k u v(1) by (simp add: table_inv_def m')
  show "mmap m' = mmap m" "ht_nodes (mp_table m') = ht_nodes (mp_table m)"
    "length (concat (mp_table m')) = length (concat (mp_table m))" "mp_count m' = mp_count m" using sp by (simp_all add: m')
  show "mp_table m' ! i = [] \<and> mp_table m' ! (i + 2 ^ k) = []" if "mp_table m ! i = []" "i < 2 ^ k"
    using that inv(2) by (simp add: m' nth_append)
qed

section \<open>Insertion\<close>

lemma filled_update:
  "i < length tab \<Longrightarrow> filled (tab[i := c]) + of_bool (tab ! i \<noteq> []) = filled tab + of_bool (c \<noteq> [])"
proof (induction tab arbitrary: i)
  case (Cons a tab)
  then show ?case by (cases i) (auto simp: filled_def)
qed simp

lemma filled_pos: "i < length tab \<Longrightarrow> tab ! i \<noteq> [] \<Longrightarrow> 0 < filled tab"
  by (auto simp: filled_def filter_empty_conv length_greater_0_conv[symmetric] simp del: length_greater_0_conv)

lemma length_concat_update:
  assumes "i < length tab"
  shows "length (concat (tab[i := c])) + length (tab ! i) = length (concat tab) + length c"
  using arg_cong[OF mset_concat_update[OF assms, of c], of size] by (simp only: size_union size_mset)

lemma table_inv_weaken: "table_inv k slack m \<Longrightarrow> table_inv k 0 m"
  by (auto simp: table_inv_def)

text \<open>\<open>unfilled\<close> goes down by one and stays positive.\<close>

lemma unfilled_dec:
  assumes "table_inv k 0 m" "mp_unfilled m - 1 \<noteq> 0"
  shows "table_inv k 1 (m\<lparr>mp_unfilled := mp_unfilled m - 1\<rparr>)"
proof -
  have "1 \<le> mp_unfilled m" using assms(1) by (simp add: table_inv_def word_le_nat_alt)
  then have "unat (mp_unfilled m - 1) = unat (mp_unfilled m) - 1" by (simp add: unat_sub)
  moreover have "unat (mp_unfilled m - 1) \<noteq> 0" using assms(2) by (simp only: unat_eq_0 not_False_eq_True)
  ultimately show ?thesis using assms(1) by (simp add: table_inv_def)
qed

lemma claim_bucket_inv:
  assumes "table_inv k 0 m"
  shows "case claim_bucket resized m key of
     Inr (i, m') \<Rightarrow> \<exists>k'. table_inv k' (of_bool (mp_table m' ! i = [])) m' \<and> i = bidx k' (sv_bits key) \<and>
       mmap m' = mmap m \<and> length (concat (mp_table m')) = length (concat (mp_table m)) \<and> mp_count m' = mp_count m
   | Inl (e, m') \<Rightarrow> e = OutOfMemory \<and> m' = m\<lparr>mp_unfilled := 0\<rparr> \<and> mp_unfilled m = 1 \<and> growMap resized m' = None"
proof -
  let ?i = "bucket m key" and ?m1 = "m\<lparr>mp_unfilled := mp_unfilled m - 1\<rparr>"
  have i: "?i = bidx k (sv_bits key)" "?i < 2 ^ k"
    using table_invD(1)[OF assms, of key] bidx_less[of k "sv_bits key"] by simp_all
  consider "mp_table m ! ?i \<noteq> []" | "mp_table m ! ?i = []" "mp_unfilled m - 1 \<noteq> 0"
    | "mp_table m ! ?i = []" "mp_unfilled m - 1 = 0" by blast
  then show ?thesis
  proof cases
    case 1
    then show ?thesis using assms i by (auto simp: claim_bucket_def Let_def)
  next
    case 2
    then show ?thesis using unfilled_dec[OF assms 2(2)] i by (auto simp: claim_bucket_def Let_def)
  next
    case 3
    then have u: "mp_unfilled m = 1" by simp
    have os: "unat (mp_table_size m) + 1 = 2 ^ k" using table_invD(4)[OF assms] by simp
    show ?thesis
    proof (cases "growMap resized (m\<lparr>mp_unfilled := 0\<rparr>)")
      case None
      then show ?thesis using 3 u by (simp add: claim_bucket_def Let_def)
    next
      case (Some m2)
      note g = growMap_inv[OF assms u Some]
      have k: "k < 32" using table_invD(5)[OF assms] by simp
      let ?i2 = "if sv_hash key AND of_nat (2 ^ k) \<noteq> 0 then ?i OR 2 ^ k else ?i"
      have i2: "?i2 = bidx (Suc k) (sv_bits key)" unfolding hash_bit(2)[OF k] i(1) bidx_Suc_or ..
      then have "mp_table m2 ! ?i2 = []" unfolding i2 bidx_Suc using g(6)[OF 3(1) i(2)] i(1) by simp
      moreover have "claim_bucket resized m key = Inr (?i2, m2)" using 3 Some os u by (simp add: claim_bucket_def Let_def)
      ultimately show ?thesis using g i2 by auto
    qed
  qed
qed

lemma insert_node_inv:
  assumes "table_inv k 0 m" "mmap m (key_bits nd) = None" "sv_type (nd_key nd) \<noteq> T_REAL"
  shows "case insert_node max_size resized m cnt nd of
     Inr m' \<Rightarrow> cnt < int max_size \<and> (\<exists>k'. table_inv k' 0 m') \<and> mmap m' = (mmap m)(key_bits nd \<mapsto> nd) \<and>
       length (concat (mp_table m')) = Suc (length (concat (mp_table m))) \<and> mp_count m' = mp_count m
   | Inl (TooLarge, m') \<Rightarrow> int max_size \<le> cnt \<and> (\<exists>k'. table_inv k' 0 m') \<and> mmap m' = mmap m \<and>
       length (concat (mp_table m')) = length (concat (mp_table m)) \<and> mp_count m' = mp_count m
   | Inl (OutOfMemory, m') \<Rightarrow> m' = m\<lparr>mp_unfilled := 0\<rparr> \<and> mp_unfilled m = 1 \<and> growMap resized m' = None"
proof (cases "claim_bucket resized m (nd_key nd)")
  case (Inl em)
  then show ?thesis using claim_bucket_inv[OF assms(1), of resized "nd_key nd"]
    by (cases em) (simp add: insert_node_def)
next
  case (Inr im)
  obtain i m1 where im: "im = (i, m1)" by fastforce
  obtain k' where k': "table_inv k' (of_bool (mp_table m1 ! i = [])) m1" "i = bidx k' (key_bits nd)" "mmap m1 = mmap m"
      "length (concat (mp_table m1)) = length (concat (mp_table m))" "mp_count m1 = mp_count m"
    using claim_bucket_inv[OF assms(1), of resized "nd_key nd"] Inr im by auto
  let ?tab = "(mp_table m1)[i := nd # mp_table m1 ! i]"
  have i: "i < length (mp_table m1)" using table_invD(2)[OF k'(1)] k'(2) by simp
  have h: "ht_inv (bidx k') key_bits (mp_table m1)" "length (mp_table m1) = 2 ^ k'" using k'(1) by (auto simp: table_inv_def)
  have "mmap m1 (key_bits nd) = None" using assms(2) k'(3) by simp
  note ins = map_chain.ht_insert[OF h this]
  have "filled ?tab = filled (mp_table m1) + of_bool (mp_table m1 ! i = [])"
    using filled_update[OF i, of "nd # mp_table m1 ! i"] by auto
  then have "table_inv k' 0 (m1\<lparr>mp_table := ?tab\<rparr>)" using k'(1) ins assms(3) by (auto simp: table_inv_def k'(2))
  moreover have "length (concat ?tab) = Suc (length (concat (mp_table m1)))"
    using length_concat_update[OF i, of "nd # mp_table m1 ! i"] by simp
  ultimately show ?thesis using Inr im k' ins table_inv_weaken[OF k'(1)] by (auto simp: insert_node_def)
qed

lemma find_for_insert_wf:
  assumes "map_wf m" "sv_type lv \<noteq> T_REAL"
  shows "case find_for_insert max_size resized m lv of
     Inr (key, m') \<Rightarrow> map_wf m' \<and> sv_bits key = sv_bits lv \<and>
       (case mmap m (sv_bits lv) of
          Some n \<Rightarrow> m' = m \<and> key = nd_key n
        | None \<Rightarrow> mp_count m < int max_size \<and> key = lv \<and>
            mmap m' = (mmap m)(sv_bits lv \<mapsto> \<lparr>nd_key = lv, nd_val = const0u\<rparr>))
   | Inl (TooLarge, m') \<Rightarrow> int max_size \<le> mp_count m \<and> mmap m (sv_bits lv) = None \<and> map_wf m' \<and> mmap m' = mmap m
   | Inl (OutOfMemory, m') \<Rightarrow> mmap m (sv_bits lv) = None \<and> mp_unfilled m = 1 \<and> growMap resized m' = None \<and>
       m' = m\<lparr>mp_unfilled := 0\<rparr>"
proof -
  obtain k where k: "table_inv k 0 m" "mp_count m = int (length (concat (mp_table m)))" using assms(1) by (auto simp: map_wf_def)
  note f = find_same(2)[OF k(1) assms(2)]
  show ?thesis
  proof (cases "mmap m (sv_bits lv)")
    case (Some n)
    then have "key_bits n = sv_bits lv" using k(1) ht_map_some[of "bidx k" key_bits "mp_table m"] by (simp add: table_inv_def)
    then show ?thesis using Some f assms(1) by (simp add: find_for_insert_def)
  next
    case None
    let ?nd = "\<lparr>nd_key = lv, nd_val = const0u\<rparr>"
    have tc: "table_inv j s (m'\<lparr>mp_count := c\<rparr>) = table_inv j s m'" for j s m' c by (simp add: table_inv_def)
    show ?thesis
      using insert_node_inv[OF k(1), where nd = ?nd and max_size = max_size and resized = resized and cnt = "mp_count m"] None f assms(2) k(2)
      by (cases "insert_node max_size resized m (mp_count m) ?nd")
         (auto simp: find_for_insert_def map_wf_def tc split: map_error.splits)
  qed
qed

section \<open>Lookup, deletion and assignment\<close>

text \<open>The value of a key.\<close>

definition vmap :: "mapping \<Rightarrow> u64 \<rightharpoonup> svalue" where
  "vmap m b = map_option nd_val (mmap m b)"

lemma find_in_mapping_wf:
  assumes "map_wf m" "sv_type lv \<noteq> T_REAL"
  shows "find_in_mapping m lv = (case vmap m (sv_bits lv) of Some v \<Rightarrow> v | None \<Rightarrow> const0u)"
    "node_find_in_mapping m lv = mmap m (sv_bits lv)"
  using assms find_same(1) by (auto simp: map_wf_def find_in_mapping_def node_find_in_mapping_def vmap_def split: option.split)

lemma mapping_delete_wf:
  assumes "map_wf m" "sv_type lv \<noteq> T_REAL"
  shows "map_wf (mapping_delete m lv)" "mmap (mapping_delete m lv) = (mmap m)(sv_bits lv := None)"
proof -
  obtain k where k: "table_inv k 0 m" "mp_count m = int (length (concat (mp_table m)))" using assms(1) by (auto simp: map_wf_def)
  let ?i = "bucket m lv" and ?b = "sv_bits lv"
  have i: "?i = bidx k ?b" "?i < length (mp_table m)" using table_invD(1,2)[OF k(1)] by simp_all
  have "map_wf (mapping_delete m lv) \<and> mmap (mapping_delete m lv) = (mmap m)(?b := None)"
  proof (cases "chain_take (\<lambda>n. key_bits n = ?b) (mp_table m ! ?i)")
    case None
    then have "mmap m ?b = None" unfolding table_invD(3)[OF k(1)] i(1)[symmetric] by (simp add: chain_take_none find_None_iff)
    then show ?thesis using None assms(1) find_same(3)[OF k(1) assms(2)] by (auto simp: mapping_delete_def Let_def fun_upd_idem)
  next
    case (Some nr)
    obtain n r where nr: "nr = (n, r)" by fastforce
    obtain xs ys where xy: "mp_table m ! ?i = xs @ n # ys" "r = xs @ ys" "key_bits n = ?b"
      using chain_take_some[of _ "mp_table m ! ?i" n r] Some nr by blast
    let ?tab = "(mp_table m)[?i := xs @ ys]"
    have h: "ht_inv (bidx k) key_bits (mp_table m)" using k(1) by (simp add: table_inv_def)
    note rm = map_chain.ht_remove[OF h i(2) xy(1)]
    have f: "filled ?tab + 1 = filled (mp_table m) + of_bool (r \<noteq> [])"
      using filled_update[OF i(2), of "xs @ ys"] xy by simp
    have "unat (mp_unfilled m) < 65535"
      using k(1) fill_limit_le(2)[of k] power_increasing[of k 16 "2 :: nat"] filled_pos[OF i(2)] xy(1) by (auto simp: table_inv_def)
    then have u: "unat (mp_unfilled m + 1) = unat (mp_unfilled m) + 1" by (simp add: unat_word_ariths unat_plus_if')
    let ?m = "m\<lparr>mp_table := ?tab, mp_unfilled := (if r = [] then mp_unfilled m + 1 else mp_unfilled m), mp_count := mp_count m - 1\<rparr>"
    have d: "mapping_delete m lv = ?m" using Some nr xy(2) find_same(3)[OF k(1) assms(2)] by (simp add: mapping_delete_def Let_def)
    have "table_inv k 0 ?m" using k(1) rm f u by (auto simp: table_inv_def)
    moreover have "length (concat (mp_table m)) = Suc (length (concat ?tab))"
      using length_concat_update[OF i(2), of "xs @ ys"] xy(1) by simp
    ultimately show ?thesis using d rm(2) xy(3) k(2) by (auto simp: map_wf_def)
  qed
  then show "map_wf (mapping_delete m lv)" "mmap (mapping_delete m lv) = (mmap m)(sv_bits lv := None)" by auto
qed

lemma map_distinct_upd:
  "distinct (map key (xs @ n # ys)) \<Longrightarrow> map (\<lambda>x. if key x = key n then f x else x) (xs @ n # ys) = xs @ f n # ys"
  by (auto intro!: map_idI) (metis imageI)+

lemma set_value_inv:
  assumes "table_inv k s m" "sv_type key \<noteq> T_REAL" "mmap m (sv_bits key) = Some n"
  shows "table_inv k s (set_value m key v)" "mmap (set_value m key v) = (mmap m)(sv_bits key \<mapsto> n\<lparr>nd_val := v\<rparr>)"
    "length (concat (mp_table (set_value m key v))) = length (concat (mp_table m))"
proof -
  let ?i = "bucket m key"
  have i: "?i = bidx k (sv_bits key)" "?i < length (mp_table m)" using table_invD(1,2)[OF assms(1)] by simp_all
  have h: "ht_inv (bidx k) key_bits (mp_table m)" using assms(1) by (simp add: table_inv_def)
  have n: "n \<in> ht_nodes (mp_table m)" "key_bits n = sv_bits key" using ht_map_some[OF h] assms(3) by auto
  have "find (\<lambda>x. key_bits x = sv_bits key) (mp_table m ! ?i) = Some n" using assms(3) table_invD(3)[OF assms(1)] i(1) by simp
  then obtain xs ys where xy: "mp_table m ! ?i = xs @ n # ys" by (metis find_Some_iff split_list_first nth_mem)
  have real: "sv_type (nd_key x) \<noteq> T_REAL" if "x \<in> set (mp_table m ! ?i)" for x
    using assms(1) ht_nodes_chain[OF i(2) that] by (auto simp: table_inv_def)
  have "map (\<lambda>x. if msameval key (nd_key x) then x\<lparr>nd_val := v\<rparr> else x) (mp_table m ! ?i) =
      map (\<lambda>x. if key_bits x = key_bits n then x\<lparr>nd_val := v\<rparr> else x) (mp_table m ! ?i)"
    using real assms(2) n(2) msameval_bits by (intro map_cong) auto
  also have "\<dots> = xs @ n\<lparr>nd_val := v\<rparr> # ys"
    using map_distinct_upd[of key_bits xs n ys] map_chain.chain_distinct[OF h i(2)] unfolding xy by blast
  finally have t: "set_value m key v = m\<lparr>mp_table := (mp_table m)[?i := xs @ n\<lparr>nd_val := v\<rparr> # ys]\<rparr>"
    by (simp add: set_value_def Let_def)
  note rp = map_chain.ht_replace[OF h i(2) xy, of "n\<lparr>nd_val := v\<rparr>"]
  have "mset (concat ((mp_table m)[?i := xs @ n\<lparr>nd_val := v\<rparr> # ys])) + {#n#} = mset (concat (mp_table m)) + {#n\<lparr>nd_val := v\<rparr>#}"
    using mset_concat_update[OF i(2), of "xs @ n\<lparr>nd_val := v\<rparr> # ys"] xy by simp
  then have "x \<in> ht_nodes ((mp_table m)[?i := xs @ n\<lparr>nd_val := v\<rparr> # ys]) \<Longrightarrow> x \<in> insert (n\<lparr>nd_val := v\<rparr>) (ht_nodes (mp_table m))" for x
    unfolding ht_nodes_mset by (metis insert_iff set_mset_add_mset_insert union_iff add_mset_add_single)
  then have "\<forall>x\<in>ht_nodes ((mp_table m)[?i := xs @ n\<lparr>nd_val := v\<rparr> # ys]). sv_type (nd_key x) \<noteq> T_REAL"
    using assms(1) n(1) by (fastforce simp: table_inv_def)
  moreover have "filled ((mp_table m)[?i := xs @ n\<lparr>nd_val := v\<rparr> # ys]) = filled (mp_table m)"
    using filled_update[OF i(2), of "xs @ n\<lparr>nd_val := v\<rparr> # ys"] xy by simp
  ultimately show "table_inv k s (set_value m key v)" using assms(1) rp(1) by (simp add: t table_inv_def)
  show "mmap (set_value m key v) = (mmap m)(sv_bits key \<mapsto> n\<lparr>nd_val := v\<rparr>)" using rp(2) n(2) by (simp add: t)
  show "length (concat (mp_table (set_value m key v))) = length (concat (mp_table m))"
    using length_concat_update[OF i(2), of "xs @ n\<lparr>nd_val := v\<rparr> # ys"] xy by (simp add: t)
qed

section \<open>Adding mappings\<close>

lemma table_inv_count [simp]: "table_inv k s (m\<lparr>mp_count := c\<rparr>) = table_inv k s m"
  by (simp add: table_inv_def)

lemma set_value_count [simp]: "mp_count (set_value m key v) = mp_count m"
  by (simp add: set_value_def Let_def)

text \<open>The map that a list of nodes adds to another one, with and without replacement.\<close>

definition node_map :: "mnode list \<Rightarrow> u64 \<rightharpoonup> svalue" where
  "node_map nds = map_of (map (\<lambda>n. (key_bits n, nd_val n)) nds)"

lemma vmap_find: "vmap m = node_map (concat (mp_table m))"
proof
  fix b
  have "map_option nd_val (find (\<lambda>n. key_bits n = b) xs) = node_map xs b" for xs
    by (induction xs) (auto simp: node_map_def)
  then show "vmap m b = node_map (concat (mp_table m)) b" by (simp add: vmap_def ht_map_def)
qed

lemma dom_node_map: "dom (node_map xs) = key_bits ` set xs"
  by (simp add: node_map_def dom_map_of_conv_image_fst image_image)

lemma card_vmap:
  assumes "map_wf m"
  shows "mp_count m = int (card (dom (vmap m)))"
proof -
  have "distinct (map key_bits (concat (mp_table m)))" using assms by (auto simp: map_wf_def table_inv_def ht_inv_def)
  then have "card (set (map key_bits (concat (mp_table m)))) = length (concat (mp_table m))"
    using distinct_card by fastforce
  then show ?thesis using assms unfolding vmap_find dom_node_map by (simp only: map_wf_def set_map)
qed

lemma node_map_mset:
  assumes "mset xs = mset ys" "distinct (map key_bits ys)"
  shows "node_map xs = node_map ys"
proof -
  have "distinct (map fst (map (\<lambda>n. (key_bits n, nd_val n)) zs)) \<longleftrightarrow> distinct (map key_bits zs)" for zs by (simp add: comp_def)
  then have "distinct (map fst (map (\<lambda>n. (key_bits n, nd_val n)) xs))" "distinct (map fst (map (\<lambda>n. (key_bits n, nd_val n)) ys))"
    using assms(2) distinct_map_mset[OF assms(1)] by blast+
  moreover have "set xs = set ys" using assms(1) by (rule mset_eq_setD)
  ultimately show ?thesis unfolding node_map_def using map_of_inject_set by (metis (no_types, lifting) set_map)
qed

lemma mset_concat_rev: "mset (concat (rev xs)) = mset (concat xs)"
  by (induction xs) simp_all

lemma vmap_nodes_of:
  assumes "map_wf m"
  shows "node_map (nodes_of m) = vmap m" "node_map (rev (nodes_of m)) = vmap m" "\<forall>n\<in>set (nodes_of m). sv_type (nd_key n) \<noteq> T_REAL"
proof -
  have s: "set (nodes_of m) = set (concat (mp_table m))" by (simp add: nodes_of_def)
  have m: "mset (nodes_of m) = mset (concat (mp_table m))"
    unfolding nodes_of_def by (rule mset_concat_rev)
  have d: "distinct (map key_bits (concat (mp_table m)))" using assms by (auto simp: map_wf_def table_inv_def ht_inv_def)
  have eq: "node_map xs = vmap m" if "mset xs = mset (concat (mp_table m))" for xs
    unfolding vmap_find by (rule node_map_mset[OF that d])
  show "node_map (nodes_of m) = vmap m" "node_map (rev (nodes_of m)) = vmap m" using eq m by simp_all
  show "\<forall>n\<in>set (nodes_of m). sv_type (nd_key n) \<noteq> T_REAL"
    using assms s by (auto simp: map_wf_def table_inv_def ht_nodes_def)
qed

text \<open>What the loop makes of the old map and the nodes: the union, the nodes winning when they overwrite.\<close>

definition union_map :: "bool \<Rightarrow> (u64 \<rightharpoonup> svalue) \<Rightarrow> mnode list \<Rightarrow> u64 \<rightharpoonup> svalue" where
  "union_map overwrite M nds = (if overwrite then M ++ node_map (rev nds) else node_map nds ++ M)"

lemma union_map_Cons:
  "union_map ow M (n # nds) =
     union_map ow (if ow \<or> M (key_bits n) = None then M(key_bits n \<mapsto> nd_val n) else M) nds"
  by (auto simp: union_map_def node_map_def fun_eq_iff map_add_def split: option.splits)

lemma dom_union_map: "dom M \<subseteq> dom (union_map ow M nds)" "finite (dom M) \<Longrightarrow> finite (dom (union_map ow M nds))"
  by (auto simp: union_map_def dom_node_map)

lemma add_loop_wf:
  assumes "table_inv k 0 m" "cnt = int (length (concat (mp_table m)))" "\<forall>n\<in>set nds. sv_type (nd_key n) \<noteq> T_REAL"
  shows "case add_loop ow max_size resized m cnt nds of
     Inr m' \<Rightarrow> map_wf m' \<and> vmap m' = union_map ow (vmap m) nds
   | Inl (e, m') \<Rightarrow> e = TooLarge \<longrightarrow> map_wf m' \<and> int max_size < int (card (dom (union_map ow (vmap m) nds)))"
  using assms
proof (induction nds arbitrary: k m cnt)
  case Nil
  then have "vmap (m\<lparr>mp_count := cnt\<rparr>) = vmap m" by (simp add: vmap_def fun_eq_iff)
  then show ?case using Nil by (auto simp: map_wf_def union_map_def node_map_def)
next
  case (Cons n nds)
  have r: "sv_type (nd_key n) \<noteq> T_REAL" "\<forall>n\<in>set nds. sv_type (nd_key n) \<noteq> T_REAL" using Cons.prems(3) by simp_all
  note f = find_same(2)[OF Cons.prems(1) r(1)]
  show ?case
  proof (cases "mmap m (key_bits n)")
    case (Some n0)
    let ?m = "if ow then set_value m (nd_key n) (nd_val n) else m"
    note sv = set_value_inv[OF Cons.prems(1) r(1) Some, of "nd_val n"]
    have "vmap ?m = (if ow \<or> vmap m (key_bits n) = None then (vmap m)(key_bits n \<mapsto> nd_val n) else vmap m)"
      using Some sv(2) by (auto simp: vmap_def fun_eq_iff)
    then have um: "union_map ow (vmap m) (n # nds) = union_map ow (vmap ?m) nds" by (simp only: union_map_Cons)
    have lp: "add_loop ow max_size resized m cnt (n # nds) = add_loop ow max_size resized ?m cnt nds" using f Some by simp
    have "table_inv k 0 ?m" "cnt = int (length (concat (mp_table ?m)))" using sv Cons.prems by auto
    then show ?thesis unfolding um lp by (rule Cons.IH[OF _ _ r(2)])
  next
    case None
    note ins = insert_node_inv[OF Cons.prems(1) None r(1), where max_size = max_size and resized = resized and cnt = cnt]
    have v: "(if ow \<or> vmap m (key_bits n) = None then (vmap m)(key_bits n \<mapsto> nd_val n) else vmap m) =
        (vmap m)(key_bits n \<mapsto> nd_val n)" using None by (simp add: vmap_def)
    show ?thesis
    proof (cases "insert_node max_size resized m cnt n")
      case (Inr m')
      then obtain k' where "table_inv k' 0 m'" "vmap m' = (vmap m)(key_bits n \<mapsto> nd_val n)"
          "cnt + 1 = int (length (concat (mp_table m')))"
        using ins Cons.prems(2) by (auto simp: vmap_def fun_eq_iff)
      note m' = this
      have um: "union_map ow (vmap m) (n # nds) = union_map ow (vmap m') nds" unfolding union_map_Cons v m'(2) ..
      have lp: "add_loop ow max_size resized m cnt (n # nds) = add_loop ow max_size resized m' (cnt + 1) nds"
        using f None Inr by simp
      show ?thesis unfolding um lp by (rule Cons.IH[OF m'(1,3) r(2)])
    next
      case (Inl em)
      obtain e m' where em: "em = (e, m')" by fastforce
      have big: "int max_size < int (card (dom (union_map ow (vmap m) (n # nds))))" if "e = TooLarge"
      proof -
        have "map_wf (m\<lparr>mp_count := cnt\<rparr>)" using Cons.prems(1,2) by (auto simp: map_wf_def)
        from card_vmap[OF this] have "cnt = int (card (dom (vmap m)))" by (simp add: vmap_def[abs_def])
        moreover have "finite (dom (vmap m))" unfolding vmap_find dom_node_map by simp
        moreover have "insert (key_bits n) (dom (vmap m)) \<subseteq> dom (union_map ow (vmap m) (n # nds))"
          unfolding union_map_Cons v using dom_union_map(1)[of "(vmap m)(key_bits n \<mapsto> nd_val n)" ow nds] by simp
        moreover have "key_bits n \<notin> dom (vmap m)" using None by (simp add: vmap_def dom_def)
        ultimately have "cnt < int (card (dom (union_map ow (vmap m) (n # nds))))"
          using card_mono[of "dom (union_map ow (vmap m) (n # nds))" "insert (key_bits n) (dom (vmap m))"]
            dom_union_map(2)[of "vmap m" ow "n # nds"] by simp
        then show ?thesis using ins Inl em that by simp
      qed
      show ?thesis using Inl em ins f None big Cons.prems(2) by (auto simp: map_wf_def split: map_error.splits)
    qed
  qed
qed

section \<open>Copies and new mappings\<close>

lemma foldl_cons_rev: "foldl (\<lambda>a e. e # a) acc xs = rev xs @ acc"
  by (induction xs arbitrary: acc) auto

lemma copyMapping_table: "copyMapping m = m\<lparr>mp_table := map rev (mp_table m)\<rparr>"
  by (simp add: copyMapping_def foldl_cons_rev)

lemma mset_concat_map_rev: "mset (concat (map rev xs)) = mset (concat xs)"
  by (induction xs) simp_all

lemma copyMapping_wf:
  assumes "map_wf m"
  shows "map_wf (copyMapping m)" "mmap (copyMapping m) = mmap m" "vmap (copyMapping m) = vmap m" "mp_count (copyMapping m) = mp_count m"
proof -
  let ?t = "mp_table m" and ?t' = "map rev (mp_table m)"
  have ms: "mset (concat ?t') = mset (concat ?t)" by (rule mset_concat_map_rev)
  obtain k where k: "table_inv k 0 m" "mp_count m = int (length (concat ?t))" using assms by (auto simp: map_wf_def)
  have h: "ht_inv (bidx k) key_bits ?t" using k(1) by (simp add: table_inv_def)
  have "distinct (map key_bits (concat ?t'))" using h unfolding ht_inv_def distinct_map_mset[OF ms] by blast
  then have h': "ht_inv (bidx k) key_bits ?t'" using h by (simp add: ht_inv_def)
  note same = ht_map_mset[OF h h' ms]
  have "filled ?t' = filled ?t" by (simp add: filled_def filter_map comp_def)
  then have "table_inv k 0 (copyMapping m)" using k(1) h' same by (simp add: copyMapping_table table_inv_def)
  moreover have "length (concat ?t') = length (concat ?t)" using ms by (metis size_mset)
  ultimately show "map_wf (copyMapping m)" using k(2) by (auto simp: map_wf_def copyMapping_table)
  show "mmap (copyMapping m) = mmap m" "vmap (copyMapping m) = vmap m" "mp_count (copyMapping m) = mp_count m"
    using same by (simp_all add: copyMapping_table vmap_def fun_eq_iff)
qed

text \<open>Doubling the run of ones under the leading bit.\<close>

definition ones_below :: "nat \<Rightarrow> nat \<Rightarrow> nat \<Rightarrow> bool" where
  "ones_below h w n \<longleftrightarrow> (\<forall>i. bit n i \<longrightarrow> i \<le> h) \<and> (\<forall>i\<le>h. h < i + w \<longrightarrow> bit n i)"

lemma ones_below_double:
  assumes "ones_below h w n" "0 < w"
  shows "ones_below h (w + w) (n OR drop_bit w n)"
proof -
  have "bit n i \<or> bit n (i + w)" if "i \<le> h" "h < i + (w + w)" for i
    using assms that by (cases "h < i + w") (auto simp: ones_below_def)
  then show ?thesis using assms(1) by (fastforce simp: ones_below_def bit_or_iff bit_drop_bit_eq add.commute)
qed

lemma ones_below_all:
  assumes "ones_below h w n" "h < w"
  shows "n = 2 ^ Suc h - 1"
proof -
  have "bit n i \<longleftrightarrow> i < Suc h" for i using assms unfolding ones_below_def by (metis less_Suc_eq_le trans_less_add2)
  then have "n = mask (Suc h)" by (intro bit_eqI) (simp add: bit_mask_iff)
  then show ?thesis by (simp only: mask_eq_exp_minus_1)
qed

lemma ones_below_top:
  assumes "2 ^ h \<le> n" "n < 2 ^ Suc h"
  shows "ones_below h 1 n"
proof -
  have "i \<le> h" if "bit n i" for i
  proof (rule ccontr)
    assume "\<not> i \<le> h"
    then have "(2::nat) ^ Suc h \<le> 2 ^ i" by (intro power_increasing) auto
    then have "n < 2 ^ i" using assms(2) by linarith
    then show False using that by (metis bit_take_bit_iff less_irrefl take_bit_nat_eq_self)
  qed
  moreover have "n div 2 ^ h = 1" using assms by (intro div_nat_eqI) auto
  then have "bit n h" by (simp add: bit_iff_odd)
  ultimately show ?thesis unfolding ones_below_def by (auto simp: less_Suc_eq_le dest: le_antisym)
qed

lemma high_byte: "bit (0xff00 :: nat) i \<longleftrightarrow> 8 \<le> i \<and> i < 16"
proof -
  have e: "(0xff00 :: nat) = push_bit 8 (mask 8)" by (simp add: mask_eq_exp_minus_1 push_bit_eq_mult)
  show ?thesis unfolding e by (simp only: bit_push_bit_iff bit_mask_iff) auto
qed

lemma ones_below_high:
  assumes "ones_below h 8 n" "h < 16"
  shows "n AND 0xff00 = 0 \<longleftrightarrow> h < 8"
proof
  assume "h < 8"
  then show "n AND 0xff00 = 0" using assms(1) unfolding ones_below_def
    by (intro bit_eqI) (auto simp: bit_and_iff high_byte simp del: bit_0)
next
  assume a: "n AND 0xff00 = 0"
  show "h < 8"
  proof (rule ccontr)
    assume "\<not> h < 8"
    then have "bit (n AND 0xff00) h" using assms by (simp add: bit_and_iff high_byte ones_below_def)
    then show False unfolding a by simp
  qed
qed

lemma smear_mask:
  assumes "0 < n" "n < 65536"
  obtains h where "2 ^ h \<le> n" "n < 2 ^ Suc h" "h < 16" "smear n = 2 ^ Suc h - 1"
proof -
  obtain h where h: "2 ^ h \<le> n" "n < 2 ^ Suc h" using ex_power_ivl1[of 2 n] assms by auto
  have "(2::nat) ^ h < 2 ^ 16" using h(1) assms(2) by simp
  then have h16: "h < 16" by (rule power_less_imp_less_exp[rotated]) simp
  let ?n1 = "n OR drop_bit 1 n"
  let ?n2 = "?n1 OR drop_bit 2 ?n1"
  let ?n4 = "?n2 OR drop_bit 4 ?n2"
  have o1: "ones_below h 2 ?n1" using ones_below_double[OF ones_below_top[OF h] zero_less_one] by (simp only: one_add_one)
  have o2: "ones_below h 4 ?n2" using ones_below_double[OF o1] by simp
  have o4: "ones_below h 8 ?n4" using ones_below_double[OF o2] by simp
  have "smear n = 2 ^ Suc h - 1"
  proof (cases "h < 8")
    case True
    then show ?thesis using ones_below_all[OF o4 True] ones_below_high[OF o4 h16] by (simp only: smear_def Let_def) simp
  next
    case False
    have "ones_below h 16 (?n4 OR drop_bit 8 ?n4)" using ones_below_double[OF o4] by simp
    then have "?n4 OR drop_bit 8 ?n4 = 2 ^ Suc h - 1" using h16 by (intro ones_below_all) simp_all
    then show ?thesis using ones_below_high[OF o4 h16] False by (simp only: smear_def Let_def) simp
  qed
  then show ?thesis using that h h16 by blast
qed

lemma allocate_mapping_wf:
  assumes "max_size < 65536"
  shows "map_wf (allocate_mapping max_size n)" "mmap (allocate_mapping max_size n) = Map.empty"
    "vmap (allocate_mapping max_size n) = Map.empty" "\<exists>k. table_inv k 0 (allocate_mapping max_size n)"
    "concat (mp_table (allocate_mapping max_size n)) = []"
proof -
  let ?m = "allocate_mapping max_size n"
  have "\<exists>k>0. k \<le> 16 \<and> (if min n max_size > 8 then smear (min n max_size) + 1 else 8) = 2 ^ k"
  proof (cases "min n max_size > 8")
    case True
    have "0 < min n max_size" "min n max_size < 65536" using True assms by auto
    from smear_mask[OF this] obtain h where "h < 16" "smear (min n max_size) = 2 ^ Suc h - 1" by blast
    then show ?thesis using True by (intro exI[of _ "Suc h"]) simp
  next
    case False
    then show ?thesis by (intro exI[of _ 3]) auto
  qed
  then obtain k where k: "0 < k" "k \<le> 16" "(if min n max_size > 8 then smear (min n max_size) + 1 else 8) = 2 ^ k" by blast
  have e: "(if max_size < n then max_size else n) = min n max_size" by auto
  have m: "?m = \<lparr>mp_table = replicate (2 ^ k) [], mp_table_size = of_nat (2 ^ k - 1), mp_unfilled = of_nat (fill_limit k), mp_count = 0\<rparr>"
    unfolding allocate_mapping_def Let_def e MAP_HASH_TABLE_SIZE_def k(3) fill_limit_def ..
  have "fill_limit k < 2 ^ LENGTH(16)" using fill_limit_le(2)[of k] power_increasing[of k 16 "2 :: nat"] k(2) by simp
  then have u: "unat (of_nat (fill_limit k) :: u16) = fill_limit k" by (rule unat_of_nat_lt)
  have "(2::nat) ^ 1 \<le> 2 ^ k" using k(1) by (intro power_increasing) auto
  then have "0 < fill_limit k" by (simp add: fill_limit_def FILL_PERCENT_def)
  moreover have "concat (replicate (2 ^ k) []) = ([] :: mnode list)" by simp
  moreover have "filled (replicate (2 ^ k) ([] :: mnode list)) = 0" by (simp add: filled_def)
  ultimately have t: "table_inv k 0 ?m" using u k(2) by (simp add: m table_inv_def ht_inv_def ht_nodes_def)
  then show "map_wf ?m" "\<exists>k. table_inv k 0 ?m" by (auto simp: map_wf_def m)
  show "concat (mp_table ?m) = []" "mmap ?m = Map.empty" "vmap ?m = Map.empty"
    by (auto simp: m ht_map_def fun_eq_iff vmap_def)
qed

section \<open>Filter and composition\<close>

lemma filter_loop_wf:
  assumes "table_inv k 0 m" "cnt = int (length (concat (mp_table m)))" "\<forall>n\<in>set nds. sv_type (nd_key n) \<noteq> T_REAL"
    "distinct (map key_bits nds)" "key_bits ` set nds \<inter> dom (vmap m) = {}" "cnt + int (length nds) \<le> int max_size"
  shows "case filter_loop max_size resized m cnt nds of
     Inr m' \<Rightarrow> map_wf m' \<and> vmap m' = vmap m ++ node_map nds
   | Inl (e, m') \<Rightarrow> e = OutOfMemory"
  using assms
proof (induction nds arbitrary: k m cnt)
  case Nil
  then have "vmap (m\<lparr>mp_count := cnt\<rparr>) = vmap m" by (simp add: vmap_def fun_eq_iff)
  then show ?case using Nil by (auto simp: map_wf_def node_map_def)
next
  case (Cons n nds)
  have r: "sv_type (nd_key n) \<noteq> T_REAL" "mmap m (key_bits n) = None" using Cons.prems(3,5) by (auto simp: vmap_def dom_def)
  note ins = insert_node_inv[OF Cons.prems(1) r(2,1), where max_size = max_size and resized = resized and cnt = cnt]
  show ?case
  proof (cases "insert_node max_size resized m cnt n")
    case (Inr m')
    then obtain k' where m': "table_inv k' 0 m'" "vmap m' = (vmap m)(key_bits n \<mapsto> nd_val n)"
        "cnt + 1 = int (length (concat (mp_table m')))"
      using ins Cons.prems(2) by (auto simp: vmap_def fun_eq_iff)
    have nd: "\<forall>n\<in>set nds. sv_type (nd_key n) \<noteq> T_REAL" "distinct (map key_bits nds)" "key_bits ` set nds \<inter> dom (vmap m') = {}"
        "cnt + 1 + int (length nds) \<le> int max_size" using Cons.prems(3-6) m'(2) by auto
    have eq: "vmap m ++ node_map (n # nds) = vmap m' ++ node_map nds"
    proof
      fix b
      have "key_bits n \<notin> dom (node_map nds)" using Cons.prems(4) by (simp add: dom_node_map)
      then show "(vmap m ++ node_map (n # nds)) b = (vmap m' ++ node_map nds) b"
        by (auto simp: m'(2) node_map_def map_add_def split: option.split)
    qed
    have "filter_loop max_size resized m cnt (n # nds) = filter_loop max_size resized m' (cnt + 1) nds" using Inr by simp
    then show ?thesis unfolding eq using Cons.IH[OF m'(1,3) nd] by simp
  next
    case (Inl em)
    then show ?thesis using ins Cons.prems(6) by (cases em) (auto split: map_error.splits)
  qed
qed

lemma filter_chain_sub: "mset (filter_chain call c) \<subseteq># mset c"
  by (induction c) (auto split: option.split intro: subset_mset.trans)

lemma filter_chain_total:
  "\<forall>n\<in>set c. call (nd_key n) (nd_val n) \<noteq> None \<Longrightarrow>
   filter_chain call c = filter (\<lambda>n. case call (nd_key n) (nd_val n) of
     Some ret \<Rightarrow> sv_type ret \<noteq> T_NUMBER \<or> sv_bits ret \<noteq> 0 | None \<Rightarrow> False) c"
  by (induction c) auto

text \<open>The nodes that a composition keeps.\<close>

definition composed :: "mapping \<Rightarrow> mnode \<Rightarrow> mnode option" where
  "composed m2 n = map_option (\<lambda>v. n\<lparr>nd_val := v\<rparr>) (vmap m2 (sv_bits (nd_val n)))"

lemma compose_chain_eq:
  assumes "map_wf m2" "\<forall>n\<in>set c. sv_type (nd_val n) \<noteq> T_REAL"
  shows "compose_chain m2 c = List.map_filter (composed m2) c"
  using assms(2)
proof (induction c)
  case (Cons n c)
  obtain k where "table_inv k 0 m2" using assms(1) by (auto simp: map_wf_def)
  then show ?case using Cons find_same(2)[of k 0 m2 "nd_val n"]
    by (auto simp: composed_def vmap_def List.map_filter_simps split: option.split)
qed (simp add: List.map_filter_simps)

lemma composed_key: "composed m2 n = Some n' \<Longrightarrow> nd_key n' = nd_key n"
  by (auto simp: composed_def)

lemma composed_keys: "set (map key_bits (List.map_filter (composed m2) xs)) \<subseteq> set (map key_bits xs)"
  by (induction xs) (auto simp: List.map_filter_simps composed_key split: option.splits)

lemma composed_distinct: "distinct (map key_bits xs) \<Longrightarrow> distinct (map key_bits (List.map_filter (composed m2) xs))"
  using composed_keys by (induction xs) (fastforce simp: List.map_filter_simps composed_key split: option.splits)+

lemma composed_map:
  assumes "distinct (map key_bits xs)"
  shows "node_map (List.map_filter (composed m2) xs) b = Option.bind (node_map xs b) (\<lambda>v. vmap m2 (sv_bits v))"
  using assms
proof (induction xs)
  case (Cons n xs)
  have "key_bits n \<notin> dom (node_map xs)" "key_bits n \<notin> dom (node_map (List.map_filter (composed m2) xs))"
    using Cons.prems composed_keys[of m2 xs] unfolding dom_node_map by auto
  then show ?case using Cons by (auto simp: List.map_filter_simps node_map_def composed_def split: option.split)
qed (simp add: node_map_def List.map_filter_simps)

lemma concat_map_filter: "concat (map (List.map_filter f) xss) = List.map_filter f (concat xss)"
  by (induction xss) (auto simp: List.map_filter_def)

lemma filled_emptied:
  "(\<And>c. c = [] \<Longrightarrow> f c = []) \<Longrightarrow>
   filled (map f tab) + length (filter (\<lambda>(c, c'). c \<noteq> [] \<and> c' = []) (zip tab (map f tab))) = filled tab"
  by (induction tab) (auto simp: filled_def)

lemma compose_mapping_wf:
  fixes m1 m2 :: mapping and flag :: bool
  assumes "map_wf m1" "map_wf m2" "\<forall>n\<in>ht_nodes (mp_table m1). sv_type (nd_val n) \<noteq> T_REAL" "mp_count m1 < 65536"
  defines "m' \<equiv> compose_mapping m1 m2 flag"
  shows "map_wf m'" "vmap m' b = Option.bind (vmap m1 b) (\<lambda>v. vmap m2 (sv_bits v))"
proof -
  let ?m = "if flag then copyMapping m1 else m1"
  let ?f = "List.map_filter (composed m2)"
  have w: "map_wf ?m" "vmap ?m = vmap m1" "mp_count ?m < 65536" using assms(1,4) copyMapping_wf[OF assms(1)] by simp_all
  have v: "\<forall>c\<in>set (mp_table ?m). \<forall>n\<in>set c. sv_type (nd_val n) \<noteq> T_REAL"
    using assms(3) by (auto simp: ht_nodes_def copyMapping_table)
  have "map (compose_chain m2) (mp_table ?m) = map ?f (mp_table ?m)"
    using v compose_chain_eq[OF assms(2)] by (intro map_cong) auto
  note tab = this
  let ?t = "mp_table ?m"
  obtain k where k: "table_inv k 0 ?m" "mp_count ?m = int (length (concat ?t))" using w(1) by (auto simp: map_wf_def)
  let ?e = "length (filter (\<lambda>(c, c'). c \<noteq> [] \<and> c' = []) (zip ?t (map ?f ?t)))"
  let ?d = "length (concat ?t) - length (concat (map ?f ?t))"
  have m': "m' = ?m\<lparr>mp_table := map ?f ?t, mp_unfilled := mp_unfilled ?m + of_nat ?e, mp_count := mp_count ?m - int (unat (of_nat ?d :: u16))\<rparr>"
    unfolding m'_def compose_mapping_def Let_def tab ..
  have dist: "distinct (map key_bits (concat ?t))" using k(1) by (auto simp: table_inv_def ht_inv_def)
  have le: "length (List.map_filter g xs) \<le> length xs" for g :: "mnode \<Rightarrow> mnode option" and xs
    by (simp add: List.map_filter_def)
  have "?d < 2 ^ LENGTH(16)" using w(3) k(2) by simp
  then have "unat (of_nat ?d :: u16) = ?d" by (rule unat_of_nat_lt)
  then have cnt: "mp_count m' = int (length (concat (mp_table m')))"
    using k(2) le[of "composed m2" "concat ?t"] by (simp add: m' concat_map_filter)
  have fe: "filled (map ?f ?t) + ?e = filled ?t" by (rule filled_emptied) (simp add: List.map_filter_simps)
  have "unat (mp_unfilled ?m) + filled ?t \<le> fill_limit k" "k \<le> 16" using k(1) by (auto simp: table_inv_def)
  then have lt: "unat (mp_unfilled ?m) + ?e < 2 ^ LENGTH(16)"
    using fe fill_limit_le(2)[of k] power_increasing[of k 16 "2 :: nat"] by simp
  then have ue: "unat (of_nat ?e :: u16) = ?e" by (intro unat_of_nat_lt) simp
  have un: "unat (mp_unfilled ?m + of_nat ?e) = unat (mp_unfilled ?m) + ?e"
    using lt ue by (simp only: unat_plus_if' if_True)
  have sub: "key_bits ` set (?f c) \<subseteq> key_bits ` set c" for c using composed_keys[of m2 c] by simp
  have "bidx k (key_bits x) = i" if "i < length ?t" "x \<in> set (?f (?t ! i))" for i x
  proof -
    have "key_bits x \<in> key_bits ` set (?t ! i)" using sub that(2) by blast
    then show ?thesis using k(1) that(1) by (auto simp: table_inv_def ht_inv_def)
  qed
  then have "ht_inv (bidx k) key_bits (map ?f ?t)"
    using composed_distinct[OF dist] by (simp add: ht_inv_def concat_map_filter)
  moreover have "\<exists>n\<in>ht_nodes ?t. nd_key n = nd_key x" if "x \<in> ht_nodes (map ?f ?t)" for x
    using that composed_key by (fastforce simp: ht_nodes_def List.map_filter_def)
  then have "\<forall>n\<in>ht_nodes (map ?f ?t). sv_type (nd_key n) \<noteq> T_REAL" using k(1) by (metis table_inv_def)
  ultimately have "table_inv k 0 m'" using k(1) fe un by (simp add: m' table_inv_def)
  then show "map_wf m'" using cnt by (auto simp: map_wf_def)
  show "vmap m' b = Option.bind (vmap m1 b) (\<lambda>v. vmap m2 (sv_bits v))"
    unfolding w(2)[symmetric] vmap_find[of m'] vmap_find[of ?m] by (simp add: m' concat_map_filter composed_map[OF dist])
qed

text \<open>A filter whose callback can always be called keeps exactly the pairs it accepts; it never finds the
  result too large.\<close>

lemma filter_mapping_wf:
  assumes "map_wf m" "max_size < 65536" "mp_count m \<le> int max_size" "\<And>k v. call k v \<noteq> None"
  shows "case filter_mapping max_size resized call ref m of
     Inr m' \<Rightarrow> map_wf m' \<and> vmap m' = node_map (filter (\<lambda>n. case call (nd_key n) (nd_val n) of
       Some ret \<Rightarrow> sv_type ret \<noteq> T_NUMBER \<or> sv_bits ret \<noteq> 0 | None \<Rightarrow> False)
       (nodes_of (if ref > 1 then copyMapping m else m)))
   | Inl (e, m') \<Rightarrow> e = OutOfMemory"
proof -
  let ?m = "if ref > 1 then copyMapping m else m"
  let ?P = "\<lambda>n. case call (nd_key n) (nd_val n) of Some ret \<Rightarrow> sv_type ret \<noteq> T_NUMBER \<or> sv_bits ret \<noteq> 0 | None \<Rightarrow> False"
  let ?nds = "filter ?P (nodes_of ?m)" and ?new = "allocate_mapping max_size 0"
  have w: "map_wf ?m" "mp_count ?m \<le> int max_size" using assms(1,3) copyMapping_wf[OF assms(1)] by simp_all
  have "filter_chain call c = filter ?P c" for c using filter_chain_total assms(4) by blast
  then have fc: "filter_chain call = filter ?P" by (intro ext)
  have eq: "filter_mapping max_size resized call ref m = filter_loop max_size resized ?new 0 ?nds"
    unfolding filter_mapping_def Let_def fc nodes_of_def filter_concat ..
  obtain k where k: "table_inv k 0 ?new" using allocate_mapping_wf(4)[OF assms(2)] by blast
  have ms: "mset (nodes_of ?m) = mset (concat (mp_table ?m))" unfolding nodes_of_def by (rule mset_concat_rev)
  have "distinct (map key_bits (concat (mp_table ?m)))" using w(1) by (auto simp: map_wf_def table_inv_def ht_inv_def)
  then have "distinct (map key_bits (nodes_of ?m))" unfolding distinct_map_mset[OF ms] .
  then have d: "distinct (map key_bits ?nds)" by (rule distinct_map_filter)
  have r: "\<forall>n\<in>set ?nds. sv_type (nd_key n) \<noteq> T_REAL" using vmap_nodes_of(3)[OF w(1)] by auto
  have "length ?nds \<le> length (concat (mp_table ?m))" 
    using length_filter_le[of ?P "nodes_of ?m"] arg_cong[OF ms, of size] by (simp only: size_mset)
  then have "0 + int (length ?nds) \<le> int max_size" using w by (simp add: map_wf_def)
  note len = this
  note al = allocate_mapping_wf[OF assms(2), of 0]
  have "key_bits ` set ?nds \<inter> dom (vmap ?new) = {}" by (simp add: al(3))
  note dj = this
  have "0 = int (length (concat (mp_table ?new)))" by (simp only: al(5)) simp
  note fl = filter_loop_wf[OF k this r d dj len, where resized = resized, unfolded al(3) empty_map_add]
  show ?thesis unfolding eq by (rule fl)
qed

section \<open>Properties\<close>

text \<open>C2. \<open>find_for_insert\<close> on every branch.  On a well-formed mapping (keys distinct and in their buckets, the
  count exact, \<open>unfilled\<close> positive and within the fill limit) it finds the node of the key and changes nothing, or
  enters a new node with the undefined value, doubling the table when needed, and the mapping stays well-formed;
  at the size limit it raises the error with all pairs kept; it runs out of memory only when the table is to
  double and cannot.\<close>

theorem find_for_insert_correct:
  assumes "map_wf m" and "sv_type lv \<noteq> T_REAL"
  shows "case find_for_insert max_size resized m lv of
     Inr (key, m') \<Rightarrow> map_wf m' \<and> sv_bits key = sv_bits lv \<and>
       (case mmap m (sv_bits lv) of
          Some n \<Rightarrow> m' = m \<and> key = nd_key n
        | None \<Rightarrow> mp_count m < int max_size \<and> key = lv \<and>
            mmap m' = (mmap m)(sv_bits lv \<mapsto> \<lparr>nd_key = lv, nd_val = const0u\<rparr>))
   | Inl (TooLarge, m') \<Rightarrow> int max_size \<le> mp_count m \<and> mmap m (sv_bits lv) = None \<and> map_wf m' \<and> mmap m' = mmap m
   | Inl (OutOfMemory, m') \<Rightarrow> mmap m (sv_bits lv) = None \<and> mp_unfilled m = 1 \<and> growMap resized m' = None \<and>
       m' = m\<lparr>mp_unfilled := 0\<rparr>"
  using assms by (rule find_for_insert_wf)

lemma new_mapping_insert:
  assumes "sv_type lv \<noteq> T_REAL"
  shows "\<exists>m'. find_for_insert 15000 True (allocate_mapping 15000 0) lv = Inr (lv, m')"
proof -
  have "bucket (allocate_mapping 15000 0) lv < 8"
    using bucket_bidx[of "allocate_mapping 15000 0" 3 lv] bidx_less[of 3]
    by (simp add: allocate_mapping_def Let_def MAP_HASH_TABLE_SIZE_def)
  then show ?thesis
    by (simp add: find_for_insert_def insert_node_def claim_bucket_def Let_def allocate_mapping_def
        MAP_HASH_TABLE_SIZE_def FILL_PERCENT_def)
qed

theorem find_for_insert_correct_witness:
  "\<exists>m'. find_for_insert 15000 True (allocate_mapping 15000 0) (sv_number 5) = Inr (sv_number 5, m') \<and> map_wf m' \<and>
     mmap m' = [5 \<mapsto> \<lparr>nd_key = sv_number 5, nd_val = const0u\<rparr>]"
proof -
  have t: "sv_type (sv_number 5) \<noteq> T_REAL" by (simp add: sv_number_def T_NUMBER_def T_REAL_def)
  obtain m' where m': "find_for_insert 15000 True (allocate_mapping 15000 0) (sv_number 5) = Inr (sv_number 5, m')"
    using new_mapping_insert[OF t] by blast
  have w: "map_wf (allocate_mapping 15000 0)" "mmap (allocate_mapping 15000 0) = Map.empty"
    by (simp_all add: allocate_mapping_wf)
  show ?thesis using find_for_insert_correct[OF w(1) t, where max_size = 15000 and resized = True] m' w(2) by (auto simp: sv_number_def)
qed

text \<open>A mapping with one pair.\<close>

lemma one_pair_mapping:
  assumes "sv_type key \<noteq> T_REAL"
  obtains m where "map_wf m" "mmap m = [sv_bits key \<mapsto> \<lparr>nd_key = key, nd_val = v\<rparr>]" "mp_count m = 1"
proof -
  have w: "map_wf (allocate_mapping 15000 0)" "mmap (allocate_mapping 15000 0) = Map.empty"
    by (simp_all add: allocate_mapping_wf)
  obtain m' where m': "find_for_insert 15000 True (allocate_mapping 15000 0) key = Inr (key, m')"
    using new_mapping_insert[OF assms] by blast
  then have i: "map_wf m'" "mmap m' = [sv_bits key \<mapsto> \<lparr>nd_key = key, nd_val = const0u\<rparr>]"
    using find_for_insert_wf[OF w(1) assms, where max_size = 15000 and resized = True] w(2) by auto
  obtain k where k: "table_inv k 0 m'" "mp_count m' = int (length (concat (mp_table m')))" using i(1) by (auto simp: map_wf_def)
  have sv: "table_inv k 0 (set_value m' key v)" "mmap (set_value m' key v) = [sv_bits key \<mapsto> \<lparr>nd_key = key, nd_val = v\<rparr>]"
      "length (concat (mp_table (set_value m' key v))) = length (concat (mp_table m'))"
    using set_value_inv[OF k(1) assms, of "\<lparr>nd_key = key, nd_val = const0u\<rparr>" v] i(2) by simp_all
  then have wf: "map_wf (set_value m' key v)" using k(2) by (auto simp: map_wf_def)
  have "dom (vmap (set_value m' key v)) = {sv_bits key}" using sv(2) by (auto simp: vmap_def dom_def split: if_splits)
  then have "mp_count (set_value m' key v) = 1" using card_vmap[OF wf] by simp
  then show ?thesis using that[OF wf sv(2)] by blast
qed

lemma number_mapping:
  obtains m where "map_wf m" "mmap m = [word_of_int a \<mapsto> \<lparr>nd_key = sv_number a, nd_val = sv_number b\<rparr>]"
    "vmap m = [word_of_int a \<mapsto> sv_number b]" "mp_count m = 1"
proof -
  have r: "sv_type (sv_number n) \<noteq> T_REAL" for n by (simp add: sv_number_def T_NUMBER_def T_REAL_def)
  obtain m where m: "map_wf m" "mmap m = [sv_bits (sv_number a) \<mapsto> \<lparr>nd_key = sv_number a, nd_val = sv_number b\<rparr>]" "mp_count m = 1"
    by (rule one_pair_mapping[OF r])
  have "vmap m = [word_of_int a \<mapsto> sv_number b]" by (auto simp: vmap_def fun_eq_iff m(2) sv_number_def)
  then show ?thesis using that m by (simp add: sv_number_def)
qed

text \<open>C5. The sum of two mappings: \<open>add_mapping\<close> copies the larger operand and enters the nodes of the other,
  and in both cases the result holds exactly the pairs of both, the right operand winning on common keys; it is
  refused as too large only when the union has more keys than the limit.\<close>

theorem add_mapping_correct:
  assumes "map_wf m1" and "map_wf m2"
  shows "case add_mapping max_size resized m1 m2 of
     Inr m' \<Rightarrow> map_wf m' \<and> vmap m' = vmap m1 ++ vmap m2
   | Inl (e, m') \<Rightarrow> e = TooLarge \<longrightarrow> int max_size < int (card (dom (vmap m1) \<union> dom (vmap m2)))"
proof -
  have add: "case add_loop ow max_size resized (copyMapping m) (mp_count (copyMapping m)) (nodes_of n) of
     Inr m' \<Rightarrow> map_wf m' \<and> vmap m' = union_map ow (vmap m) (nodes_of n)
   | Inl (e, m') \<Rightarrow> e = TooLarge \<longrightarrow> map_wf m' \<and> int max_size < int (card (dom (union_map ow (vmap m) (nodes_of n))))"
    if "map_wf m" "map_wf n" for ow m n
  proof -
    have w: "map_wf (copyMapping m)" by (rule copyMapping_wf(1)[OF that(1)])
    then obtain k where k: "table_inv k 0 (copyMapping m)" "mp_count (copyMapping m) = int (length (concat (mp_table (copyMapping m))))"
      by (auto simp: map_wf_def)
    show ?thesis using add_loop_wf[OF k vmap_nodes_of(3)[OF that(2)]] unfolding copyMapping_wf(3)[OF that(1)] .
  qed
  have z: "vmap m = Map.empty" if "map_wf m" "mp_count m = 0" for m
    using that vmap_find[of m] by (simp add: map_wf_def node_map_def)
  have u: "union_map True (vmap m1) (nodes_of m2) = vmap m1 ++ vmap m2" "union_map False (vmap m2) (nodes_of m1) = vmap m1 ++ vmap m2"
    by (simp_all add: union_map_def vmap_nodes_of[OF assms(1)] vmap_nodes_of[OF assms(2)])
  have d: "dom (vmap m1 ++ vmap m2) = dom (vmap m1) \<union> dom (vmap m2)" by auto
  note cp = copyMapping_wf(1,3)[OF assms(1)] copyMapping_wf(1,3)[OF assms(2)]
  consider "mp_count m1 \<ge> mp_count m2" "mp_count m2 \<noteq> 0" | "mp_count m1 \<ge> mp_count m2" "mp_count m2 = 0"
    | "mp_count m1 < mp_count m2" "mp_count m1 \<noteq> 0" | "mp_count m1 < mp_count m2" "mp_count m1 = 0" by linarith
  then show ?thesis
  proof cases
    case 1
    then have "add_mapping max_size resized m1 m2 = add_to_mapping max_size resized (copyMapping m1) m2" by (simp add: add_mapping_def)
    then show ?thesis using add[OF assms, of True] unfolding u d add_to_mapping_def by (simp split: sum.splits prod.splits)
  next
    case 2
    then show ?thesis using cp z[OF assms(2)] by (simp add: add_mapping_def)
  next
    case 3
    then have "add_mapping max_size resized m1 m2 = unique_add_to_mapping max_size resized (copyMapping m2) m1" by (simp add: add_mapping_def)
    then show ?thesis using add[OF assms(2,1), of False] unfolding u d unique_add_to_mapping_def by (simp split: sum.splits prod.splits)
  next
    case 4
    then show ?thesis using cp z[OF assms(1)] by (simp add: add_mapping_def)
  qed
qed

theorem add_mapping_correct_witness:
  "\<exists>m1 m2. vmap m1 = [1 \<mapsto> sv_number 2] \<and> vmap m2 = [3 \<mapsto> sv_number 4] \<and>
     (case add_mapping 15000 True m1 m2 of
        Inr m' \<Rightarrow> map_wf m' \<and> vmap m' = [1 \<mapsto> sv_number 2, 3 \<mapsto> sv_number 4]
      | Inl (e, m') \<Rightarrow> e \<noteq> TooLarge)"
proof -
  obtain m1 where m1: "map_wf m1" "vmap m1 = [1 \<mapsto> sv_number 2]" by (rule number_mapping[of 1 2]) simp
  obtain m2 where m2: "map_wf m2" "vmap m2 = [3 \<mapsto> sv_number 4]" by (rule number_mapping[of 3 4]) simp
  have "vmap m1 ++ vmap m2 = [1 \<mapsto> sv_number 2, 3 \<mapsto> sv_number 4]" "card (dom (vmap m1) \<union> dom (vmap m2)) = 2"
    by (simp_all add: m1(2) m2(2))
  with add_mapping_correct[OF m1(1) m2(1), where max_size = 15000 and resized = True]
  have "case add_mapping 15000 True m1 m2 of
        Inr m' \<Rightarrow> map_wf m' \<and> vmap m' = [1 \<mapsto> sv_number 2, 3 \<mapsto> sv_number 4]
      | Inl (e, m') \<Rightarrow> e \<noteq> TooLarge"
    by (simp split: sum.splits prod.splits)
  then show ?thesis using m1(2) m2(2) by blast
qed



text \<open>C33. The key of a mapping is compared by its 64 bits alone: after a value is assigned under an object (or
  any pointer), the number with the bits of that pointer reads the value back.\<close>

theorem mapping_key_type_confusion:
  assumes "map_wf m" and "sv_type ptr \<noteq> T_REAL" and "find_for_insert max_size resized m ptr = Inr (key, m')"
  shows "find_in_mapping (set_value m' key v) \<lparr>sv_type = T_NUMBER, sv_subtype = 0, sv_bits = sv_bits ptr\<rparr> = v"
proof -
  let ?n = "\<lparr>sv_type = T_NUMBER, sv_subtype = 0, sv_bits = sv_bits ptr\<rparr>"
  note f = find_for_insert_wf[OF assms(1,2), where max_size = max_size and resized = resized, unfolded assms(3), simplified]
  have key: "sv_bits key = sv_bits ptr" "map_wf m'" using f by auto
  have "\<exists>n. mmap m' (sv_bits ptr) = Some n \<and> key = nd_key n" using f by (cases "mmap m (sv_bits ptr)") auto
  then obtain n where n: "mmap m' (sv_bits key) = Some n" "key = nd_key n" unfolding key(1)[symmetric] by blast
  obtain k where k: "table_inv k 0 m'" "mp_count m' = int (length (concat (mp_table m')))" using key(2) by (auto simp: map_wf_def)
  have "n \<in> ht_nodes (mp_table m')" using n(1) k(1) ht_map_some[of "bidx k" key_bits "mp_table m'"] by (auto simp: table_inv_def)
  then have r: "sv_type key \<noteq> T_REAL" using k(1) n(2) by (auto simp: table_inv_def)
  note sv = set_value_inv[OF k(1) r n(1), of v]
  have "map_wf (set_value m' key v)" using sv k(2) by (auto simp: map_wf_def)
  then have "find_in_mapping (set_value m' key v) ?n = (case vmap (set_value m' key v) (sv_bits ptr) of Some v \<Rightarrow> v | None \<Rightarrow> const0u)"
    using find_in_mapping_wf(1)[of "set_value m' key v" ?n] by (simp add: T_NUMBER_def T_REAL_def)
  then show ?thesis using sv(2) key(1) by (simp add: vmap_def)
qed

theorem mapping_key_type_confusion_witness:
  "\<exists>key m'. find_for_insert 15000 True (allocate_mapping 15000 0) \<lparr>sv_type = 0x10, sv_subtype = 0, sv_bits = 4096\<rparr> = Inr (key, m') \<and>
     find_in_mapping (set_value m' key (sv_number 7)) \<lparr>sv_type = T_NUMBER, sv_subtype = 0, sv_bits = 4096\<rparr> = sv_number 7"
proof -
  let ?ob = "\<lparr>sv_type = 0x10, sv_subtype = 0, sv_bits = 4096\<rparr>"
  have r: "sv_type ?ob \<noteq> T_REAL" by (simp add: T_REAL_def)
  obtain m' where m': "find_for_insert 15000 True (allocate_mapping 15000 0) ?ob = Inr (?ob, m')"
    using new_mapping_insert[OF r] by blast
  have w: "map_wf (allocate_mapping 15000 0)" by (simp add: allocate_mapping_wf)
  from mapping_key_type_confusion[OF w r m', of "sv_number 7"] m' show ?thesis by auto
qed

text \<open>A refused insertion is not free of effects: at the size limit an insertion into an empty bucket uses up
  one unfilled bucket, and when it was the last one the table is doubled, although no pair is added.\<close>

theorem refused_insert_uses_unfilled:
  assumes "map_wf m" and "sv_type lv \<noteq> T_REAL" and "mmap m (sv_bits lv) = None" and "mp_count m = int max_size"
    and "mp_table m ! bucket m lv = []"
  shows "(mp_unfilled m \<noteq> 1 \<longrightarrow>
      find_for_insert max_size resized m lv = Inl (TooLarge, m\<lparr>mp_unfilled := mp_unfilled m - 1\<rparr>)) \<and>
    (\<forall>m'. mp_unfilled m = 1 \<longrightarrow> growMap resized (m\<lparr>mp_unfilled := 0\<rparr>) = Some m' \<longrightarrow>
      find_for_insert max_size resized m lv = Inl (TooLarge, m') \<and> length (mp_table m') = 2 * length (mp_table m))"
proof -
  obtain k where k: "table_inv k 0 m" using assms(1) by (auto simp: map_wf_def)
  note f = find_same(2)[OF k assms(2)]
  have "find_for_insert max_size resized m lv = Inl (TooLarge, m\<lparr>mp_unfilled := mp_unfilled m - 1\<rparr>)" if "mp_unfilled m \<noteq> 1"
    using assms f that by (simp add: find_for_insert_def insert_node_def claim_bucket_def Let_def)
  moreover have "find_for_insert max_size resized m lv = Inl (TooLarge, m') \<and> length (mp_table m') = 2 * length (mp_table m)"
    if u: "mp_unfilled m = 1" and g: "growMap resized (m\<lparr>mp_unfilled := 0\<rparr>) = Some m'" for m'
    using assms f k growMap_inv(1)[OF k u g] u g
    by (simp add: find_for_insert_def insert_node_def claim_bucket_def Let_def table_inv_def)
  ultimately show ?thesis by blast
qed

theorem refused_insert_uses_unfilled_witness:
  "find_for_insert 0 True (allocate_mapping 0 0) (sv_number 0) =
     Inl (TooLarge, (allocate_mapping 0 0)\<lparr>mp_unfilled := 5\<rparr>)"
proof -
  let ?m = "allocate_mapping 0 0"
  have w: "map_wf ?m" "mmap ?m = Map.empty" by (simp_all add: allocate_mapping_wf)
  have b: "mp_table ?m ! bucket ?m (sv_number 0) = []" "mp_unfilled ?m = 6" "mp_count ?m = int 0"
    using bucket_bidx[of ?m 3 "sv_number 0"] bidx_less[of 3]
    by (simp_all add: allocate_mapping_def Let_def MAP_HASH_TABLE_SIZE_def FILL_PERCENT_def)
  have "sv_type (sv_number 0) \<noteq> T_REAL" by (simp add: sv_number_def T_NUMBER_def T_REAL_def)
  from refused_insert_uses_unfilled[OF w(1) this _ b(3,1), of True] w(2) b(2) show ?thesis by simp
qed

end
