(* ===== verification/Mapping_Strings.thy ===== *)
theory Mapping_Strings
  imports Lpc_Mapping String_Ptr
begin

text \<open>
  String keys of mappings (\<^verbatim>\<open>lib/lpc/mapping.c\<close>): before a string is hashed it is replaced by its shared copy,
  so that equal strings are one key; the functions with which the driver builds mappings and reads them back.
  The contents of a string outside the shared table are given by a function from its address.
\<close>

definition shared_sv :: "u64 \<Rightarrow> svalue" where
  "shared_sv p = \<lparr>sv_type = T_STRING, sv_subtype = STRING_SHARED, sv_bits = p\<rparr>"

definition svalue_to_int :: "(u64 \<Rightarrow> bytes) \<Rightarrow> strtab \<Rightarrow> svalue \<Rightarrow> u64 \<Rightarrow> u32 \<times> svalue \<times> strtab" where
  "svalue_to_int str t v fresh =
     (if sv_type v = T_STRING \<and> sv_subtype v \<noteq> STRING_SHARED
      then let (p, t') = make_shared_string t (Span (str (sv_bits v))) fresh; v' = shared_sv p
           in (sv_hash v', v', t')
      else (sv_hash v, v, t))"

definition find_string_in_mapping :: "strtab \<Rightarrow> mapping \<Rightarrow> bytes \<Rightarrow> svalue \<times> strtab" where
  "find_string_in_mapping t m p =
     (case findstring t (Cstr p) of
        (None, t') \<Rightarrow> (const0u, t')
      | (Some ss, t') \<Rightarrow>
          let i = (ucast (MAP_POINTER_HASH ss) :: u16) AND mp_table_size m
          in case find (\<lambda>n. sv_type (nd_key n) = T_STRING \<and> sv_bits (nd_key n) = ss) (mp_table m ! unat i) of
               Some n \<Rightarrow> (nd_val n, t')
             | None \<Rightarrow> (const0u, t'))"

text \<open>The key is hashed through its shared copy; a node that is entered takes a reference of its own, and the
  copy's reference is given back at the end.  An error leaves the reference behind.\<close>

definition insert_in_mapping ::
  "nat \<Rightarrow> bool \<Rightarrow> strtab \<Rightarrow> mapping \<Rightarrow> bytes \<Rightarrow> u64 \<Rightarrow> (map_error + svalue \<times> mapping \<times> strtab) option" where
  "insert_in_mapping max_size resized t m key fresh =
     (let (_, lv, t1) = svalue_to_int (\<lambda>_. key) t \<lparr>sv_type = T_STRING, sv_subtype = STRING_CONSTANT, sv_bits = 0\<rparr> fresh in
      case find_for_insert max_size resized m lv of
        Inl (e, _) \<Rightarrow> Some (Inl e)
      | Inr (slot, m') \<Rightarrow>
          Option.bind (if mp_count m' \<noteq> mp_count m then map_option snd (ref_string t1 (sv_bits lv)) else Some t1)
            (\<lambda>t2. map_option (\<lambda>t3. Inr (slot, m', t3)) (free_string t2 (sv_bits lv))))"

definition add_mapping_pair ::
  "nat \<Rightarrow> bool \<Rightarrow> strtab \<Rightarrow> mapping \<Rightarrow> bytes \<Rightarrow> int \<Rightarrow> u64 \<Rightarrow> (map_error + mapping \<times> strtab) option" where
  "add_mapping_pair max_size resized t m key value fresh =
     map_option (\<lambda>r. case r of Inl e \<Rightarrow> Inl e | Inr (slot, m', t') \<Rightarrow> Inr (set_value m' slot (sv_number value), t'))
       (insert_in_mapping max_size resized t m key fresh)"

definition add_mapping_string ::
  "nat \<Rightarrow> bool \<Rightarrow> strtab \<Rightarrow> mapping \<Rightarrow> bytes \<Rightarrow> bytes \<Rightarrow> u64 \<Rightarrow> u64 \<Rightarrow> (map_error + mapping \<times> strtab) option" where
  "add_mapping_string max_size resized t m key value fresh fresh' =
     map_option (\<lambda>r. case r of
         Inl e \<Rightarrow> Inl e
       | Inr (slot, m', t') \<Rightarrow>
           let (p, t'') = make_shared_string t' (Cstr value) fresh' in Inr (set_value m' slot (shared_sv p), t''))
       (insert_in_mapping max_size resized t m key fresh)"

text \<open>The object and the array are given by their addresses; their reference counts are not part of the model.\<close>

definition add_mapping_object ::
  "nat \<Rightarrow> bool \<Rightarrow> strtab \<Rightarrow> mapping \<Rightarrow> bytes \<Rightarrow> u64 \<Rightarrow> u64 \<Rightarrow> (map_error + mapping \<times> strtab) option" where
  "add_mapping_object max_size resized t m key ob fresh =
     map_option (\<lambda>r. case r of
         Inl e \<Rightarrow> Inl e
       | Inr (slot, m', t') \<Rightarrow> Inr (set_value m' slot \<lparr>sv_type = T_OBJECT, sv_subtype = 0, sv_bits = ob\<rparr>, t'))
       (insert_in_mapping max_size resized t m key fresh)"

definition add_mapping_array ::
  "nat \<Rightarrow> bool \<Rightarrow> strtab \<Rightarrow> mapping \<Rightarrow> bytes \<Rightarrow> u64 \<Rightarrow> u64 \<Rightarrow> (map_error + mapping \<times> strtab) option" where
  "add_mapping_array max_size resized t m key arr fresh =
     map_option (\<lambda>r. case r of
         Inl e \<Rightarrow> Inl e
       | Inr (slot, m', t') \<Rightarrow> Inr (set_value m' slot \<lparr>sv_type = T_ARRAY, sv_subtype = 0, sv_bits = arr\<rparr>, t'))
       (insert_in_mapping max_size resized t m key fresh)"

definition add_mapping_shared_string ::
  "nat \<Rightarrow> bool \<Rightarrow> strtab \<Rightarrow> mapping \<Rightarrow> bytes \<Rightarrow> u64 \<Rightarrow> u64 \<Rightarrow> (map_error + mapping \<times> strtab) option" where
  "add_mapping_shared_string max_size resized t m key value fresh =
     Option.bind (insert_in_mapping max_size resized t m key fresh)
       (\<lambda>r. case r of
         Inl e \<Rightarrow> Some (Inl e)
       | Inr (slot, m', t') \<Rightarrow>
           map_option (\<lambda>(p, t''). Inr (set_value m' slot (shared_sv p), t'')) (ref_string t' value))"

section \<open>Strings as keys\<close>

text \<open>\<open>findstring\<close> on the address map.\<close>

lemma findstring_ptr:
  assumes "strtab_wf t" "0 \<notin> set p"
  obtains t' where "findstring t (Cstr p) = (str_ptr t p, t')" "strtab_wf t'" "str_ptr t' = str_ptr t"
proof -
  have p: "takeWhile (\<lambda>c. c \<noteq> 0) p = p" using assms(2) by (simp add: takeWhile_eq_all_conv) blast
  obtain t' where "sfindblock t p (str_hash t p) = (smap t p, t')" "strtab_wf t'" "smap t' = smap t"
    using sfindblock_wf[OF assms(1), of p] by blast
  then show ?thesis using that[of t'] p by (simp add: findstring_def str_ptr_def fun_eq_iff)
qed

lemma find_unique:
  assumes "y \<in> set xs" "P y" "\<And>x. x \<in> set xs \<Longrightarrow> P x \<Longrightarrow> x = y"
  shows "find P xs = Some y"
proof (cases "find P xs")
  case None
  then show ?thesis using assms(1,2) by (simp add: find_None_iff)
next
  case (Some z)
  then have "z \<in> set xs" "P z" by (metis find_Some_iff nth_mem)+
  then show ?thesis using assms(3) Some by blast
qed

lemma short_index:
  assumes "table_inv k s m"
  shows "unat ((ucast (MAP_POINTER_HASH ss) :: u16) AND mp_table_size m) = bucket m (shared_sv ss)"
proof -
  have "mp_table_size m = of_nat (2 ^ k - 1)" "k \<le> 16" using assms by (auto simp: table_inv_def)
  then have sz: "mp_table_size m = mask k" by (simp add: mask_eq_exp_minus_1 of_nat_diff)
  have "unat ((ucast w :: u16) AND mask k) = take_bit k (unat (ucast w :: u32))" for w :: u64
    using \<open>k \<le> 16\<close> by (intro bit_eqI) (auto simp: bit_simps bit_unsigned_iff)
  then show ?thesis using table_invD(1)[OF assms, of "shared_sv ss"] by (simp add: sz bidx_def khash_def shared_sv_def)
qed

text \<open>A reference taken and one given back leave a live string alive.\<close>

lemma ref_free_ptr:
  assumes "strtab_wf t" "smap t s = Some b"
  obtains t2 t3 where "ref_string t (blk_ptr b) = Some (blk_ptr b, t2)" "free_string t2 (blk_ptr b) = Some t3"
    "strtab_wf t3" "str_ptr t3 = str_ptr t"
proof -
  have at: "block_at t (blk_ptr b) = Some b" using assms by (simp add: smap_iff block_at_iff)
  let ?t2 = "upd_block t (blk_ptr b) inc_refs"
  have inc: "\<And>b. blk_str (inc_refs b) = blk_str b" "\<And>b. blk_ptr (inc_refs b) = blk_ptr b" "\<And>b. blk_size (inc_refs b) = blk_size b"
    by (simp_all add: inc_refs_def)
  have t2: "strtab_wf ?t2" "smap ?t2 = (smap t)(s \<mapsto> inc_refs b)"
    using upd_block_wf(1)[OF assms(1) inc] upd_block_smap[OF assms inc] by simp_all
  then have "smap ?t2 s = Some (inc_refs b)" by simp
  from free_string_smap[OF t2(1) this] obtain t3 where t3: "free_string ?t2 (blk_ptr b) = Some t3" "strtab_wf t3"
      "smap t3 = (if blk_refs (inc_refs b) = 0 then smap ?t2 else if blk_refs (inc_refs b) = 1 then (smap ?t2)(s := None)
                  else (smap ?t2)(s \<mapsto> inc_refs b\<lparr>blk_refs := blk_refs (inc_refs b) - 1\<rparr>))"
    by (auto simp: inc)
  moreover have "blk_refs (inc_refs b) \<noteq> 1" by (simp add: inc_refs_def)
  ultimately have "str_ptr t3 = str_ptr t" using t2(2) assms(2) by (auto simp: str_ptr_def fun_eq_iff inc)
  then show ?thesis using that[of ?t2 t3] at t3 by (simp add: ref_string_def)
qed

text \<open>String keys of a mapping are live shared strings, and no key of another type has the bits of one.\<close>

definition keys_live :: "strtab \<Rightarrow> u64 \<Rightarrow> mapping \<Rightarrow> bool" where
  "keys_live t fresh m \<longleftrightarrow> (\<forall>n\<in>ht_nodes (mp_table m).
     (sv_type (nd_key n) = T_STRING \<longrightarrow> key_bits n \<in> ran (str_ptr t)) \<and>
     (key_bits n \<in> insert fresh (ran (str_ptr t)) \<longrightarrow> sv_type (nd_key n) = T_STRING))"

lemma insert_in_mapping_ptr:
  assumes "strtab_wf t" "map_wf m" "fresh \<notin> ran (str_ptr t)" "keys_live t fresh m" "interned t (Span key) = key"
  shows "\<exists>r. insert_in_mapping max_size resized t m key fresh = Some r \<and>
    (case r of Inl e \<Rightarrow> True
     | Inr (slot, m', t') \<Rightarrow> map_wf m' \<and> strtab_wf t' \<and> str_ptr t' key = Some (sv_bits slot) \<and> sv_type slot = T_STRING \<and>
         (\<exists>n. mmap m' (sv_bits slot) = Some n \<and> nd_key n = slot))"
proof -
  obtain p t1 where m1: "make_shared_string t (Span key) fresh = (p, t1)" "strtab_wf t1" "str_ptr t1 = (str_ptr t)(key \<mapsto> p)"
      "p = (case str_ptr t key of None \<Rightarrow> fresh | Some q \<Rightarrow> q)"
    using make_shared_ptr[OF assms(1,3), of "Span key"] assms(5) by metis
  let ?lv = "shared_sv p"
  have lv: "svalue_to_int (\<lambda>_. key) t \<lparr>sv_type = T_STRING, sv_subtype = STRING_CONSTANT, sv_bits = 0\<rparr> fresh = (sv_hash ?lv, ?lv, t1)"
    using m1(1) by (simp add: svalue_to_int_def STRING_CONSTANT_def STRING_SHARED_def Let_def)
  have r: "sv_type ?lv \<noteq> T_REAL" "sv_bits ?lv = p" "sv_type ?lv = T_STRING"
    by (simp_all add: shared_sv_def T_STRING_def T_REAL_def)
  note f = find_for_insert_wf[OF assms(2) r(1), where max_size = max_size and resized = resized, unfolded r(2)]
  show ?thesis
  proof (cases "find_for_insert max_size resized m ?lv")
    case (Inl em)
    then show ?thesis by (cases em) (simp add: insert_in_mapping_def lv)
  next
    case (Inr sm)
    obtain slot m' where sm: "sm = (slot, m')" by fastforce
    note f' = f[unfolded Inr sm sum.case prod.case]
    show ?thesis
    proof (cases "mmap m p")
      case (Some n)
      then have n: "m' = m" "slot = nd_key n" "key_bits n = p" using f' by auto
      obtain k where "ht_inv (bidx k) key_bits (mp_table m)" using assms(2) by (auto simp: map_wf_def table_inv_def)
      then have "n \<in> ht_nodes (mp_table m)" using ht_map_some Some by fastforce
      moreover have "p = fresh \<or> p \<in> ran (str_ptr t)" using m1(4) by (auto simp: ran_def split: option.splits)
      ultimately have "sv_type (nd_key n) = T_STRING" "p \<in> ran (str_ptr t)" using assms(4) n(3) by (auto simp: keys_live_def)
      moreover have "str_ptr t key = Some p" using m1(4) assms(3) calculation(2) by (cases "str_ptr t key") auto
      moreover obtain t3 where "free_string t1 p = Some t3" "strtab_wf t3" "str_ptr t3 = str_ptr t"
        using make_free_ptr[OF assms(1,3) _ m1(1)] calculation(3) assms(5) by metis
      ultimately show ?thesis using Inr sm n Some assms(2) by (simp add: insert_in_mapping_def lv r(2))
    next
      case None
      then have n: "map_wf m'" "slot = ?lv" "mmap m' = (mmap m)(p \<mapsto> \<lparr>nd_key = ?lv, nd_val = const0u\<rparr>)" using f' by auto
      have "finite (dom (vmap m))" unfolding vmap_find dom_node_map by simp
      moreover have "dom (vmap m') = insert p (dom (vmap m))" "p \<notin> dom (vmap m)"
        using n(3) None by (auto simp: vmap_def dom_def)
      ultimately have "mp_count m' \<noteq> mp_count m" using card_vmap[OF n(1)] card_vmap[OF assms(2)] by simp
      moreover have "str_ptr t1 key = Some p" using m1(3) by simp
      then obtain b where b: "smap t1 key = Some b" "p = blk_ptr b" by (auto simp: str_ptr_def)
      obtain t2 t3 where t3: "ref_string t1 p = Some (p, t2)" "free_string t2 p = Some t3" "strtab_wf t3" "str_ptr t3 = str_ptr t1"
        using ref_free_ptr[OF m1(2) b(1)] b(2) by metis
      ultimately show ?thesis using Inr sm n m1(3) r by (simp add: insert_in_mapping_def lv)
    qed
  qed
qed

section \<open>Properties\<close>


lemma new_mapping_nodes: "ht_nodes (mp_table (allocate_mapping 15000 0)) = {}"
  by (simp add: ht_nodes_def allocate_mapping_wf del: set_concat)


end
