(* ===== verification/Call_Out.thy ===== *)
theory Call_Out
  imports Svalue
begin

text \<open>
  Delayed calls (\<^verbatim>\<open>src/call_out.cpp\<close>): a wheel of \<open>CALLOUT_CYCLE_SIZE\<close> slots (a build option, here the length of the
  list of slots), each a list of pending calls in which \<open>delta\<close> counts the turns of the wheel after the call
  before.  Times are integers; the results of type \<open>int\<close> are narrowed to 32 bits.  Which objects are destructed
  and what a call does to the pending calls are arguments.  The free list of call structures is left out.
\<close>

section \<open>The wheel\<close>

datatype callee = Named u64 bytes | FunPtr u64 u64

record pending_call =
  delta :: int
  callee :: callee
  call_args :: "svalue list"
  handle :: int

record wheel =
  call_list :: "pending_call list list"
  call_out_time :: int
  unique :: int

definition slot_of :: "wheel \<Rightarrow> int \<Rightarrow> int" where
  "slot_of w t = t AND (int (length (call_list w)) - 1)"

text \<open>The walk along a slot with the remaining delay.\<close>

fun delta_insert :: "pending_call \<Rightarrow> int \<Rightarrow> pending_call list \<Rightarrow> pending_call list" where
  "delta_insert cop delay [] = [cop\<lparr>delta := delay\<rparr>]"
| "delta_insert cop delay (c # cs) =
     (if delta c \<ge> delay then cop\<lparr>delta := delay\<rparr> # c\<lparr>delta := delta c - delay\<rparr> # cs
      else c # delta_insert cop (delay - delta c) cs)"

definition new_call_out :: "int \<Rightarrow> wheel \<Rightarrow> callee \<Rightarrow> svalue list \<Rightarrow> int \<Rightarrow> int \<times> wheel" where
  "new_call_out current_time w0 f vs delay0 =
     (let delay = (if delay0 < 1 then 1 else delay0);
          w = (if call_out_time w0 = 0 then w0\<lparr>call_out_time := current_time\<rparr> else w0);
          cyc = int (length (call_list w));
          tm = slot_of w (delay + current_time);
          turns = 1 + c_div (delay + current_time - call_out_time w - 1) cyc;
          u = to_int32 (unique w + 1);
          h = to_int32 (tm + cyc * u);
          cop = \<lparr>delta = turns, callee = f, call_args = vs, handle = h\<rparr>
      in (h, w\<lparr>call_list := (call_list w)[nat tm := delta_insert cop turns (call_list w ! nat tm)], unique := u\<rparr>))"

section \<open>Running the calls that are due\<close>

text \<open>Arguments that are destructed objects become 0.\<close>

definition const0 :: svalue where "const0 = \<lparr>sv_type = T_NUMBER, sv_subtype = 0, sv_bits = 0\<rparr>"

definition clean_args :: "(u64 \<Rightarrow> bool) \<Rightarrow> svalue list \<Rightarrow> svalue list" where
  "clean_args destructed vs = map (\<lambda>v. if sv_type v = T_OBJECT \<and> destructed (sv_bits v) then const0 else v) vs"

definition callee_destructed :: "(u64 \<Rightarrow> bool) \<Rightarrow> callee \<Rightarrow> bool" where
  "callee_destructed destructed f = (case f of Named ob _ \<Rightarrow> destructed ob | FunPtr _ _ \<Rightarrow> False)"

text \<open>The inner loop over the calls of one slot; the log holds the calls that were made.  An empty slot cannot be
  popped (\<open>None\<close>); the fuel bounds the number of calls.\<close>

fun run_slot ::
  "nat \<Rightarrow> (u64 \<Rightarrow> bool) \<Rightarrow> (pending_call \<Rightarrow> wheel \<Rightarrow> wheel) \<Rightarrow> nat \<Rightarrow> wheel \<Rightarrow> pending_call list \<Rightarrow>
   (wheel \<times> pending_call list) option" where
  "run_slot 0 destructed exec tm w log = None"
| "run_slot (Suc fuel) destructed exec tm w log =
     (case call_list w ! tm of
        [] \<Rightarrow> None
      | cop # rest \<Rightarrow>
          let w1 = w\<lparr>call_list := (call_list w)[tm := rest]\<rparr>;
              cop' = cop\<lparr>call_args := clean_args destructed (call_args cop)\<rparr>;
              (w2, log2) = (if callee_destructed destructed (callee cop) then (w1, log) else (exec cop' w1, log @ [cop']))
          in case call_list w2 ! tm of
               c # _ \<Rightarrow> if delta c = 0 then run_slot fuel destructed exec tm w2 log2 else Some (w2, log2)
             | [] \<Rightarrow> Some (w2, log2))"

definition tick ::
  "nat \<Rightarrow> (u64 \<Rightarrow> bool) \<Rightarrow> (pending_call \<Rightarrow> wheel \<Rightarrow> wheel) \<Rightarrow> wheel \<Rightarrow> (wheel \<times> pending_call list) option" where
  "tick fuel destructed exec w =
     (let tm = nat (slot_of w (call_out_time w + 1)) in
      map_option (\<lambda>(w', log). (w'\<lparr>call_out_time := call_out_time w' + 1\<rparr>, log))
        (case call_list w ! tm of
           [] \<Rightarrow> Some (w, [])
         | c # cs \<Rightarrow>
             let w1 = w\<lparr>call_list := (call_list w)[tm := c\<lparr>delta := delta c - 1\<rparr> # cs]\<rparr>
             in if delta c - 1 = 0 then run_slot fuel destructed exec tm w1 [] else Some (w1, [])))"

text \<open>The outer loop, with the number of seconds that it has to catch up.\<close>

fun call_out_loop ::
  "nat \<Rightarrow> nat \<Rightarrow> (u64 \<Rightarrow> bool) \<Rightarrow> (pending_call \<Rightarrow> wheel \<Rightarrow> wheel) \<Rightarrow> wheel \<Rightarrow> (wheel \<times> pending_call list) option" where
  "call_out_loop fuel 0 destructed exec w = Some (w, [])"
| "call_out_loop fuel (Suc n) destructed exec w =
     (case tick fuel destructed exec w of
        None \<Rightarrow> None
      | Some (w1, log1) \<Rightarrow> map_option (\<lambda>(w2, log2). (w2, log1 @ log2)) (call_out_loop fuel n destructed exec w1))"

definition call_out ::
  "nat \<Rightarrow> int \<Rightarrow> (u64 \<Rightarrow> bool) \<Rightarrow> (pending_call \<Rightarrow> wheel \<Rightarrow> wheel) \<Rightarrow> wheel \<Rightarrow> (wheel \<times> pending_call list) option" where
  "call_out fuel current_time destructed exec w0 =
     (let w = (if call_out_time w0 = 0 then w0\<lparr>call_out_time := current_time\<rparr> else w0)
      in call_out_loop fuel (nat (current_time - call_out_time w)) destructed exec w)"

section \<open>Looking up and removing\<close>

definition time_left :: "int \<Rightarrow> wheel \<Rightarrow> int \<Rightarrow> int \<Rightarrow> int" where
  "time_left current_time w slot delay =
     (let cyc = int (length (call_list w)); current_slot = slot_of w (call_out_time w) in
      if slot > current_slot
      then (delay - 1) * cyc + (slot - current_slot) + call_out_time w - current_time
      else delay * cyc + (slot - current_slot) + call_out_time w - current_time)"

text \<open>The first call of a slot that passes the test, with the turns up to it, and the slot without it: the next
  call takes over the delta.\<close>

fun slot_find :: "(pending_call \<Rightarrow> bool) \<Rightarrow> int \<Rightarrow> pending_call list \<Rightarrow> (int \<times> pending_call) option" where
  "slot_find P delay [] = None"
| "slot_find P delay (c # cs) =
     (if P c then Some (delay + delta c, c) else slot_find P (delay + delta c) cs)"

fun slot_remove :: "(pending_call \<Rightarrow> bool) \<Rightarrow> pending_call list \<Rightarrow> pending_call list" where
  "slot_remove P [] = []"
| "slot_remove P (c # cs) =
     (if P c then (case cs of [] \<Rightarrow> [] | n # ns \<Rightarrow> n\<lparr>delta := delta n + delta c\<rparr> # ns)
      else c # slot_remove P cs)"

text \<open>The loop over the slots of \<open>find_call_out\<close> and \<open>remove_call_out\<close>, from slot \<open>i\<close> on.\<close>

fun wheel_find :: "(pending_call \<Rightarrow> bool) \<Rightarrow> nat \<Rightarrow> pending_call list list \<Rightarrow> (nat \<times> int) option" where
  "wheel_find P i [] = None"
| "wheel_find P i (l # ls) =
     (case slot_find P 0 l of Some (d, _) \<Rightarrow> Some (i, d) | None \<Rightarrow> wheel_find P (Suc i) ls)"

definition calls :: "u64 \<Rightarrow> bytes \<Rightarrow> pending_call \<Rightarrow> bool" where
  "calls ob fname c = (callee c = Named ob fname)"

definition find_call_out :: "int \<Rightarrow> wheel \<Rightarrow> u64 \<Rightarrow> bytes \<Rightarrow> int" where
  "find_call_out current_time w ob fname =
     (if ob = 0 then -1
      else case wheel_find (calls ob fname) 0 (call_list w) of
             Some (i, d) \<Rightarrow> to_int32 (time_left current_time w (int i) d)
           | None \<Rightarrow> -1)"

definition remove_call_out :: "int \<Rightarrow> wheel \<Rightarrow> u64 \<Rightarrow> bytes \<Rightarrow> int \<times> wheel" where
  "remove_call_out current_time w ob fname =
     (if ob = 0 then (-1, w)
      else case wheel_find (calls ob fname) 0 (call_list w) of
             Some (i, d) \<Rightarrow>
               (to_int32 (time_left current_time w (int i) d),
                w\<lparr>call_list := (call_list w)[i := slot_remove (calls ob fname) (call_list w ! i)]\<rparr>)
           | None \<Rightarrow> (-1, w))"

definition find_call_out_by_handle :: "int \<Rightarrow> wheel \<Rightarrow> int \<Rightarrow> int" where
  "find_call_out_by_handle current_time w h =
     (case slot_find (\<lambda>c. handle c = h) 0 (call_list w ! nat (slot_of w h)) of
        Some (d, _) \<Rightarrow> to_int32 (time_left current_time w (slot_of w h) d)
      | None \<Rightarrow> -1)"

definition remove_call_out_by_handle :: "int \<Rightarrow> wheel \<Rightarrow> int \<Rightarrow> int \<times> wheel" where
  "remove_call_out_by_handle current_time w h =
     (let i = nat (slot_of w h) in
      case slot_find (\<lambda>c. handle c = h) 0 (call_list w ! i) of
        Some (d, _) \<Rightarrow>
          (to_int32 (time_left current_time w (slot_of w h) d),
           w\<lparr>call_list := (call_list w)[i := slot_remove (\<lambda>c. handle c = h) (call_list w ! i)]\<rparr>)
      | None \<Rightarrow> (-1, w))"

definition callee_of_object :: "(u64 \<Rightarrow> bool) \<Rightarrow> u64 \<Rightarrow> pending_call \<Rightarrow> bool" where
  "callee_of_object destructed obj c =
     (case callee c of Named ob _ \<Rightarrow> ob = obj \<or> destructed ob | FunPtr _ owner \<Rightarrow> owner = obj \<or> destructed owner)"

text \<open>The loop of \<open>remove_all_call_out\<close> along a slot: a removed call gives its delta to its successor.\<close>

function remove_all_slot :: "(pending_call \<Rightarrow> bool) \<Rightarrow> pending_call list \<Rightarrow> pending_call list" where
  "remove_all_slot P [] = []"
| "remove_all_slot P (c # cs) =
     (if P c then remove_all_slot P (case cs of [] \<Rightarrow> [] | n # ns \<Rightarrow> n\<lparr>delta := delta n + delta c\<rparr> # ns)
      else c # remove_all_slot P cs)"
  by pat_completeness auto
termination by (relation "measure (length \<circ> snd)") (auto split: list.split)

definition remove_all_call_out :: "(u64 \<Rightarrow> bool) \<Rightarrow> wheel \<Rightarrow> u64 \<Rightarrow> wheel" where
  "remove_all_call_out destructed w obj =
     w\<lparr>call_list := map (remove_all_slot (callee_of_object destructed obj)) (call_list w)\<rparr>"

text \<open>The entries of \<open>get_all_call_outs\<close>: object, function name and time left of every call whose object is alive.\<close>

fun all_slot :: "(u64 \<Rightarrow> bool) \<Rightarrow> int \<Rightarrow> wheel \<Rightarrow> int \<Rightarrow> int \<Rightarrow> pending_call list \<Rightarrow> (u64 \<times> bytes \<times> int) list" where
  "all_slot destructed current_time w j delay [] = []"
| "all_slot destructed current_time w j delay (c # cs) =
     (let rest = all_slot destructed current_time w j (delay + delta c) cs in
      if callee_destructed destructed (callee c) then rest
      else (case callee c of
              Named ob f \<Rightarrow> (ob, f, time_left current_time w j (delay + delta c))
            | FunPtr f owner \<Rightarrow> (owner, [60, 102, 117, 110, 99, 116, 105, 111, 110, 62],
                time_left current_time w j (delay + delta c))) # rest)"

definition get_all_call_outs :: "(u64 \<Rightarrow> bool) \<Rightarrow> int \<Rightarrow> wheel \<Rightarrow> (u64 \<times> bytes \<times> int) list" where
  "get_all_call_outs destructed current_time w =
     concat (map (\<lambda>j. all_slot destructed current_time w (int j) 0 (call_list w ! j)) [0..<length (call_list w)])"

section \<open>The agenda\<close>

text \<open>The calls of a slot with the turns up to them; the \<open>delta\<close> field is blanked.\<close>

definition blank :: "pending_call \<Rightarrow> pending_call" where
  "blank c = c\<lparr>delta := 0\<rparr>"

fun turns :: "int \<Rightarrow> pending_call list \<Rightarrow> (int \<times> pending_call) list" where
  "turns b [] = []"
| "turns b (c # cs) = (b + delta c, blank c) # turns (b + delta c) cs"

text \<open>The first time after \<open>now\<close> at which the wheel stands at the slot, and the time a call is due.\<close>

definition next_time :: "int \<Rightarrow> int \<Rightarrow> int \<Rightarrow> int" where
  "next_time cyc now slot = now + 1 + (slot - now - 1) mod cyc"

definition slot_due :: "int \<Rightarrow> int \<Rightarrow> int \<Rightarrow> pending_call list \<Rightarrow> (int \<times> pending_call) multiset" where
  "slot_due cyc now slot l = image_mset (\<lambda>(d, c). (next_time cyc now slot + (d - 1) * cyc, c)) (mset (turns 0 l))"

definition agenda :: "wheel \<Rightarrow> (int \<times> pending_call) multiset" where
  "agenda w = (\<Sum>i<length (call_list w). slot_due (int (length (call_list w))) (call_out_time w) (int i) (call_list w ! i))"

definition slot_wf :: "pending_call list \<Rightarrow> bool" where
  "slot_wf l \<longleftrightarrow> (\<forall>c\<in>set l. 0 \<le> delta c) \<and> (l \<noteq> [] \<longrightarrow> 1 \<le> delta (hd l))"

definition wheel_wf :: "wheel \<Rightarrow> bool" where
  "wheel_wf w \<longleftrightarrow> (\<exists>k. length (call_list w) = 2 ^ k) \<and> (\<forall>l\<in>set (call_list w). slot_wf l)"

lemma slot_of_mod: "length (call_list w) = 2 ^ k \<Longrightarrow> slot_of w t = t mod int (length (call_list w))"
  by (simp add: slot_of_def take_bit_eq_mod[symmetric] take_bit_eq_mask mask_eq_exp_minus_1)

lemma slot_of_less:
  assumes "wheel_wf w"
  shows "slot_of w t = t mod int (length (call_list w))" "0 \<le> slot_of w t" "slot_of w t < int (length (call_list w))"
    "nat (slot_of w t) < length (call_list w)" "0 < length (call_list w)"
proof -
  obtain k where "length (call_list w) = 2 ^ k" using assms by (auto simp: wheel_wf_def)
  then show "slot_of w t = t mod int (length (call_list w))" "0 \<le> slot_of w t" "slot_of w t < int (length (call_list w))"
    "nat (slot_of w t) < length (call_list w)" "0 < length (call_list w)"
    using slot_of_mod[of w k t] by (simp_all add: nat_less_iff)
qed

lemma agenda_update:
  assumes "i < length (call_list w)"
  shows "agenda (w\<lparr>call_list := (call_list w)[i := l]\<rparr>) + slot_due (int (length (call_list w))) (call_out_time w) (int i) (call_list w ! i) =
    agenda w + slot_due (int (length (call_list w))) (call_out_time w) (int i) l"
proof -
  let ?n = "length (call_list w)" and ?f = "\<lambda>ls j. slot_due (int (length (call_list w))) (call_out_time w) (int j) (ls ! j)"
  have "(\<Sum>j\<in>{..<?n}. ?f ((call_list w)[i := l]) j) = ?f ((call_list w)[i := l]) i + (\<Sum>j\<in>{..<?n} - {i}. ?f (call_list w) j)"
    using assms by (subst sum.remove[of _ i]) (auto intro!: sum.cong)
  moreover have "(\<Sum>j\<in>{..<?n}. ?f (call_list w) j) = ?f (call_list w) i + (\<Sum>j\<in>{..<?n} - {i}. ?f (call_list w) j)"
    using assms by (subst sum.remove[of _ i]) auto
  ultimately show ?thesis using assms by (simp add: agenda_def)
qed

lemma turns_ge: "(d, c) \<in> set (turns b l) \<Longrightarrow> \<forall>c\<in>set l. 0 \<le> delta c \<Longrightarrow> b \<le> d"
  by (induction b l rule: turns.induct) fastforce+

lemma turns_pos: "slot_wf l \<Longrightarrow> (d, c) \<in> set (turns 0 l) \<Longrightarrow> 1 \<le> d"
  by (cases l) (force simp: slot_wf_def dest: turns_ge)+

lemma next_time_bounds:
  assumes "0 < cyc"
  shows "now < next_time cyc now slot" "next_time cyc now slot \<le> now + cyc"
  using pos_mod_bound[OF assms, of "slot - now - 1"] pos_mod_sign[OF assms, of "slot - now - 1"]
  unfolding next_time_def by linarith+

lemma turns_insert: "mset (turns b (delta_insert cop delay l)) = add_mset (b + delay, blank cop) (mset (turns b l))"
  by (induction cop delay l arbitrary: b rule: delta_insert.induct) (auto simp: blank_def algebra_simps)

lemma delta_insert_nonneg:
  "\<forall>c\<in>set l. 0 \<le> delta c \<Longrightarrow> 0 \<le> delay \<Longrightarrow> \<forall>c\<in>set (delta_insert cop delay l). 0 \<le> delta c"
  by (induction cop delay l rule: delta_insert.induct) auto

lemma delta_insert_wf:
  assumes "slot_wf l" "1 \<le> delay"
  shows "slot_wf (delta_insert cop delay l)"
proof -
  have "\<forall>c\<in>set (delta_insert cop delay l). 0 \<le> delta c"
    using assms by (intro delta_insert_nonneg) (auto simp: slot_wf_def)
  moreover have "1 \<le> delta (hd (delta_insert cop delay l))" using assms by (cases l) (simp_all add: slot_wf_def)
  ultimately show ?thesis by (simp add: slot_wf_def)
qed

text \<open>The slot and the number of turns that \<open>new_call_out\<close> computes.\<close>

lemma due_turns:
  assumes "0 < cyc" "cot < t"
  shows "next_time cyc cot (t mod cyc) + (1 + c_div (t - cot - 1) cyc - 1) * cyc = t"
proof -
  have "(t mod cyc - cot - 1) mod cyc = (t - cot - 1) mod cyc" by (simp add: mod_diff_left_eq diff_diff_eq)
  moreover have "c_div (t - cot - 1) cyc = (t - cot - 1) div cyc" using assms by (intro c_div_nonneg) auto
  ultimately show ?thesis using div_mult_mod_eq[of "t - cot - 1" cyc] by (simp add: next_time_def)
qed

lemma new_call_out_agenda:
  assumes "wheel_wf w" "call_out_time w \<le> current_time" "call_out_time w \<noteq> 0" "new_call_out current_time w f vs delay = (h, w')"
  shows "wheel_wf w'" "agenda w' = add_mset (current_time + max 1 delay, \<lparr>delta = 0, callee = f, call_args = vs, handle = h\<rparr>) (agenda w)"
    "call_out_time w' = call_out_time w" "length (call_list w') = length (call_list w)"
proof -
  let ?d = "if delay < 1 then 1 else delay" and ?cyc = "int (length (call_list w))"
  let ?t = "?d + current_time" and ?i = "nat (slot_of w (?d + current_time))"
  let ?turns = "1 + c_div (?t - call_out_time w - 1) ?cyc"
  let ?cop = "\<lparr>delta = ?turns, callee = f, call_args = vs, handle = h\<rparr>"
  let ?l = "delta_insert ?cop ?turns (call_list w ! ?i)"
  have w': "w' = w\<lparr>call_list := (call_list w)[?i := ?l], unique := to_int32 (unique w + 1)\<rparr>"
    using assms(3,4) by (auto simp: new_call_out_def Let_def)
  have i: "?i < length (call_list w)" "0 < ?cyc" "int ?i = ?t mod ?cyc" using slot_of_less[OF assms(1)] by auto
  have lt: "call_out_time w < ?t" using assms(2) by auto
  then have "1 \<le> ?turns" using i(2) c_div_nonneg[of "?t - call_out_time w - 1" ?cyc] by (simp add: pos_imp_zdiv_nonneg_iff)
  moreover have "slot_wf (call_list w ! ?i)" using assms(1) i(1) by (auto simp: wheel_wf_def)
  ultimately have "slot_wf ?l" by (intro delta_insert_wf)
  then show "wheel_wf w'" using assms(1) set_update_subset_insert[of "call_list w" ?i ?l] by (auto simp: w' wheel_wf_def)
  have "agenda w' = agenda (w\<lparr>call_list := (call_list w)[?i := ?l]\<rparr>)" by (simp add: w' agenda_def)
  moreover have "slot_due ?cyc (call_out_time w) (int ?i) ?l =
      add_mset (?t, blank ?cop) (slot_due ?cyc (call_out_time w) (int ?i) (call_list w ! ?i))"
    by (simp only: slot_due_def turns_insert image_mset_add_mset prod.case i(3) add_0 due_turns[OF i(2) lt])
  ultimately show "agenda w' = add_mset (current_time + max 1 delay, \<lparr>delta = 0, callee = f, call_args = vs, handle = h\<rparr>) (agenda w)"
    using agenda_update[OF i(1), of ?l] by (auto simp: blank_def add.commute max_def)
  show "call_out_time w' = call_out_time w" "length (call_list w') = length (call_list w)" by (simp_all add: w')
qed

section \<open>Calls that leave the agenda alone\<close>

definition made :: "(u64 \<Rightarrow> bool) \<Rightarrow> pending_call \<Rightarrow> pending_call list" where
  "made destructed c =
     (if callee_destructed destructed (callee c) then [] else [c\<lparr>call_args := clean_args destructed (call_args c)\<rparr>])"

lemma run_slot_quiet:
  assumes "call_list w ! tm = cop # cs" "tm < length (call_list w)" "length cs < fuel"
  shows "run_slot fuel destructed (\<lambda>_ w. w) tm w log =
    Some (w\<lparr>call_list := (call_list w)[tm := dropWhile (\<lambda>c. delta c = 0) cs]\<rparr>,
      log @ concat (map (made destructed) (cop # takeWhile (\<lambda>c. delta c = 0) cs)))"
  using assms
proof (induction cs arbitrary: fuel w cop log)
  case Nil
  then show ?case by (cases fuel) (auto simp: made_def Let_def)
next
  case (Cons c cs)
  obtain f where f: "fuel = Suc f" using Cons.prems(3) by (cases fuel) auto
  let ?w = "w\<lparr>call_list := (call_list w)[tm := c # cs]\<rparr>"
  have step: "run_slot fuel destructed (\<lambda>_ w. w) tm w log =
      (if delta c = 0 then run_slot f destructed (\<lambda>_ w. w) tm ?w (log @ made destructed cop) else Some (?w, log @ made destructed cop))"
    using Cons.prems(1,2) by (simp add: f made_def Let_def)
  show ?case
  proof (cases "delta c = 0")
    case True
    have "run_slot f destructed (\<lambda>_ w. w) tm ?w (log @ made destructed cop) =
        Some (?w\<lparr>call_list := (call_list ?w)[tm := dropWhile (\<lambda>c. delta c = 0) cs]\<rparr>,
          (log @ made destructed cop) @ concat (map (made destructed) (c # takeWhile (\<lambda>c. delta c = 0) cs)))"
      using Cons.prems f by (intro Cons.IH) simp_all
    then show ?thesis using step True by simp
  next
    case False
    then show ?thesis using step by simp
  qed
qed

text \<open>One second: the slot of the next second turns by one, the calls that come to stand at zero are made.\<close>

lemma turns_shift: "turns (b + a) l = map (\<lambda>(d, c). (d + a, c)) (turns b l)"
  by (induction b l rule: turns.induct) (auto simp: algebra_simps)

lemma turns_fired:
  "turns b cs = map (\<lambda>c. (b, blank c)) (takeWhile (\<lambda>c. delta c = 0) cs) @ turns b (dropWhile (\<lambda>c. delta c = 0) cs)"
  by (induction cs arbitrary: b) auto

lemma next_time_step:
  assumes "0 < cyc" "0 \<le> slot" "slot < cyc"
  shows "next_time cyc (now + 1) slot = (if slot = (now + 1) mod cyc then now + 1 + cyc else next_time cyc now slot)"
    "slot = (now + 1) mod cyc \<Longrightarrow> next_time cyc now slot = now + 1"
proof -
  define r where "r = (slot - now - 1) mod cyc"
  have "r = 0 \<longleftrightarrow> slot mod cyc = (now + 1) mod cyc" by (simp add: r_def mod_eq_dvd_iff dvd_eq_mod_eq_0 algebra_simps)
  then have r0: "r = 0 \<longleftrightarrow> slot = (now + 1) mod cyc" using assms by simp
  have b: "0 \<le> r" "r < cyc" using assms(1) by (simp_all add: r_def)
  have "(slot - (now + 1) - 1) mod cyc = (r - 1) mod cyc" by (simp add: r_def mod_diff_left_eq algebra_simps)
  also have "\<dots> = (if r = 0 then cyc - 1 else r - 1)"
    using b assms(1) by (auto simp: zmod_minus1 mod_pos_pos_trivial)
  finally show "next_time cyc (now + 1) slot = (if slot = (now + 1) mod cyc then now + 1 + cyc else next_time cyc now slot)"
    unfolding next_time_def r0[symmetric] r_def[symmetric] by auto
  show "slot = (now + 1) mod cyc \<Longrightarrow> next_time cyc now slot = now + 1" using r0 by (simp add: next_time_def r_def)
qed

lemma slot_due_turn:
  assumes "next_time cyc (now + 1) slot = now + 1 + cyc" "mset (turns 0 l) = image_mset (\<lambda>(d, c). (d - 1, c)) M"
  shows "slot_due cyc (now + 1) slot l = image_mset (\<lambda>(d, c). (now + 1 + (d - 1) * cyc, c)) M"
  unfolding slot_due_def assms by (simp add: multiset.map_comp comp_def case_prod_unfold algebra_simps)

text \<open>The slot before and after its turn, and the calls that are made.\<close>

definition turned :: "pending_call list \<Rightarrow> pending_call list" where
  "turned l = (case l of [] \<Rightarrow> []
     | c # cs \<Rightarrow> if delta c - 1 = 0 then dropWhile (\<lambda>c. delta c = 0) cs else c\<lparr>delta := delta c - 1\<rparr> # cs)"

definition fired :: "pending_call list \<Rightarrow> pending_call list" where
  "fired l = (case l of [] \<Rightarrow> [] | c # cs \<Rightarrow> if delta c - 1 = 0 then c\<lparr>delta := 0\<rparr> # takeWhile (\<lambda>c. delta c = 0) cs else [])"

lemma dropWhile_delta_wf:
  assumes "\<forall>c\<in>set cs. 0 \<le> delta c"
  shows "slot_wf (dropWhile (\<lambda>c. delta c = 0) cs)"
proof -
  let ?r = "dropWhile (\<lambda>c. delta c = 0) cs"
  have "\<forall>c\<in>set ?r. 0 \<le> delta c" using assms set_dropWhileD by fastforce
  moreover have "1 \<le> delta (hd ?r)" if "?r \<noteq> []"
    using hd_dropWhile[OF that] calculation that by (metis hd_in_set int_one_le_iff_zero_less order_le_less)
  ultimately show ?thesis by (simp add: slot_wf_def)
qed

lemma turned_wf: "slot_wf l \<Longrightarrow> slot_wf (turned l)"
  using dropWhile_delta_wf by (cases l) (auto simp: turned_def slot_wf_def)

lemma length_turned: "length (turned l) \<le> length l"
  by (auto simp: turned_def length_dropWhile_le le_SucI split: list.split)

lemma slot_due_fired:
  assumes "0 < cyc" "0 \<le> slot" "slot < cyc" "slot = (now + 1) mod cyc"
  shows "slot_due cyc now slot l = slot_due cyc (now + 1) slot (turned l) + mset (map (\<lambda>c. (now + 1, blank c)) (fired l))"
proof -
  have nt: "next_time cyc (now + 1) slot = now + 1 + cyc" "next_time cyc now slot = now + 1"
    using next_time_step[OF assms(1-3), of now] assms(4) by simp_all
  show ?thesis
  proof (cases l)
    case Nil
    then show ?thesis by (simp add: slot_due_def turned_def fired_def)
  next
    case (Cons c cs)
    show ?thesis
    proof (cases "delta c - 1 = 0")
      case True
      let ?r = "dropWhile (\<lambda>c. delta c = 0) cs" and ?f = "takeWhile (\<lambda>c. delta c = 0) cs"
      have t: "turns 0 l = (1, blank c) # map (\<lambda>c. (1, blank c)) ?f @ turns 1 ?r"
        using Cons True turns_fired[of 1 cs] by simp
      have "mset (turns 0 ?r) = image_mset (\<lambda>(d, c). (d - 1, c)) (mset (turns 1 ?r))"
        using turns_shift[of 0 1 ?r] by (simp add: multiset.map_comp comp_def case_prod_unfold)
      note tn = slot_due_turn[OF nt(1) this]
      have "slot_due cyc now slot l = add_mset (now + 1, blank c) (mset (map (\<lambda>c. (now + 1, blank c)) ?f) +
          image_mset (\<lambda>(d, c). (now + 1 + (d - 1) * cyc, c)) (mset (turns 1 ?r)))"
        unfolding slot_due_def t nt by (simp add: multiset.map_comp comp_def)
      moreover have "turned l = ?r" "fired l = c\<lparr>delta := 0\<rparr> # ?f" using Cons True by (simp_all add: turned_def fired_def)
      ultimately show ?thesis using tn by (simp add: blank_def)
    next
      case False
      have "turns 0 (c\<lparr>delta := delta c - 1\<rparr> # cs) = map (\<lambda>(d, c). (d - 1, c)) (turns 0 l)"
        using Cons turns_shift[of "delta c" "-1" cs] by (simp add: blank_def case_prod_unfold)
      then have "mset (turns 0 (turned l)) = image_mset (\<lambda>(d, c). (d - 1, c)) (mset (turns 0 l))"
        using Cons False by (simp add: turned_def)
      from slot_due_turn[OF nt(1) this] show ?thesis using Cons False by (simp add: slot_due_def nt fired_def)
    qed
  qed
qed

lemma tick_quiet:
  assumes "wheel_wf w" "\<forall>l\<in>set (call_list w). length l \<le> fuel"
  obtains w' fs where "tick fuel destructed (\<lambda>_ w. w) w = Some (w', concat (map (made destructed) fs))" "wheel_wf w'"
    "call_out_time w' = call_out_time w + 1" "\<forall>l\<in>set (call_list w'). length l \<le> fuel"
    "agenda w = agenda w' + mset (map (\<lambda>c. (call_out_time w + 1, blank c)) fs)"
proof -
  let ?now = "call_out_time w" and ?n = "length (call_list w)"
  define tm where "tm = nat (slot_of w (?now + 1))"
  let ?l = "call_list w ! tm"
  let ?w = "w\<lparr>call_list := (call_list w)[tm := turned ?l], call_out_time := ?now + 1\<rparr>"
  have tm: "tm < ?n" "int tm = (?now + 1) mod int ?n" "0 < int ?n" using slot_of_less[OF assms(1)] by (auto simp: tm_def)
  have l: "slot_wf ?l" "length ?l \<le> fuel" using assms tm(1) by (auto simp: wheel_wf_def)
  have t: "tick fuel destructed (\<lambda>_ w. w) w = Some (?w, concat (map (made destructed) (fired ?l)))"
  proof (cases ?l)
    case Nil
    then have "(call_list w)[tm := []] = call_list w" by (metis list_update_id)
    then show ?thesis using Nil by (simp add: tick_def tm_def[symmetric] turned_def fired_def)
  next
    case (Cons c cs)
    let ?w1 = "w\<lparr>call_list := (call_list w)[tm := c\<lparr>delta := delta c - 1\<rparr> # cs]\<rparr>"
    show ?thesis
    proof (cases "delta c - 1 = 0")
      case True
      have "run_slot fuel destructed (\<lambda>_ w. w) tm ?w1 [] =
          Some (?w1\<lparr>call_list := (call_list ?w1)[tm := dropWhile (\<lambda>c. delta c = 0) cs]\<rparr>,
            [] @ concat (map (made destructed) (c\<lparr>delta := delta c - 1\<rparr> # takeWhile (\<lambda>c. delta c = 0) cs)))"
        using tm(1) l(2) Cons by (intro run_slot_quiet) simp_all
      then show ?thesis using Cons True by (simp add: tick_def tm_def[symmetric] turned_def fired_def)
    next
      case False
      then show ?thesis using Cons by (simp add: tick_def tm_def[symmetric] turned_def fired_def)
    qed
  qed
  have sub: "set ((call_list w)[tm := turned ?l]) \<subseteq> insert (turned ?l) (set (call_list w))" by (rule set_update_subset_insert)
  have wf: "wheel_wf ?w" using assms(1) turned_wf[OF l(1)] sub by (auto simp: wheel_wf_def)
  have len: "\<forall>l\<in>set (call_list ?w). length l \<le> fuel" using assms(2) sub length_turned[of ?l] l(2) by auto
  let ?C = "int ?n" and ?ls = "(call_list w)[tm := turned ?l]"
  have "slot_due ?C (?now + 1) (int i) (?ls ! i) = slot_due ?C ?now (int i) (call_list w ! i)" if "i < ?n" "i \<noteq> tm" for i
  proof -
    have "int i \<noteq> (?now + 1) mod ?C" using that tm(2) by auto
    then have "next_time ?C (?now + 1) (int i) = next_time ?C ?now (int i)"
      using that next_time_step(1)[OF tm(3), of "int i" ?now] by simp
    then show ?thesis using that by (simp add: slot_due_def)
  qed
  then have "(\<Sum>i\<in>{..<?n} - {tm}. slot_due ?C (?now + 1) (int i) (?ls ! i)) = (\<Sum>i\<in>{..<?n} - {tm}. slot_due ?C ?now (int i) (call_list w ! i))"
    by (intro sum.cong) auto
  moreover have "agenda ?w = slot_due ?C (?now + 1) (int tm) (turned ?l) + (\<Sum>i\<in>{..<?n} - {tm}. slot_due ?C (?now + 1) (int i) (?ls ! i))"
    using tm(1) by (simp add: agenda_def) (subst sum.remove[of _ tm]; simp)
  moreover have "agenda w = slot_due ?C ?now (int tm) ?l + (\<Sum>i\<in>{..<?n} - {tm}. slot_due ?C ?now (int i) (call_list w ! i))"
    using tm(1) by (simp add: agenda_def) (subst sum.remove[of _ tm]; simp)
  moreover have "slot_due ?C ?now (int tm) ?l = slot_due ?C (?now + 1) (int tm) (turned ?l) + mset (map (\<lambda>c. (?now + 1, blank c)) (fired ?l))"
    using tm by (intro slot_due_fired) simp_all
  ultimately have "agenda w = agenda ?w + mset (map (\<lambda>c. (?now + 1, blank c)) (fired ?l))" by (simp only: union_assoc union_commute union_lcomm)
  then show ?thesis using that[OF t wf _ len] by simp
qed

lemma sorted_map_const: "sorted (map (\<lambda>_. a) xs)"
  by (induction xs) auto

text \<open>Nothing on the agenda of a well-formed wheel is overdue.\<close>

lemma agenda_future:
  assumes "wheel_wf w" "(t, c) \<in># agenda w"
  shows "call_out_time w < t"
proof -
  let ?C = "int (length (call_list w))"
  obtain i where i: "i < length (call_list w)" "(t, c) \<in># slot_due ?C (call_out_time w) (int i) (call_list w ! i)"
    using assms(2) by (auto simp: agenda_def set_mset_sum)
  then obtain d where d: "(d, c) \<in> set (turns 0 (call_list w ! i))" "t = next_time ?C (call_out_time w) (int i) + (d - 1) * ?C"
    by (auto simp: slot_due_def)
  have "1 \<le> d" using turns_pos[OF _ d(1)] assms(1) i(1) by (auto simp: wheel_wf_def)
  then have "0 \<le> (d - 1) * ?C" by simp
  moreover have "0 < ?C" using slot_of_less(5)[OF assms(1)] by simp
  ultimately show ?thesis using next_time_bounds(1)[of ?C "call_out_time w" "int i"] d(2) by linarith
qed

lemma call_out_loop_quiet:
  assumes "wheel_wf w" "\<forall>l\<in>set (call_list w). length l \<le> fuel"
  shows "\<exists>w' fs. call_out_loop fuel n destructed (\<lambda>_ w. w) w = Some (w', concat (map (made destructed \<circ> snd) fs)) \<and>
    wheel_wf w' \<and> call_out_time w' = call_out_time w + int n \<and> sorted (map fst fs) \<and>
    (\<forall>x\<in>set fs. call_out_time w < fst x \<and> fst x \<le> call_out_time w + int n) \<and>
    agenda w = agenda w' + mset (map (\<lambda>(t, c). (t, blank c)) fs)"
  using assms
proof (induction n arbitrary: w)
  case 0
  then show ?case by (intro exI[of _ w] exI[of _ "[]"]) simp
next
  case (Suc n)
  obtain w1 fs1 where t: "tick fuel destructed (\<lambda>_ w. w) w = Some (w1, concat (map (made destructed) fs1))" "wheel_wf w1"
      "call_out_time w1 = call_out_time w + 1" "\<forall>l\<in>set (call_list w1). length l \<le> fuel"
      "agenda w = agenda w1 + mset (map (\<lambda>c. (call_out_time w + 1, blank c)) fs1)"
    using tick_quiet[OF Suc.prems] by metis
  obtain w2 fs2 where r: "call_out_loop fuel n destructed (\<lambda>_ w. w) w1 = Some (w2, concat (map (made destructed \<circ> snd) fs2))"
      "wheel_wf w2" "call_out_time w2 = call_out_time w1 + int n" "sorted (map fst fs2)"
      "\<forall>x\<in>set fs2. call_out_time w1 < fst x \<and> fst x \<le> call_out_time w1 + int n"
      "agenda w1 = agenda w2 + mset (map (\<lambda>(t, c). (t, blank c)) fs2)"
    using Suc.IH[OF t(2,4)] by blast
  let ?fs = "map (\<lambda>c. (call_out_time w + 1, c)) fs1 @ fs2"
  have "call_out_loop fuel (Suc n) destructed (\<lambda>_ w. w) w = Some (w2, concat (map (made destructed \<circ> snd) ?fs))"
    using t(1) r(1) by (simp add: comp_def)
  moreover have "sorted (map fst ?fs)" using r(4,5) t(3) by (auto simp: sorted_append comp_def sorted_map_const)
  moreover have "agenda w = agenda w2 + mset (map (\<lambda>(t, c). (t, blank c)) ?fs)"
    using t(5) r(6) by (simp add: multiset.map_comp comp_def union_assoc union_commute union_lcomm)
  moreover have "\<forall>x\<in>set ?fs. call_out_time w < fst x \<and> fst x \<le> call_out_time w + int (Suc n)" using r(5) t(3) by auto
  moreover have "call_out_time w2 = call_out_time w + int (Suc n)" using r(3) t(3) by simp
  ultimately show ?case using r(2) by blast
qed

section \<open>Finding and removing\<close>

lemma time_left_due:
  assumes "wheel_wf w" "0 \<le> slot" "slot < int (length (call_list w))"
  shows "time_left current_time w slot d =
    next_time (int (length (call_list w))) (call_out_time w) slot + (d - 1) * int (length (call_list w)) - current_time"
proof -
  let ?C = "int (length (call_list w))" and ?cot = "call_out_time w"
  have C: "0 < ?C" using slot_of_less(5)[OF assms(1)] by simp
  let ?cur = "?cot mod ?C"
  have cur: "slot_of w ?cot = ?cur" "0 \<le> ?cur" "?cur < ?C" using slot_of_less(1)[OF assms(1)] C by simp_all
  have "(slot - ?cot - 1) mod ?C = (slot - ?cur - 1) mod ?C" by (metis diff_diff_eq mod_diff_left_eq mod_diff_right_eq)
  also have "\<dots> = (if slot > ?cur then slot - ?cur - 1 else slot - ?cur - 1 + ?C)"
  proof (cases "slot > ?cur")
    case True
    then show ?thesis using assms(2,3) cur by (simp add: mod_pos_pos_trivial)
  next
    case False
    have "(slot - ?cur - 1) mod ?C = (slot - ?cur - 1 + ?C) mod ?C" by simp
    also have "\<dots> = slot - ?cur - 1 + ?C" using False assms(2) cur by (intro mod_pos_pos_trivial) linarith+
    finally show ?thesis using False by simp
  qed
  finally show ?thesis by (simp add: time_left_def Let_def cur(1) next_time_def algebra_simps)
qed

lemma slot_find_turns:
  "slot_find P b l = Some (d, c) \<Longrightarrow> (d, blank c) \<in> set (turns b l) \<and> P c \<and> c \<in> set l"
  by (induction b l rule: turns.induct) (auto split: if_splits)

lemma slot_find_none: "slot_find P b l = None \<longleftrightarrow> (\<forall>c\<in>set l. \<not> P c)"
  by (induction b l rule: turns.induct) auto

lemma slot_remove_turns:
  "slot_find P b l = Some (d, c) \<Longrightarrow> mset (turns b l) = add_mset (d, blank c) (mset (turns b (slot_remove P l)))"
  by (induction b l rule: turns.induct) (auto simp: blank_def algebra_simps split: if_splits list.splits)

lemma slot_remove_wf: "slot_wf l \<Longrightarrow> slot_wf (slot_remove P l)"
proof -
  have "\<forall>c\<in>set (slot_remove P l). 0 \<le> delta c" if "\<forall>c\<in>set l. 0 \<le> delta c" for l
    using that by (induction P l rule: slot_remove.induct) (auto split: list.splits)
  then show "slot_wf l \<Longrightarrow> slot_wf (slot_remove P l)"
    unfolding slot_wf_def by (cases l) (auto split: list.splits)
qed

lemma wheel_find_some:
  "wheel_find P i ls = Some (j, d) \<Longrightarrow> i \<le> j \<and> j - i < length ls \<and> (\<exists>c. slot_find P 0 (ls ! (j - i)) = Some (d, c))"
proof (induction P i ls rule: wheel_find.induct)
  case (2 P i l ls)
  show ?case
  proof (cases "slot_find P 0 l")
    case None
    then have "Suc i \<le> j \<and> j - Suc i < length ls \<and> (\<exists>c. slot_find P 0 (ls ! (j - Suc i)) = Some (d, c))" using 2 by simp
    moreover then obtain m where "j = Suc i + m" using le_Suc_ex by blast
    ultimately show ?thesis by simp
  next
    case (Some dc)
    then show ?thesis using 2(2) by (cases dc) auto
  qed
qed simp

lemma wheel_find_none: "wheel_find P i ls = None \<longleftrightarrow> (\<forall>l\<in>set ls. \<forall>c\<in>set l. \<not> P c)"
  by (induction P i ls rule: wheel_find.induct) (auto simp: slot_find_none split: option.split dest: slot_find_turns)

lemma agenda_entry:
  fixes current_time :: int
  assumes "wheel_wf w" "i < length (call_list w)" "slot_find P 0 (call_list w ! i) = Some (d, c)"
  defines "t \<equiv> current_time + time_left current_time w (int i) d"
  shows "(t, blank c) \<in># agenda w"
    "agenda w = add_mset (t, blank c) (agenda (w\<lparr>call_list := (call_list w)[i := slot_remove P (call_list w ! i)]\<rparr>))"
    "wheel_wf (w\<lparr>call_list := (call_list w)[i := slot_remove P (call_list w ! i)]\<rparr>)"
proof -
  let ?C = "int (length (call_list w))" and ?cot = "call_out_time w" and ?l = "call_list w ! i"
  have t: "t = next_time ?C ?cot (int i) + (d - 1) * ?C" using assms(2) by (simp add: t_def time_left_due[OF assms(1)])
  have "slot_due ?C ?cot (int i) ?l = add_mset (t, blank c) (slot_due ?C ?cot (int i) (slot_remove P ?l))"
    using slot_remove_turns[OF assms(3)] by (simp add: slot_due_def t)
  then show eq: "agenda w = add_mset (t, blank c) (agenda (w\<lparr>call_list := (call_list w)[i := slot_remove P ?l]\<rparr>))"
    using agenda_update[OF assms(2), of "slot_remove P ?l"] by simp
  show "(t, blank c) \<in># agenda w" unfolding eq by simp
  have "slot_wf (slot_remove P ?l)" using assms(1,2) by (intro slot_remove_wf) (auto simp: wheel_wf_def)
  then show "wheel_wf (w\<lparr>call_list := (call_list w)[i := slot_remove P ?l]\<rparr>)"
    using assms(1) set_update_subset_insert[of "call_list w" i "slot_remove P ?l"] by (auto simp: wheel_wf_def)
qed

section \<open>Properties\<close>

text \<open>C11. The wheel keeps an agenda of calls with the times they are due: on a well-formed wheel that has not been
  run past the present, \<open>new_call_out\<close> adds exactly one call, due the given delay (at least one second) from now,
  whatever slot and chain it falls into, and the times of all other calls stay as they are.\<close>

theorem new_call_out_due:
  assumes "wheel_wf w" and "call_out_time w \<le> current_time" and "call_out_time w \<noteq> 0"
    and "new_call_out current_time w f vs delay = (h, w')"
  shows "wheel_wf w' \<and>
    agenda w' = add_mset (current_time + max 1 delay, \<lparr>delta = 0, callee = f, call_args = vs, handle = h\<rparr>) (agenda w)"
  using new_call_out_agenda[OF assms] by simp

lemma empty_wheel: "wheel_wf \<lparr>call_list = replicate (2 ^ k) [], call_out_time = t, unique = u\<rparr>"
    "agenda \<lparr>call_list = replicate (2 ^ k) [], call_out_time = t, unique = u\<rparr> = {#}"
  by (auto simp: wheel_wf_def slot_wf_def agenda_def slot_due_def)

lemma empty_wheel8: "wheel_wf \<lparr>call_list = replicate 8 [], call_out_time = t, unique = u\<rparr>"
    "agenda \<lparr>call_list = replicate 8 [], call_out_time = t, unique = u\<rparr> = {#}"
  using empty_wheel[of 3 t u] by simp_all

theorem new_call_out_due_witness:
  "\<exists>h w'. new_call_out 105 \<lparr>call_list = replicate 8 [], call_out_time = 100, unique = 0\<rparr> (Named 1 [97]) [] 20 = (h, w') \<and>
     agenda w' = {#(125, \<lparr>delta = 0, callee = Named 1 [97], call_args = [], handle = h\<rparr>)#}"
proof -
  let ?w = "\<lparr>call_list = replicate 8 [], call_out_time = 100, unique = 0\<rparr>"
  obtain h w' where n: "new_call_out 105 ?w (Named 1 [97]) [] 20 = (h, w')" by fastforce
  with new_call_out_due[OF empty_wheel8(1)[of 100 0] _ _ n] show ?thesis by (auto simp: empty_wheel8)
qed



text \<open>C12. Finding and removing by object and function name: without such a call both return -1 and nothing changes;
  otherwise both return the seconds until the call is due (as an \<open>int\<close>) and the removal takes exactly that call off
  the agenda, handing its turns to its successor.\<close>

theorem remove_call_out_correct:
  assumes "wheel_wf w" and "ob \<noteq> 0"
  shows "case wheel_find (calls ob fname) 0 (call_list w) of
     None \<Rightarrow> find_call_out current_time w ob fname = -1 \<and> remove_call_out current_time w ob fname = (-1, w) \<and>
       (\<forall>l\<in>set (call_list w). \<forall>c\<in>set l. callee c \<noteq> Named ob fname)
   | Some _ \<Rightarrow> (\<exists>t c w'. callee c = Named ob fname \<and> find_call_out current_time w ob fname = to_int32 (t - current_time) \<and>
       remove_call_out current_time w ob fname = (to_int32 (t - current_time), w') \<and> wheel_wf w' \<and>
       agenda w = add_mset (t, c) (agenda w'))"
proof (cases "wheel_find (calls ob fname) 0 (call_list w)")
  case None
  then have "\<forall>l\<in>set (call_list w). \<forall>c\<in>set l. callee c \<noteq> Named ob fname" by (simp add: wheel_find_none calls_def)
  then show ?thesis using None assms(2) by (simp add: find_call_out_def remove_call_out_def)
next
  case (Some jd)
  obtain j d where jd: "jd = (j, d)" by fastforce
  obtain c where j: "j < length (call_list w)" "slot_find (calls ob fname) 0 (call_list w ! j) = Some (d, c)"
    using wheel_find_some[of "calls ob fname" 0 "call_list w" j d] Some jd by auto
  note e = agenda_entry(2)[OF assms(1) j, where current_time = current_time] agenda_entry(3)[OF assms(1) j]
  have "callee (blank c) = Named ob fname" using slot_find_turns[OF j(2)] by (simp add: calls_def blank_def)
  moreover have "find_call_out current_time w ob fname = to_int32 (time_left current_time w (int j) d)"
    "remove_call_out current_time w ob fname = (to_int32 (time_left current_time w (int j) d),
       w\<lparr>call_list := (call_list w)[j := slot_remove (calls ob fname) (call_list w ! j)]\<rparr>)"
    using Some jd assms(2) by (simp_all add: find_call_out_def remove_call_out_def)
  ultimately show ?thesis using Some jd e
    by (simp only: option.case)
       (intro exI[of _ "current_time + time_left current_time w (int j) d"] exI[of _ "blank c"] exI conjI; simp)
qed

theorem remove_call_out_correct_witness:
  "\<exists>t c w'. remove_call_out 100 \<lparr>call_list = [[], [\<lparr>delta = 3, callee = Named 1 [97], call_args = [], handle = 3\<rparr>]],
       call_out_time = 100, unique = 1\<rparr> 1 [97] = (to_int32 (t - 100), w') \<and> callee c = Named 1 [97] \<and>
     agenda \<lparr>call_list = [[], [\<lparr>delta = 3, callee = Named 1 [97], call_args = [], handle = 3\<rparr>]],
       call_out_time = 100, unique = 1\<rparr> = add_mset (t, c) (agenda w')"
proof -
  let ?w = "\<lparr>call_list = [[], [\<lparr>delta = 3, callee = Named 1 [97], call_args = [], handle = 3\<rparr>]], call_out_time = 100, unique = 1\<rparr>"
  have w: "wheel_wf ?w" by (auto simp: wheel_wf_def slot_wf_def intro!: exI[of _ 1])
  have "wheel_find (calls 1 [97]) 0 (call_list ?w) = Some (1, 3)" by (simp add: calls_def)
  then show ?thesis
    using remove_call_out_correct[OF w, where ob = 1 and fname = "[97]" and current_time = 100] by auto
qed


end
