(* ===== verification/Qsort.thy ===== *)
theory Qsort
  imports Prelude "HOL-Library.Multiset"
begin

text \<open>
  The quick sort of \<^verbatim>\<open>lib/misc/qsort.c\<close>, which sorts the arrays of the mudlib.  The array is untyped
  memory: a byte list, in which element \<open>i\<close> occupies the \<open>size\<close> bytes from \<open>size * i\<close>.  The comparison is a
  callback into LPC code that may answer differently each time; it is a function of a state that it
  changes.  Arrays have at most 65535 elements, so the \<open>int\<close> index arithmetic does not overflow and the
  indices are unbounded integers here.
\<close>

fun doSwap :: "nat \<Rightarrow> bytes \<Rightarrow> nat \<Rightarrow> nat \<Rightarrow> bytes" where
  "doSwap 0 v one two = v"
| "doSwap (Suc sz) v one two =
     (let t = v ! one; v1 = v[one := v ! two]; v2 = v1[two := t] in doSwap sz v2 (Suc one) (Suc two))"

definition elem :: "nat \<Rightarrow> bytes \<Rightarrow> int \<Rightarrow> bytes" where
  "elem sz v i = take sz (drop (sz * nat i) v)"

definition swap_elems :: "nat \<Rightarrow> bytes \<Rightarrow> int \<Rightarrow> int \<Rightarrow> bytes" where
  "swap_elems sz v i j = doSwap sz v (sz * nat i) (sz * nat j)"

text \<open>The partitioning loop of \<open>qSort\<close>; it returns \<open>lst\<close>.\<close>

function part_loop ::
  "('s \<Rightarrow> bytes \<Rightarrow> bytes \<Rightarrow> 's \<times> int) \<Rightarrow> nat \<Rightarrow> int \<Rightarrow> int \<Rightarrow> int \<Rightarrow> int \<Rightarrow> 's \<Rightarrow> bytes \<Rightarrow> int \<times> 's \<times> bytes" where
  "part_loop compar sz left right i lst s v =
     (if i \<le> right then
        (case compar s (elem sz v i) (elem sz v left) of
           (s', c) \<Rightarrow>
             if c < 0 then part_loop compar sz left right (i + 1) (lst + 1) s' (swap_elems sz v (lst + 1) i)
             else part_loop compar sz left right (i + 1) lst s' v)
      else (lst, s, v))"
  by pat_completeness auto
termination by (relation "measure (\<lambda>(_, _, _, right, i, _, _, _). nat (right + 1 - i))") auto

declare part_loop.simps [simp del]

lemma part_loop_last:
  "lst < i \<Longrightarrow> i \<le> right + 1 \<Longrightarrow> part_loop compar sz left right i lst s v = (lst', s', v') \<Longrightarrow> lst \<le> lst' \<and> lst' \<le> right"
proof (induction compar sz left right i lst s v rule: part_loop.induct)
  case (1 compar sz left right i lst s v)
  show ?case
  proof (cases "i \<le> right")
    case True
    obtain s1 c where c: "compar s (elem sz v i) (elem sz v left) = (s1, c)" by fastforce
    show ?thesis
      using 1(1)[OF True c[symmetric]] 1(2)[OF True c[symmetric]] 1(3-5) True
      by (subst (asm) part_loop.simps) (fastforce simp: c split: if_splits)
  next
    case False
    then show ?thesis using 1(3-5) by (subst (asm) part_loop.simps) auto
  qed
qed

function qSort ::
  "('s \<Rightarrow> bytes \<Rightarrow> bytes \<Rightarrow> 's \<times> int) \<Rightarrow> int \<Rightarrow> nat \<Rightarrow> int \<Rightarrow> int \<Rightarrow> 's \<times> bytes \<Rightarrow> 's \<times> bytes" where
  "qSort compar rightmost sz left right (s, v) =
     (if left \<ge> right \<or> left < 0 \<or> right > rightmost \<or> right < 0 then (s, v)
      else
        (case part_loop compar sz left right (left + 1) left s (swap_elems sz v left ((left + right) div 2)) of
           (lst, s', v') \<Rightarrow>
             qSort compar rightmost sz (lst + 1) right
               (qSort compar rightmost sz left (lst - 1) (s', swap_elems sz v' left lst))))"
  by pat_completeness auto
termination
proof (relation "measure (\<lambda>(_, _, _, left, right, _). nat (right + 1 - left))"; (simp; fail)?)
qed (auto dest!: part_loop_last[rotated 2, OF sym])

definition quickSort :: "('s \<Rightarrow> bytes \<Rightarrow> bytes \<Rightarrow> 's \<times> int) \<Rightarrow> nat \<Rightarrow> int \<Rightarrow> 's \<Rightarrow> bytes \<Rightarrow> 's \<times> bytes" where
  "quickSort compar sz nmemb s a =
     (if nmemb < 2 then (s, a) else qSort compar (nmemb - 1) sz 0 (nmemb - 1) (s, a))"

declare qSort.simps [simp del]


section \<open>The array as a sequence of elements\<close>

lemma doSwap_length [simp]: "length (doSwap sz v i j) = length v"
  by (induction sz v i j rule: doSwap.induct) (simp_all add: Let_def)

lemma doSwap_same: "doSwap sz v i i = v"
  by (induction sz arbitrary: i) simp_all

lemma doSwap_nth:
  "i + sz \<le> length v \<Longrightarrow> j + sz \<le> length v \<Longrightarrow> i + sz \<le> j \<or> j + sz \<le> i \<Longrightarrow> k < length v \<Longrightarrow>
   doSwap sz v i j ! k =
     (if i \<le> k \<and> k < i + sz then v ! (j + (k - i))
      else if j \<le> k \<and> k < j + sz then v ! (i + (k - j)) else v ! k)"
proof (induction sz v i j rule: doSwap.induct)
  case (2 sz v i j)
  let ?w = "v[i := v ! j, j := v ! i]"
  have w: "?w ! x = (if x = j then v ! i else if x = i then v ! j else v ! x)" if "x < length v" for x
    using that 2(2,3) by (simp add: nth_list_update)
  have ih: "doSwap sz ?w (Suc i) (Suc j) ! k =
      (if Suc i \<le> k \<and> k < Suc i + sz then ?w ! (Suc j + (k - Suc i))
       else if Suc j \<le> k \<and> k < Suc j + sz then ?w ! (Suc i + (k - Suc j)) else ?w ! k)"
    using 2(2-5) by (intro 2(1)[OF refl refl refl]) auto
  consider "k = i" | "k = j" | "i < k" "k < i + Suc sz" | "j < k" "k < j + Suc sz"
    | "k \<noteq> i" "k \<noteq> j" "\<not> (i < k \<and> k < i + Suc sz)" "\<not> (j < k \<and> k < j + Suc sz)" by blast
  then have "doSwap sz ?w (Suc i) (Suc j) ! k =
     (if i \<le> k \<and> k < i + Suc sz then v ! (j + (k - i))
      else if j \<le> k \<and> k < j + Suc sz then v ! (i + (k - j)) else v ! k)"
  proof cases
    case 1 then show ?thesis unfolding ih using 2(2-5) w[of k] by auto
  next
    case 2 then show ?thesis unfolding ih using "2.prems" w[of k] by auto
  next
    case 3
    then have e: "Suc j + (k - Suc i) = j + (k - i)" by simp
    show ?thesis unfolding ih e using 3 2(2-5) w[of "j + (k - i)"] by auto
  next
    case 4
    then have e: "Suc i + (k - Suc j) = i + (k - j)" by simp
    show ?thesis unfolding ih e using 4 2(2-5) w[of "i + (k - j)"] by auto
  next
    case 5 then show ?thesis unfolding ih using 2(2-5) w[of k] by auto
  qed
  then show ?case by (simp add: Let_def)
qed auto

lemma swap_elems_length [simp]: "length (swap_elems sz v i j) = length v"
  by (simp add: swap_elems_def)

text \<open>Swapping two elements of an array of \<open>n\<close> elements.\<close>

lemma elem_swap:
  assumes len: "length v = sz * n" and ij: "0 \<le> i" "i < int n" "0 \<le> j" "j < int n"
  shows "nat k < n \<Longrightarrow> 0 \<le> k \<Longrightarrow> elem sz (swap_elems sz v i j) k = ((elem sz v)(i := elem sz v j, j := elem sz v i)) k"
proof -
  assume k: "nat k < n" "0 \<le> k"
  have fit: "sz * nat x + sz \<le> length v" if "0 \<le> x" "x < int n" for x
    using that len mult_le_mono2[of "nat x + 1" n sz] by (simp add: algebra_simps)
  have apart: "x = y \<or> sz * nat x + sz \<le> sz * nat y \<or> sz * nat y + sz \<le> sz * nat x" if xy: "0 \<le> x" "0 \<le> y" for x y
  proof -
    consider "x = y" | "nat x + 1 \<le> nat y" | "nat y + 1 \<le> nat x" using xy by linarith
    then show ?thesis
      using mult_le_mono2[of "nat x + 1" "nat y" sz] mult_le_mono2[of "nat y + 1" "nat x" sz]
      by cases (simp_all add: algebra_simps)
  qed
  let ?sw = "swap_elems sz v i j"
  note fi = fit[OF ij(1,2)] and fj = fit[OF ij(3,4)]
  have fk: "sz * nat k + sz \<le> length v" using fit[of k] k by simp
  have el: "elem sz ?sw k = elem sz v x"
    if "0 \<le> x" "x < int n" "\<And>r. r < sz \<Longrightarrow> ?sw ! (sz * nat k + r) = v ! (sz * nat x + r)" for x
    using that fk fit[of x] by (auto simp: elem_def intro!: nth_equalityI)
  show ?thesis
  proof (cases "i = j")
    case True
    then show ?thesis by (simp add: swap_elems_def doSwap_same)
  next
    case False
    then have nth: "?sw ! y =
       (if sz * nat i \<le> y \<and> y < sz * nat i + sz then v ! (sz * nat j + (y - sz * nat i))
        else if sz * nat j \<le> y \<and> y < sz * nat j + sz then v ! (sz * nat i + (y - sz * nat j)) else v ! y)"
      if "y < length v" for y
      unfolding swap_elems_def using that apart[OF ij(1,3)] by (intro doSwap_nth[OF fi fj]) auto
    consider "k = j" | "k = i" "k \<noteq> j" | "k \<noteq> i" "k \<noteq> j" by blast
    then show ?thesis
    proof cases
      case 1
      have "elem sz ?sw k = elem sz v i"
        using ij 1 fk apart[OF ij(1,3)] False by (intro el) (auto simp: nth)
      then show ?thesis using 1 by simp
    next
      case 2
      have "elem sz ?sw k = elem sz v j"
        using ij 2 fk by (intro el) (auto simp: nth)
      then show ?thesis using 2 by simp
    next
      case 3
      have "elem sz ?sw k = elem sz v k"
        using k 3 fk apart[OF ij(1) k(2)] apart[OF ij(3) k(2)] by (intro el) (auto simp: nth)
      then show ?thesis using 3 by simp
    qed
  qed
qed

text \<open>The elements \<open>l\<close> to \<open>r\<close> as a multiset.\<close>

definition seg :: "nat \<Rightarrow> bytes \<Rightarrow> int \<Rightarrow> int \<Rightarrow> bytes multiset" where
  "seg sz v l r = image_mset (elem sz v) (mset_set {l..r})"

lemma seg_set: "set_mset (seg sz v l r) = elem sz v ` {l..r}"
  by (simp add: seg_def)

lemma seg_cong: "(\<And>k. l \<le> k \<Longrightarrow> k \<le> r \<Longrightarrow> elem sz v k = elem sz v' k) \<Longrightarrow> seg sz v l r = seg sz v' l r"
  by (auto simp: seg_def intro!: image_mset_cong)

lemma seg_split: "l \<le> m + 1 \<Longrightarrow> m \<le> r \<Longrightarrow> seg sz v l r = seg sz v l m + seg sz v (m + 1) r"
proof -
  assume a: "l \<le> m + 1" "m \<le> r"
  have "{l..r} = {l..m} \<union> {m + 1..r}" using a by auto
  then show ?thesis
    unfolding seg_def by (metis (no_types) finite_atLeastAtMost_int image_mset_union mset_set_Union ivl_disj_int_two(7)
      atLeastPlusOneAtMost_greaterThanAtMost_int disjoint_iff atLeastAtMost_iff zless_add1_eq add1_zle_eq linorder_not_less)
qed

lemma image_mset_swap:
  assumes A: "finite A" "i \<in> A" "j \<in> A" and g: "\<And>k. k \<in> A \<Longrightarrow> g k = (f(i := f j, j := f i)) k"
  shows "image_mset g (mset_set A) = image_mset f (mset_set A)"
proof (cases "i = j")
  case True
  then show ?thesis using A g by (auto intro!: image_mset_cong)
next
  case False
  define B where "B = A - {i, j}"
  have AB: "A = insert i (insert j B)" "i \<notin> insert j B" "j \<notin> B" "finite B" using A False by (auto simp: B_def)
  have "image_mset g (mset_set B) = image_mset f (mset_set B)"
    using AB g by (auto intro!: image_mset_cong simp: B_def)
  then show ?thesis
    using AB g[of i] g[of j] False A by (simp add: AB(1))
qed

lemma seg_swap:
  assumes "length v = sz * n" "0 \<le> l" "l \<le> i" "i \<le> r" "l \<le> j" "j \<le> r" "r < int n"
  shows "seg sz (swap_elems sz v i j) l r = seg sz v l r"
  unfolding seg_def
proof (rule image_mset_swap[where i = i and j = j])
  fix k assume "k \<in> {l..r}"
  then show "elem sz (swap_elems sz v i j) k = ((elem sz v)(i := elem sz v j, j := elem sz v i)) k"
    using assms by (intro elem_swap[where n = n]) auto
qed (use assms in auto)

lemma part_loop_frame:
  "part_loop compar sz left right i lst s v = (lst', s', v') \<Longrightarrow>
   length v = sz * n \<Longrightarrow> 0 \<le> left \<Longrightarrow> left \<le> lst \<Longrightarrow> lst < i \<Longrightarrow> i \<le> right + 1 \<Longrightarrow> right < int n \<Longrightarrow>
   length v' = length v \<and> seg sz v' left right = seg sz v left right \<and>
   (\<forall>k. 0 \<le> k \<and> k < int n \<and> (k \<le> left \<or> right < k) \<longrightarrow> elem sz v' k = elem sz v k)"
proof (induction compar sz left right i lst s v rule: part_loop.induct)
  case (1 compar sz left right i lst s v)
  show ?case
  proof (cases "i \<le> right")
    case True
    obtain s1 c where c: "compar s (elem sz v i) (elem sz v left) = (s1, c)" by fastforce
    let ?v = "swap_elems sz v (lst + 1) i"
    have sw: "seg sz ?v left right = seg sz v left right"
      using 1(4-) True by (intro seg_swap) auto
    have el: "elem sz ?v k = elem sz v k" if "0 \<le> k" "k < int n" "k \<le> left \<or> right < k" for k
      using that 1(4-) True elem_swap[of v sz n "lst + 1" i k] by auto
    show ?thesis
    proof (cases "c < 0")
      case less: True
      have p: "part_loop compar sz left right (i + 1) (lst + 1) s1 ?v = (lst', s', v')"
        using 1(3) True less by (subst (asm) part_loop.simps) (simp add: c)
      show ?thesis using 1(1)[OF True c[symmetric] less p] 1(4-) True sw el by auto
    next
      case ge: False
      have p: "part_loop compar sz left right (i + 1) lst s1 v = (lst', s', v')"
        using 1(3) True ge by (subst (asm) part_loop.simps) (simp add: c)
      show ?thesis using 1(2)[OF True c[symmetric] ge p] 1(4-) True by auto
    qed
  next
    case False
    then show ?thesis using 1(3) by (subst (asm) part_loop.simps) auto
  qed
qed


section \<open>A consistent comparison\<close>

text \<open>A comparison that keeps no state and orders the elements by a key.\<close>

definition orders_by :: "('s \<Rightarrow> bytes \<Rightarrow> bytes \<Rightarrow> 's \<times> int) \<Rightarrow> (bytes \<Rightarrow> 'k::linorder) \<Rightarrow> bool" where
  "orders_by compar key \<longleftrightarrow> (\<forall>s a b. snd (compar s a b) < 0 \<longleftrightarrow> key a < key b)"

lemma part_loop_split:
  fixes key :: "bytes \<Rightarrow> 'k::linorder"
  shows "part_loop compar sz left right i lst s v = (lst', s', v') \<Longrightarrow> orders_by compar key \<Longrightarrow>
   length v = sz * n \<Longrightarrow> 0 \<le> left \<Longrightarrow> left \<le> lst \<Longrightarrow> lst < i \<Longrightarrow> i \<le> right + 1 \<Longrightarrow> right < int n \<Longrightarrow>
   \<forall>k\<in>{left + 1..lst}. key (elem sz v k) < key (elem sz v left) \<Longrightarrow>
   \<forall>k\<in>{lst + 1..i - 1}. \<not> key (elem sz v k) < key (elem sz v left) \<Longrightarrow>
   (\<forall>k\<in>{left + 1..lst'}. key (elem sz v' k) < key (elem sz v left)) \<and>
   (\<forall>k\<in>{lst' + 1..right}. \<not> key (elem sz v' k) < key (elem sz v left))"
proof (induction compar sz left right i lst s v rule: part_loop.induct)
  case (1 compar sz left right i lst s v)
  show ?case
  proof (cases "i \<le> right")
    case True
    obtain s1 c where c: "compar s (elem sz v i) (elem sz v left) = (s1, c)" by fastforce
    have k: "c < 0 \<longleftrightarrow> key (elem sz v i) < key (elem sz v left)"
      using 1(4) c unfolding orders_by_def by (metis snd_conv)
    let ?v = "swap_elems sz v (lst + 1) i"
    have el: "elem sz ?v k = ((elem sz v)(lst + 1 := elem sz v i, i := elem sz v (lst + 1))) k" if "0 \<le> k" "k < int n" for k
      using that 1(5-10) True elem_swap[of v sz n "lst + 1" i k] by auto
    have pv: "elem sz ?v left = elem sz v left" using el[of left] 1(6-10) True by auto
    show ?thesis
    proof (cases "c < 0")
      case less: True
      have p: "part_loop compar sz left right (i + 1) (lst + 1) s1 ?v = (lst', s', v')"
        using 1(3) True less by (subst (asm) part_loop.simps) (simp add: c)
      have lo: "\<forall>k\<in>{left + 1..lst + 1}. key (elem sz ?v k) < key (elem sz ?v left)"
      proof
        fix x assume x: "x \<in> {left + 1..lst + 1}"
        show "key (elem sz ?v x) < key (elem sz ?v left)"
        proof (cases "x = lst + 1")
          case True
          then show ?thesis using el[of "lst + 1"] pv k less 1(6-10) \<open>i \<le> right\<close> by auto
        next
          case False
          then show ?thesis using el[of x] x pv 1(6-11) \<open>i \<le> right\<close> by auto
        qed
      qed
      have hi: "\<forall>k\<in>{lst + 1 + 1..i + 1 - 1}. \<not> key (elem sz ?v k) < key (elem sz ?v left)"
      proof
        fix x assume x: "x \<in> {lst + 1 + 1..i + 1 - 1}"
        then have "lst + 1 \<in> {lst + 1..i - 1}" "x = i \<or> x \<in> {lst + 1..i - 1}" by auto
        then show "\<not> key (elem sz ?v x) < key (elem sz ?v left)"
          using el[of x] x pv 1(6-10,12) True by auto
      qed
      show ?thesis using 1(1)[OF True c[symmetric] less p 1(4) _ 1(6) _ _ _ 1(10) lo hi] 1(5-10) True pv by auto
    next
      case ge: False
      have p: "part_loop compar sz left right (i + 1) lst s1 v = (lst', s', v')"
        using 1(3) True ge by (subst (asm) part_loop.simps) (simp add: c)
      have hi: "\<forall>x\<in>{lst + 1..i + 1 - 1}. \<not> key (elem sz v x) < key (elem sz v left)"
        using 1(12) k ge by (metis add_diff_cancel_right' atLeastAtMost_iff zle_diff1_eq order_le_less)
      show ?thesis using 1(2)[OF True c[symmetric] ge p 1(4,5,6,7) _ _ 1(10,11) hi] 1(8,9) True by auto
    qed
  next
    case False
    then show ?thesis using 1(3,9,11,12) by (subst (asm) part_loop.simps) auto
  qed
qed


text \<open>One step of \<open>qSort\<close>: the range is permuted so that the pivot stands at \<open>lst\<close>, and a consistent
  comparison puts the smaller elements before it.\<close>

lemma partition_step:
  assumes nt: "\<not> (left \<ge> right \<or> left < 0 \<or> right > rightmost \<or> right < 0)"
    and pl: "part_loop compar sz left right (left + 1) left s (swap_elems sz v left ((left + right) div 2)) = (lst, s1, v1)"
    and len: "length v = sz * n" and n: "rightmost < int n"
  shows "left \<le> lst" "lst \<le> right" "length v1 = sz * n"
    "seg sz (swap_elems sz v1 left lst) left right = seg sz v left right"
    "\<And>k. 0 \<le> k \<Longrightarrow> k < int n \<Longrightarrow> k < left \<or> right < k \<Longrightarrow> elem sz (swap_elems sz v1 left lst) k = elem sz v k"
proof -
  let ?mid = "(left + right) div 2" and ?v0 = "swap_elems sz v left ((left + right) div 2)" and ?v2 = "swap_elems sz v1 left lst"
  have b: "0 \<le> left" "left < right" "right < int n" using nt n by auto
  then have mid: "left \<le> ?mid" "?mid \<le> right" by auto
  show lst: "left \<le> lst" "lst \<le> right" using part_loop_last[OF _ _ pl] b by auto
  have f: "length v1 = sz * n" "seg sz v1 left right = seg sz ?v0 left right"
    "\<And>k. 0 \<le> k \<Longrightarrow> k < int n \<Longrightarrow> k \<le> left \<or> right < k \<Longrightarrow> elem sz v1 k = elem sz ?v0 k"
    using part_loop_frame[OF pl, of n] len b by auto
  show "length v1 = sz * n" by (rule f)
  have "seg sz ?v2 left right = seg sz v1 left right"
    using f b lst by (intro seg_swap) auto
  also have "\<dots> = seg sz v left right"
    unfolding f(2) using len b mid by (intro seg_swap) auto
  finally show "seg sz ?v2 left right = seg sz v left right" .
  show "elem sz ?v2 k = elem sz v k" if "0 \<le> k" "k < int n" "k < left \<or> right < k" for k
    using that f(3)[of k] elem_swap[OF len, of left ?mid k] elem_swap[OF f(1), of left lst k] mid lst b by auto
qed

lemma partition_order:
  fixes key :: "bytes \<Rightarrow> 'k::linorder"
  assumes nt: "\<not> (left \<ge> right \<or> left < 0 \<or> right > rightmost \<or> right < 0)"
    and pl: "part_loop compar sz left right (left + 1) left s (swap_elems sz v left ((left + right) div 2)) = (lst, s1, v1)"
    and len: "length v = sz * n" and n: "rightmost < int n" and ord: "orders_by compar key"
    and v2: "v2 = swap_elems sz v1 left lst"
  shows "\<And>k. left \<le> k \<Longrightarrow> k < lst \<Longrightarrow> key (elem sz v2 k) < key (elem sz v2 lst)"
    "\<And>k. lst < k \<Longrightarrow> k \<le> right \<Longrightarrow> \<not> key (elem sz v2 k) < key (elem sz v2 lst)"
proof -
  let ?v0 = "swap_elems sz v left ((left + right) div 2)"
  have b: "0 \<le> left" "left < right" "right < int n" using nt n by auto
  note st = partition_step[OF nt pl len n]
  have el: "elem sz v2 k = ((elem sz v1)(left := elem sz v1 lst, lst := elem sz v1 left)) k" if "0 \<le> k" "k < int n" for k
    unfolding v2 using that st(1-3) b by (intro elem_swap) auto
  have "elem sz v1 left = elem sz ?v0 left" using part_loop_frame[OF pl, of n] len b by auto
  then have pv: "elem sz v2 lst = elem sz ?v0 left" using el[of lst] st(1,2) b by auto
  have sp: "\<forall>k\<in>{left + 1..lst}. key (elem sz v1 k) < key (elem sz ?v0 left)"
    "\<forall>k\<in>{lst + 1..right}. \<not> key (elem sz v1 k) < key (elem sz ?v0 left)"
    using part_loop_split[OF pl ord, of n] len b by auto
  show "key (elem sz v2 k) < key (elem sz v2 lst)" if "left \<le> k" "k < lst" for k
    using that sp(1) el[of k] st(1,2) b unfolding pv by (cases "k = left") auto
  show "\<not> key (elem sz v2 k) < key (elem sz v2 lst)" if k: "lst < k" "k \<le> right" for k
  proof -
    have "elem sz v2 k = elem sz v1 k" using el[of k] k st(1,2) b by simp
    then show ?thesis using bspec[OF sp(2), of k] k unfolding pv by simp
  qed
qed

lemma qSort_unfold:
  assumes "\<not> (left \<ge> right \<or> left < 0 \<or> right > rightmost \<or> right < 0)"
    and "qSort compar rightmost sz left right (s, v) = r"
  obtains lst s1 v1 s3 v3 where
    "part_loop compar sz left right (left + 1) left s (swap_elems sz v left ((left + right) div 2)) = (lst, s1, v1)"
    "qSort compar rightmost sz left (lst - 1) (s1, swap_elems sz v1 left lst) = (s3, v3)"
    "qSort compar rightmost sz (lst + 1) right (s3, v3) = r"
proof -
  obtain lst s1 v1 where pl: "part_loop compar sz left right (left + 1) left s (swap_elems sz v left ((left + right) div 2)) = (lst, s1, v1)"
    by (metis prod_cases3)
  obtain s3 v3 where "qSort compar rightmost sz left (lst - 1) (s1, swap_elems sz v1 left lst) = (s3, v3)" by fastforce
  with pl show thesis
    using assms by (intro that) (simp_all add: qSort.simps[of compar rightmost sz left right s v])
qed

text \<open>Whatever the callback answers, \<open>qSort\<close> permutes the elements of its range and leaves the others alone.\<close>

lemma qSort_frame:
  "qSort compar rightmost sz left right sv = (s', v') \<Longrightarrow> length (snd sv) = sz * n \<Longrightarrow> rightmost < int n \<Longrightarrow>
   length v' = sz * n \<and> seg sz v' left right = seg sz (snd sv) left right \<and>
   (\<forall>k. 0 \<le> k \<and> k < int n \<and> (k < left \<or> right < k) \<longrightarrow> elem sz v' k = elem sz (snd sv) k)"
proof (induction compar rightmost sz left right sv arbitrary: s' v' rule: qSort.induct)
  case (1 compar rightmost sz left right s v)
  show ?case
  proof (cases "left \<ge> right \<or> left < 0 \<or> right > rightmost \<or> right < 0")
    case True
    then show ?thesis using 1(3,4) by (simp add: qSort.simps)
  next
    case False
    obtain lst s1 v1 s3 v3 where
      pl: "part_loop compar sz left right (left + 1) left s (swap_elems sz v left ((left + right) div 2)) = (lst, s1, v1)"
      and q1: "qSort compar rightmost sz left (lst - 1) (s1, swap_elems sz v1 left lst) = (s3, v3)"
      and q2: "qSort compar rightmost sz (lst + 1) right (s3, v3) = (s', v')"
      by (rule qSort_unfold[OF False 1(3)])
    let ?v2 = "swap_elems sz v1 left lst"
    note st = partition_step[OF False pl, of n]
    have lst: "left \<le> lst" "lst \<le> right" "length ?v2 = sz * n" "seg sz ?v2 left right = seg sz v left right"
      using st(1-4) 1(4,5) by simp_all
    have f3: "length v3 = sz * n" "seg sz v3 left (lst - 1) = seg sz ?v2 left (lst - 1)"
      "\<And>k. 0 \<le> k \<Longrightarrow> k < int n \<Longrightarrow> k < left \<or> lst - 1 < k \<Longrightarrow> elem sz v3 k = elem sz ?v2 k"
      using 1(1)[OF False pl[symmetric] refl q1] lst 1(5) by auto
    have f4: "length v' = sz * n" "seg sz v' (lst + 1) right = seg sz v3 (lst + 1) right"
      "\<And>k. 0 \<le> k \<Longrightarrow> k < int n \<Longrightarrow> k < lst + 1 \<or> right < k \<Longrightarrow> elem sz v' k = elem sz v3 k"
      using 1(2)[OF False pl[symmetric] refl, of s' v'] q1 q2 f3 1(5) by auto
    have sp: "seg sz w left right = seg sz w left (lst - 1) + seg sz w lst lst + seg sz w (lst + 1) right" for w
      using seg_split[of left "lst - 1" right sz w] seg_split[of lst lst right sz w] lst by (simp add: add.assoc)
    have "seg sz v' left right = seg sz ?v2 left right"
      unfolding sp using f4 f3 False 1(5) lst seg_cong[of left "lst - 1" sz v' v3] seg_cong[of lst lst sz v' ?v2]
        seg_cong[of "lst + 1" right sz v3 ?v2] by simp
    then show ?thesis using f4 f3 st(5) 1(4,5) lst by auto
  qed
qed

lemma sorted_around:
  fixes f :: "int \<Rightarrow> 'k::linorder"
  assumes "\<And>k. left \<le> k \<Longrightarrow> k < lst \<Longrightarrow> f k < f lst" "\<And>k. lst < k \<Longrightarrow> k \<le> right \<Longrightarrow> f lst \<le> f k"
    and "\<And>j k. left \<le> j \<Longrightarrow> j \<le> k \<Longrightarrow> k < lst \<Longrightarrow> f j \<le> f k" "\<And>j k. lst < j \<Longrightarrow> j \<le> k \<Longrightarrow> k \<le> right \<Longrightarrow> f j \<le> f k"
    and jk: "left \<le> j" "j \<le> k" "k \<le> right"
  shows "f j \<le> f k"
proof -
  consider "k < lst" | "j < lst" "k = lst" | "j < lst" "lst < k" | "j = lst" "k = lst" | "j = lst" "lst < k" | "lst < j"
    using jk by linarith
  then show ?thesis
  proof cases
    case 1 then show ?thesis using assms(3)[of j k] jk by simp
  next
    case 2 then show ?thesis using assms(1)[of j] jk by simp
  next
    case 3 then show ?thesis using assms(1)[of j] assms(2)[of k] jk by simp
  next
    case 4 then show ?thesis by simp
  next
    case 5 then show ?thesis using assms(2)[of k] jk by simp
  next
    case 6 then show ?thesis using assms(4)[of j k] jk by simp
  qed
qed

lemma qSort_sorted:
  fixes key :: "bytes \<Rightarrow> 'k::linorder"
  shows "qSort compar rightmost sz left right sv = (s', v') \<Longrightarrow> orders_by compar key \<Longrightarrow> length (snd sv) = sz * n \<Longrightarrow>
   rightmost < int n \<Longrightarrow> 0 \<le> left \<Longrightarrow> right \<le> rightmost \<Longrightarrow> left \<le> j \<Longrightarrow> j \<le> k \<Longrightarrow> k \<le> right \<Longrightarrow>
   key (elem sz v' j) \<le> key (elem sz v' k)"
proof (induction compar rightmost sz left right sv arbitrary: s' v' j k rule: qSort.induct)
  case (1 compar rightmost sz left right s v)
  show ?case
  proof (cases "left < right")
    case False
    then have "j = k" using 1(9-11) by linarith
    then show ?thesis by simp
  next
    case True
    have nt: "\<not> (left \<ge> right \<or> left < 0 \<or> right > rightmost \<or> right < 0)" using True 1(7,8) by simp
    obtain lst s1 v1 s3 v3 where
      pl: "part_loop compar sz left right (left + 1) left s (swap_elems sz v left ((left + right) div 2)) = (lst, s1, v1)"
      and q1: "qSort compar rightmost sz left (lst - 1) (s1, swap_elems sz v1 left lst) = (s3, v3)"
      and q2: "qSort compar rightmost sz (lst + 1) right (s3, v3) = (s', v')"
      by (rule qSort_unfold[OF nt 1(3)])
    let ?v2 = "swap_elems sz v1 left lst"
    note st = partition_step(1-3)[OF nt pl _ 1(6)] and lt = partition_order[OF nt pl _ 1(6) 1(4) refl]
    have lst: "left \<le> lst" "lst \<le> right" "length ?v2 = sz * n" using st(1-3) 1(5) by auto
    have f3: "length v3 = sz * n" "seg sz v3 left (lst - 1) = seg sz ?v2 left (lst - 1)"
      "\<And>k. lst \<le> k \<Longrightarrow> k \<le> right \<Longrightarrow> elem sz v3 k = elem sz ?v2 k"
      using qSort_frame[OF q1, of n] lst 1(6-8) by auto
    have f4: "seg sz v' (lst + 1) right = seg sz v3 (lst + 1) right"
      "\<And>k. left \<le> k \<Longrightarrow> k \<le> lst \<Longrightarrow> elem sz v' k = elem sz v3 k"
      using qSort_frame[OF q2, of n] lst f3 1(6-8) by auto
    have "seg sz v3 (lst + 1) right = seg sz ?v2 (lst + 1) right" by (rule seg_cong) (use f3(3) in auto)
    then have im: "elem sz v' ` {lst + 1..right} = elem sz ?v2 ` {lst + 1..right}"
      "elem sz v3 ` {left..lst - 1} = elem sz ?v2 ` {left..lst - 1}"
      using f4(1) f3(2) by (simp_all flip: seg_set)
    have pv: "elem sz v' lst = elem sz ?v2 lst" using f3(3) f4(2) lst by simp
    show ?thesis
    proof (rule sorted_around[where f = "\<lambda>k. key (elem sz v' k)", OF _ _ _ _ 1(9-11)])
      fix k assume k: "left \<le> k" "k < lst"
      then obtain k' where "k' \<in> {left..lst - 1}" "elem sz v3 k = elem sz ?v2 k'"
        using im(2) by (metis atLeastAtMost_iff imageE imageI zle_diff1_eq)
      then show "key (elem sz v' k) < key (elem sz v' lst)"
        using lt(1)[of k'] 1(5) f4(2)[of k] k pv by simp
    next
      fix k assume k: "lst < k" "k \<le> right"
      then obtain k' where "k' \<in> {lst + 1..right}" "elem sz v' k = elem sz ?v2 k'"
        using im(1) by (metis atLeastAtMost_iff imageE imageI add1_zle_eq)
      then show "key (elem sz v' lst) \<le> key (elem sz v' k)"
        using lt(2)[of k'] 1(5) pv by simp
    next
      fix j k assume jk: "left \<le> j" "j \<le> k" "k < lst"
      then show "key (elem sz v' j) \<le> key (elem sz v' k)"
        using 1(1)[OF nt pl[symmetric] refl q1 1(4), of j k] lst 1(6-8) f4(2) by auto
    next
      fix j k assume jk: "lst < j" "j \<le> k" "k \<le> right"
      then show "key (elem sz v' j) \<le> key (elem sz v' k)"
        using 1(2)[OF nt pl[symmetric] refl _ 1(4), of s' v' j k] q1 q2 f3 lst 1(6-8) by auto
    qed
  qed
qed


text \<open>The elements of an array, in order.\<close>

definition elems :: "nat \<Rightarrow> nat \<Rightarrow> bytes \<Rightarrow> bytes list" where
  "elems sz n v = map (\<lambda>i. elem sz v (int i)) [0..<n]"

lemma mset_elems: "mset (elems sz n v) = seg sz v 0 (int n - 1)"
proof -
  have "mset_set {0..int n - 1} = image_mset int (mset_set {0..<n})"
    by (simp add: image_mset_mset_set inj_on_def image_int_atLeastLessThan flip: atLeastLessThanPlusOne_atLeastAtMost_int)
  then show ?thesis by (simp add: elems_def seg_def image_mset.compositionality comp_def flip: mset_upt)
qed

lemma sorted_elems:
  assumes "\<And>j k. 0 \<le> j \<Longrightarrow> j \<le> k \<Longrightarrow> k \<le> int n - 1 \<Longrightarrow> f (elem sz v j) \<le> (f (elem sz v k) :: 'k::linorder)"
  shows "sorted (map f (elems sz n v))"
  using assms by (auto simp: elems_def sorted_iff_nth_mono)

text \<open>C13. \<open>quickSort\<close> returns for every comparison callback, also one that keeps state and contradicts
  itself; the array then holds the same elements, permuted.  If the answers of the callback order the
  elements by a key, the array is sorted by that key.\<close>

theorem quickSort_correct:
  fixes key :: "bytes \<Rightarrow> 'k::linorder"
  assumes len: "length a = sz * n"
  shows "\<exists>s' a'. quickSort compar sz (int n) s a = (s', a') \<and> length a' = length a \<and>
     mset (elems sz n a') = mset (elems sz n a) \<and>
     (orders_by compar key \<longrightarrow> sorted (map key (elems sz n a')))"
proof (cases "int n < 2")
  case True
  then have "n = 0 \<or> n = 1" by linarith
  then show ?thesis using True by (auto simp: quickSort_def elems_def)
next
  case False
  obtain s' a' where q: "qSort compar (int n - 1) sz 0 (int n - 1) (s, a) = (s', a')" by fastforce
  then have "sorted (map key (elems sz n a'))" if "orders_by compar key"
    by (intro sorted_elems) (use that len in \<open>auto intro: qSort_sorted[OF q, where n = n]\<close>)
  then show ?thesis using False q len qSort_frame[OF q, of n] by (auto simp: quickSort_def mset_elems)
qed

theorem quickSort_correct_witness:
  "\<exists>s' a'. quickSort (\<lambda>s x y. (s + 1 :: nat, uint (hd x) - uint (hd y))) 2 3 0 [3, 0, 1, 7, 2, 9] = (s', a') \<and>
     mset (elems 2 3 a') = {#[3, 0], [1, 7], [2, 9]#} \<and> sorted (map (\<lambda>x. uint (hd x)) (elems 2 3 a'))"
  using quickSort_correct[of "[3, 0, 1, 7, 2, 9]" 2 3
      "\<lambda>s x y. (s + 1 :: nat, uint (hd x) - uint (hd y))" 0 "\<lambda>x. uint (hd x)"]
  by (auto simp: orders_by_def elems_def elem_def upt_rec)

end
