(* ===== verification/Envsubst.thy ===== *)
theory Envsubst
  imports Prelude "HOL-Library.Sublist"
begin

text \<open>
  The substitution of environment variables of \<^verbatim>\<open>lib/misc/envsubst.c\<close>.  A C string is the list of its bytes
  without the terminating zero.  The environment of the process is the argument \<open>getenv\<close>.  The result is the
  returned truth value and the bytes stored from the start of the output buffer on, the final zero included.
\<close>

definition ENVSUBST_MAX_NAME :: nat where
  "ENVSUBST_MAX_NAME = 255"

definition is_var_start :: "byte \<Rightarrow> bool" where
  "is_var_start c \<longleftrightarrow> (65 \<le> c \<and> c \<le> 90) \<or> (97 \<le> c \<and> c \<le> 122) \<or> c = 95"

definition is_var_cont :: "byte \<Rightarrow> bool" where
  "is_var_cont c \<longleftrightarrow> (48 \<le> c \<and> c \<le> 57) \<or> (65 \<le> c \<and> c \<le> 90) \<or> (97 \<le> c \<and> c \<le> 122) \<or> c = 95"

text \<open>\<open>dst\<close> is what has been written; the buffer has room for \<open>cap\<close> bytes before the final zero.\<close>

definition append_buf :: "bytes \<Rightarrow> bytes \<Rightarrow> nat \<Rightarrow> bytes option" where
  "append_buf s dst cap = (if cap - length dst < length s then None else Some (dst @ s))"

fun strchr :: "bytes \<Rightarrow> byte \<Rightarrow> nat option" where
  "strchr [] c = None"
| "strchr (x # xs) c = (if x = c then Some 0 else map_option Suc (strchr xs c))"

text \<open>The position of the first \<^verbatim>\<open>:-\<close> within the braces.\<close>

fun find_sep :: "bytes \<Rightarrow> nat option" where
  "find_sep (x # y # r) = (if x = 58 \<and> y = 45 then Some 0 else map_option Suc (find_sep (y # r)))"
| "find_sep _ = None"

definition valid_name :: "bytes \<Rightarrow> bool" where
  "valid_name name \<longleftrightarrow>
     name \<noteq> [] \<and> length name \<le> ENVSUBST_MAX_NAME \<and> is_var_start (hd name) \<and> list_all is_var_cont (tl name)"

text \<open>What a reference stands for: the default replaces a variable that is unset or empty, an unset
  variable without a default is nothing.\<close>

definition ref_value :: "(bytes \<Rightarrow> bytes option) \<Rightarrow> bytes \<Rightarrow> bytes option \<Rightarrow> bytes" where
  "ref_value getenv name dflt =
     (case (getenv name, dflt) of
        (None, Some d) \<Rightarrow> d
      | (Some [], Some d) \<Rightarrow> d
      | (Some v, _) \<Rightarrow> v
      | (None, None) \<Rightarrow> [])"

definition brace_parts :: "bytes \<Rightarrow> bytes \<times> bytes option" where
  "brace_parts body =
     (case find_sep body of
        None \<Rightarrow> (body, None)
      | Some k \<Rightarrow> (take k body, Some (drop (k + 2) body)))"

lemma strchr_length: "strchr s c = Some k \<Longrightarrow> k < length s"
  by (induction s arbitrary: k) (auto split: if_splits)

function envsubst_loop :: "(bytes \<Rightarrow> bytes option) \<Rightarrow> nat \<Rightarrow> bytes \<Rightarrow> bytes \<Rightarrow> bool \<times> bytes" where
  "envsubst_loop getenv cap [] dst = (True, dst @ [0])"
| "envsubst_loop getenv cap (c # p) dst =
     (let literal = (\<lambda>x. if length dst \<ge> cap then (False, dst) else envsubst_loop getenv cap p (dst @ [x]))
      in if c \<noteq> 36 then literal c
         else if p \<noteq> [] \<and> hd p = 123 then
           (case strchr (tl p) 125 of
              None \<Rightarrow> literal 36
            | Some be \<Rightarrow>
                (case brace_parts (take be (tl p)) of
                   (name, dflt) \<Rightarrow>
                     if \<not> valid_name name then literal 36
                     else case append_buf (ref_value getenv name dflt) dst cap of
                            None \<Rightarrow> (False, dst)
                          | Some dst' \<Rightarrow> envsubst_loop getenv cap (drop (be + 1) (tl p)) dst'))
         else if p \<noteq> [] \<and> is_var_start (hd p) then
           (let name = takeWhile is_var_cont p in
            if length name > ENVSUBST_MAX_NAME then literal 36
            else case append_buf (ref_value getenv name None) dst cap of
                   None \<Rightarrow> (False, dst)
                 | Some dst' \<Rightarrow> envsubst_loop getenv cap (dropWhile is_var_cont p) dst')
         else literal 36)"
  by pat_completeness auto
termination
  by (relation "measure (\<lambda>(_, _, p, _). length p)") (auto simp: length_dropWhile_le le_imp_less_Suc less_Suc_eq_le diff_le_self le_diff_conv)

definition envsubst :: "(bytes \<Rightarrow> bytes option) \<Rightarrow> bytes option \<Rightarrow> bool \<Rightarrow> nat \<Rightarrow> bool \<times> bytes" where
  "envsubst getenv src out out_size =
     (case src of
        None \<Rightarrow> (False, [])
      | Some s \<Rightarrow> if \<not> out \<or> out_size = 0 then (False, []) else envsubst_loop getenv (out_size - 1) s [])"

section \<open>Templates\<close>

datatype token = Literal byte | Reference bytes "bytes option"

text \<open>Reading a string as literal bytes and references does not look at the environment.\<close>

function tokens :: "bytes \<Rightarrow> token list" where
  "tokens [] = []"
| "tokens (c # p) =
     (if c \<noteq> 36 then Literal c # tokens p
      else if p \<noteq> [] \<and> hd p = 123 then
        (case strchr (tl p) 125 of
           None \<Rightarrow> Literal 36 # tokens p
         | Some be \<Rightarrow>
             (case brace_parts (take be (tl p)) of
                (name, dflt) \<Rightarrow>
                  if valid_name name then Reference name dflt # tokens (drop (be + 1) (tl p))
                  else Literal 36 # tokens p))
      else if p \<noteq> [] \<and> is_var_start (hd p) \<and> length (takeWhile is_var_cont p) \<le> ENVSUBST_MAX_NAME
      then Reference (takeWhile is_var_cont p) None # tokens (dropWhile is_var_cont p)
      else Literal 36 # tokens p)"
  by pat_completeness auto
termination
  by (relation "measure length") (auto simp: length_dropWhile_le le_imp_less_Suc less_Suc_eq_le diff_le_self le_diff_conv)

fun token_value :: "(bytes \<Rightarrow> bytes option) \<Rightarrow> token \<Rightarrow> bytes" where
  "token_value getenv (Literal c) = [c]"
| "token_value getenv (Reference name dflt) = ref_value getenv name dflt"

definition expansion :: "(bytes \<Rightarrow> bytes option) \<Rightarrow> bytes \<Rightarrow> bytes" where
  "expansion getenv s = concat (map (token_value getenv) (tokens s))"

declare envsubst_loop.simps [simp del] tokens.simps [simp del]


lemma append_buf_Some: "append_buf s dst cap = Some d \<longleftrightarrow> length s \<le> cap - length dst \<and> d = dst @ s"
  by (auto simp: append_buf_def)

text \<open>What the loop does with the rest of the string whose tokens are worth \<open>e\<close>.\<close>

definition fills :: "nat \<Rightarrow> bytes \<Rightarrow> bytes \<Rightarrow> bool \<times> bytes \<Rightarrow> bool" where
  "fills cap dst e r \<longleftrightarrow>
     (if length dst + length e \<le> cap then r = (True, dst @ e @ [0])
      else \<exists>w. r = (False, w) \<and> prefix w (dst @ e) \<and> length w \<le> cap)"

lemma fills_append:
  "length dst + length x \<le> cap \<Longrightarrow> fills cap (dst @ x) e r \<Longrightarrow> fills cap dst (x @ e) r"
  by (auto simp: fills_def)

lemma fills_stop: "length dst \<le> cap \<Longrightarrow> cap < length dst + length x \<Longrightarrow> fills cap dst (x @ e) (False, dst)"
  by (auto simp: fills_def)

lemma expansion_Cons:
  "tokens s = t # tokens s' \<Longrightarrow> expansion getenv s = token_value getenv t @ expansion getenv s'"
  by (simp add: expansion_def)

lemma envsubst_loop_fills:
  "length dst \<le> cap \<Longrightarrow> fills cap dst (expansion getenv p) (envsubst_loop getenv cap p dst)"
proof (induction getenv cap p dst rule: envsubst_loop.induct)
  case (1 getenv cap dst)
  then show ?case by (simp add: envsubst_loop.simps fills_def expansion_def tokens.simps)
next
  case (2 getenv cap c p dst)
  let ?lit = "\<lambda>x. if length dst \<ge> cap then (False, dst) else envsubst_loop getenv cap p (dst @ [x])"
  have lit: "fills cap dst (expansion getenv (c # p)) (?lit x)" if "tokens (c # p) = Literal x # tokens p" for x
    using 2(1)[of x] 2(4)
    by (auto simp: expansion_Cons[OF that] intro: fills_append[of _ "[x]", simplified] fills_stop[of _ _ "[x]", simplified])
  have ref: "fills cap dst (expansion getenv (c # p))
      (case append_buf (ref_value getenv nm d) dst cap of None \<Rightarrow> (False, dst) | Some dst' \<Rightarrow> envsubst_loop getenv cap rest dst')"
    if t: "tokens (c # p) = Reference nm d # tokens rest"
      and ih: "\<And>dst'. append_buf (ref_value getenv nm d) dst cap = Some dst' \<Longrightarrow> length dst' \<le> cap \<Longrightarrow>
        fills cap dst' (expansion getenv rest) (envsubst_loop getenv cap rest dst')" for nm d rest
    using ih 2(4) unfolding expansion_Cons[OF t]
    by (auto simp: append_buf_def intro!: fills_append fills_stop)
  consider (char) "c \<noteq> 36" | (open_brace) "c = 36" "p \<noteq> []" "hd p = 123" "strchr (tl p) 125 = None"
    | (brace) be where "c = 36" "p \<noteq> []" "hd p = 123" "strchr (tl p) 125 = Some be"
    | (name) "c = 36" "\<not> (p \<noteq> [] \<and> hd p = 123)" "p \<noteq> []" "is_var_start (hd p)"
    | (other) "c = 36" "\<not> (p \<noteq> [] \<and> hd p = 123)" "\<not> (p \<noteq> [] \<and> is_var_start (hd p))"
    by blast
  then show ?case
  proof cases
    case char
    then show ?thesis using lit[of c] by (simp add: envsubst_loop.simps tokens.simps)
  next
    case open_brace
    then show ?thesis using lit[of 36] by (simp add: envsubst_loop.simps tokens.simps)
  next
    case brace
    obtain nm d where bp: "brace_parts (take be (tl p)) = (nm, d)" by fastforce
    show ?thesis
    proof (cases "valid_name nm")
      case True
      then show ?thesis
        using brace bp ref[of nm d "drop (be + 1) (tl p)"] 2(2)[OF refl _ _ brace(4) bp[symmetric]]
        by (simp add: envsubst_loop.simps tokens.simps)
    next
      case False
      then show ?thesis using brace bp lit[of 36] by (simp add: envsubst_loop.simps tokens.simps)
    qed
  next
    case name
    let ?nm = "takeWhile is_var_cont p"
    show ?thesis
    proof (cases "length ?nm \<le> ENVSUBST_MAX_NAME")
      case True
      then show ?thesis
        using name ref[of ?nm None "dropWhile is_var_cont p"] 2(3)[OF refl _ name(2) _ refl]
        by (simp add: envsubst_loop.simps tokens.simps)
    next
      case False
      then show ?thesis using name lit[of 36] by (simp add: envsubst_loop.simps tokens.simps)
    qed
  next
    case other
    then show ?thesis using lit[of 36] by (auto simp: envsubst_loop.simps tokens.simps)
  qed
qed

section \<open>Writing a template\<close>

text \<open>A template as its author writes it: references in braces, whose defaults contain no closing brace, and
  literal bytes other than the dollar sign.\<close>

fun token_text :: "token \<Rightarrow> bytes" where
  "token_text (Literal c) = [c]"
| "token_text (Reference name dflt) =
     [36, 123] @ name @ (case dflt of None \<Rightarrow> [] | Some d \<Rightarrow> [58, 45] @ d) @ [125]"

fun token_ok :: "token \<Rightarrow> bool" where
  "token_ok (Literal c) \<longleftrightarrow> c \<noteq> 36"
| "token_ok (Reference name dflt) \<longleftrightarrow> valid_name name \<and> (case dflt of None \<Rightarrow> True | Some d \<Rightarrow> 125 \<notin> set d)"

lemma strchr_append: "c \<notin> set s \<Longrightarrow> strchr (s @ c # r) c = Some (length s)"
  by (induction s) auto

lemma find_sep_none: "list_all (\<lambda>x. x \<noteq> 58) s \<Longrightarrow> find_sep s = None"
  by (induction s rule: find_sep.induct) auto

lemma find_sep_some: "list_all (\<lambda>x. x \<noteq> 58) s \<Longrightarrow> find_sep (s @ 58 # 45 # d) = Some (length s)"
proof (induction s)
  case (Cons x s)
  then show ?case by (cases s) auto
qed simp

lemma valid_name_chars:
  assumes "valid_name s"
  shows "list_all (\<lambda>x. x \<noteq> 58) s" "125 \<notin> set s"
proof -
  obtain c r where s: "s = c # r" "is_var_start c" "list_all is_var_cont r"
    using assms by (cases s) (auto simp: valid_name_def)
  have v: "is_var_cont c" using s(2) by (auto simp: is_var_start_def is_var_cont_def)
  have "list_all is_var_cont s" using s v by simp
  then have "x \<noteq> 58 \<and> x \<noteq> 125" if "x \<in> set s" for x
    using that by (auto simp: list_all_iff is_var_cont_def word_le_nat_alt)
  then show "list_all (\<lambda>x. x \<noteq> 58) s" "125 \<notin> set s" by (auto simp: list_all_iff)
qed

lemma tokens_reference:
  assumes "token_ok (Reference name dflt)"
  shows "tokens (token_text (Reference name dflt) @ r) = Reference name dflt # tokens r"
proof -
  let ?d = "case dflt of None \<Rightarrow> [] | Some d \<Rightarrow> [58, 45] @ d"
  have v: "valid_name name" "125 \<notin> set ?d" using assms by (auto split: option.splits)
  have body: "strchr (name @ ?d @ 125 # r) 125 = Some (length (name @ ?d))"
    using strchr_append[of 125 "name @ ?d" r] valid_name_chars(2)[OF v(1)] v(2) by simp
  have parts: "brace_parts (name @ ?d) = (name, dflt)"
    using valid_name_chars(1)[OF v(1)] by (cases dflt) (auto simp: brace_parts_def find_sep_none find_sep_some)
  show ?thesis using body parts v(1) by (simp add: tokens.simps)
qed

lemma tokens_text: "list_all token_ok ts \<Longrightarrow> tokens (concat (map token_text ts)) = ts"
proof (induction ts)
  case (Cons t ts)
  show ?case
  proof (cases t)
    case (Literal c)
    then show ?thesis using Cons by (simp add: tokens.simps)
  next
    case (Reference name dflt)
    then show ?thesis using Cons tokens_reference[of name dflt "concat (map token_text ts)"] by simp
  qed
qed (simp add: tokens.simps)

text \<open>C15. \<open>envsubst\<close> never writes beyond the buffer.  If the expansion and its zero fit, it stores them and
  returns true; otherwise it returns false, and what it has stored is the beginning of the expansion.
  The text of a value is not searched for references again: the tokens are read from the source alone.\<close>

theorem envsubst_correct:
  assumes "out_size > 0"
  shows "let e = expansion getenv src; r = envsubst getenv (Some src) True out_size
     in (if length e < out_size then r = (True, e @ [0])
         else \<exists>w. r = (False, w) \<and> prefix w e) \<and> length (snd r) \<le> out_size"
proof (cases "length (expansion getenv src) < out_size")
  case True
  then show ?thesis using assms envsubst_loop_fills[of "[]" "out_size - 1" getenv src]
    by (auto simp: envsubst_def fills_def Let_def)
next
  case False
  then have "\<not> length (expansion getenv src) \<le> out_size - 1" using assms by linarith
  then obtain w where "envsubst_loop getenv (out_size - 1) src [] = (False, w)" "prefix w (expansion getenv src)" "length w \<le> out_size - 1"
    using envsubst_loop_fills[of "[]" "out_size - 1" getenv src] by (auto simp: fills_def)
  then show ?thesis using False assms by (auto simp: envsubst_def Let_def)
qed

theorem envsubst_correct_witness:
  "envsubst (\<lambda>n. if n = [72] then Some [47, 36, 65] else None) (Some [36, 72, 33]) True 8 = (True, [47, 36, 65, 33, 0])"
  using envsubst_correct[of 8 "\<lambda>n. if n = [72] then Some [47, 36, 65] else None" "[36, 72, 33]"]
  by (simp add: expansion_def tokens.simps is_var_start_def is_var_cont_def ENVSUBST_MAX_NAME_def ref_value_def Let_def)

text \<open>C36. Substituting in a template that was written out from literal bytes and references gives exactly
  the values of its tokens one after the other, whatever the values contain.\<close>

theorem envsubst_template:
  assumes "list_all token_ok ts" and "length (concat (map (token_value getenv) ts)) < out_size"
  shows "envsubst getenv (Some (concat (map token_text ts))) True out_size =
     (True, concat (map (token_value getenv) ts) @ [0])"
  using assms tokens_text[OF assms(1)] envsubst_loop_fills[of "[]" "out_size - 1" getenv "concat (map token_text ts)"]
  by (auto simp: envsubst_def fills_def expansion_def)

theorem envsubst_template_witness:
  "envsubst (\<lambda>_. None) (Some [97, 36, 123, 72, 58, 45, 36, 125]) True 3 = (True, [97, 36, 0])"
  using envsubst_template[of "[Literal 97, Reference [72] (Some [36])]" "\<lambda>_. None" 3]
  by (simp add: valid_name_def is_var_start_def ENVSUBST_MAX_NAME_def ref_value_def)

end
