(* ===== verification/Bits.thy ===== *)
theory Bits
  imports Prelude
begin

text \<open>
  The bit-string efuns of \<^verbatim>\<open>lib/efuns/bits.c\<close>: six bits to a printable character.  A string is the list of its
  bytes, which the zero byte follows in memory; \<open>char\<close> is signed.  The argument from the evaluator stack is
  a 64-bit number, here an integer; \<open>max_bits\<close> is the configured limit.  A function returns the value it leaves on
  the stack, or the error it raises.
\<close>

datatype bits_error = TooManyBits | NegativeBit | IllegalPattern

text \<open>\<open>s[i] - ' '\<close>; reading beyond the terminating zero is out of bounds.\<close>

definition char_val :: "bytes \<Rightarrow> nat \<Rightarrow> int option" where
  "char_val s i =
     (if i < length s then Some (sint (s ! i) - 32) else if i = length s then Some (- 32) else None)"

definition f_test_bit :: "bytes \<Rightarrow> int \<Rightarrow> bits_error + int" where
  "f_test_bit s number =
     (let ind = to_int32 number in
      if c_div ind 6 \<ge> to_int32 (int (length s)) then Inr 0
      else if ind < 0 then Inl NegativeBit
      else if (sint (s ! nat (ind div 6)) - 32) AND 2 ^ nat (ind mod 6) \<noteq> 0 then Inr 1 else Inr 0)"

text \<open>The loop of \<open>f_next_bit\<close>.\<close>

function next_bit_loop :: "bytes \<Rightarrow> nat \<Rightarrow> int \<Rightarrow> int option" where
  "next_bit_loop s which val =
     (if val \<noteq> 0 \<and> val AND 7 \<noteq> 0 then
        Some (int which * 6 + (if val AND 1 \<noteq> 0 then 0 else if val AND 2 \<noteq> 0 then 1 else 2))
      else if val \<noteq> 0 \<and> val AND 56 \<noteq> 0 then
        Some (int which * 6 + (if val AND 8 \<noteq> 0 then 3 else if val AND 16 \<noteq> 0 then 4 else 5))
      else if which + 1 = length s then Some (- 1)
      else case char_val s (which + 1) of
             None \<Rightarrow> None
           | Some v \<Rightarrow> next_bit_loop s (which + 1) v)"
  by pat_completeness auto
termination
  by (relation "measure (\<lambda>(s, which, _). length s + 1 - which)") (auto simp: char_val_def split: if_splits)

declare next_bit_loop.simps [simp del]

definition f_next_bit :: "bytes \<Rightarrow> int \<Rightarrow> int option" where
  "f_next_bit s number =
     (let start = to_int32 number in
      if s = [] \<or> c_div start 6 \<ge> to_int32 (int (length s)) then Some (- 1)
      else
        (let which = (if start > 0 then (if start mod 6 = 5 then nat (start div 6) + 1 else nat (start div 6)) else 0);
             msk = (if start > 0 \<and> start mod 6 \<noteq> 5 then 63 - (2 ^ nat (start mod 6 + 1) - 1) else - 1)
         in case char_val s which of None \<Rightarrow> None | Some v \<Rightarrow> next_bit_loop s which (v AND msk)))"

definition f_clear_bit :: "int \<Rightarrow> bytes \<Rightarrow> int \<Rightarrow> bits_error + bytes" where
  "f_clear_bit max_bits s number =
     (if number > max_bits then Inl TooManyBits
      else let b = to_int32 number in
        if b < 0 then Inl NegativeBit
        else let ind = b div 6; b = b mod 6 in
          if ind \<ge> to_int32 (int (length s)) then Inr s
          else let c = sint (s ! nat ind) in
            if c > 63 + 32 \<or> c < 32 then Inl IllegalPattern
            else Inr (s[nat ind := word_of_int (((c - 32) AND NOT (2 ^ nat b)) + 32)]))"

definition f_set_bit :: "int \<Rightarrow> bytes \<Rightarrow> int \<Rightarrow> bits_error + bytes" where
  "f_set_bit max_bits s number =
     (if number > max_bits then Inl TooManyBits
      else let b = to_int32 number in
        if b < 0 then Inl NegativeBit
        else let ind = b div 6; b = b mod 6;
               str = (if ind \<ge> to_int32 (int (length s)) then s @ replicate (nat ind + 1 - length s) 32 else s);
               c = sint (str ! nat ind)
          in if c > 63 + 32 \<or> c < 32 then Inl IllegalPattern
             else Inr (str[nat ind := word_of_int (((c - 32) OR 2 ^ nat b) + 32)]))"

section \<open>Bit strings as sets of numbers\<close>

definition bits_wf :: "bytes \<Rightarrow> bool" where
  "bits_wf s \<longleftrightarrow> (\<forall>c\<in>set s. 32 \<le> c \<and> c \<le> 95)"

definition bits :: "bytes \<Rightarrow> nat set" where
  "bits s = {n. n div 6 < length s \<and> bit (sint (s ! (n div 6)) - 32) (n mod 6)}"

lemma wf_char: "32 \<le> c \<Longrightarrow> c \<le> 95 \<Longrightarrow> \<exists>k. 0 \<le> k \<and> k < 64 \<and> sint (c :: byte) = 32 + k \<and> c = word_of_int (32 + k)"
proof -
  assume c: "32 \<le> c" "c \<le> 95"
  then have u: "32 \<le> uint c" "uint c \<le> 95" by (simp_all add: word_le_def)
  then have "sint c = uint c" by (simp add: sint_uint signed_take_bit_int_eq_self)
  then show ?thesis using u by (intro exI[of _ "uint c - 32"]) simp
qed

lemma char_of_val:
  assumes "0 \<le> k" "k < 64"
  shows "sint (word_of_int (k + 32) :: byte) = k + 32" "32 \<le> (word_of_int (k + 32) :: byte)" "(word_of_int (k + 32) :: byte) \<le> 95"
proof -
  have u: "uint (word_of_int (k + 32) :: byte) = k + 32"
    unfolding uint_word_of_int_eq using assms by (intro take_bit_int_eq_self) auto
  show "32 \<le> (word_of_int (k + 32) :: byte)" "(word_of_int (k + 32) :: byte) \<le> 95"
    using assms unfolding word_le_def u by simp_all
  show "sint (word_of_int (k + 32) :: byte) = k + 32"
    unfolding sint_uint u using assms by (intro signed_take_bit_int_eq_self) auto
qed

lemma and_range: "(v::int) AND push_bit a (mask k) = 0 \<longleftrightarrow> (\<forall>n\<in>{a..<a + k}. \<not> bit v n)"
proof
  assume e: "v AND push_bit a (mask k) = 0"
  show "\<forall>n\<in>{a..<a + k}. \<not> bit v n"
  proof
    fix n assume n: "n \<in> {a..<a + k}"
    have "\<not> bit (v AND push_bit a (mask k)) n" unfolding e by simp
    then show "\<not> bit v n" using n by (auto simp: bit_simps)
  qed
next
  assume "\<forall>n\<in>{a..<a + k}. \<not> bit v n"
  then show "v AND push_bit a (mask k) = 0" by (intro bit_eqI) (auto simp: bit_simps)
qed

lemma and_7: "(v::int) AND 7 = 0 \<longleftrightarrow> \<not> bit v 0 \<and> \<not> bit v 1 \<and> \<not> bit v 2"
proof -
  have "{0..<0 + 3} = {0, 1, 2::nat}" by auto
  then show ?thesis using and_range[of v 0 3] by (simp add: mask_eq_exp_minus_1)
qed

lemma and_56: "(v::int) AND 56 = 0 \<longleftrightarrow> \<not> bit v 3 \<and> \<not> bit v 4 \<and> \<not> bit v 5"
proof -
  have "{3..<3 + 3} = {3, 4, 5::nat}" by auto
  then show ?thesis using and_range[of v 3 3] by (simp add: mask_eq_exp_minus_1 push_bit_eq_mult)
qed

lemma and_pow: "(v::int) AND 1 \<noteq> 0 \<longleftrightarrow> bit v 0" "v AND 2 \<noteq> 0 \<longleftrightarrow> bit v 1" "v AND 8 \<noteq> 0 \<longleftrightarrow> bit v 3" "v AND 16 \<noteq> 0 \<longleftrightarrow> bit v 4"
  using and_exp_eq_0_iff_not_bit[of v 0] and_exp_eq_0_iff_not_bit[of v 1] and_exp_eq_0_iff_not_bit[of v 3]
    and_exp_eq_0_iff_not_bit[of v 4] by auto


text \<open>The bits of one character.\<close>

lemma next_bit_loop_unfold:
  "next_bit_loop s which v =
     (case find (bit v) [0..<6] of
        Some j \<Rightarrow> Some (int which * 6 + int j)
      | None \<Rightarrow> if which + 1 = length s then Some (- 1)
                else Option.bind (char_val s (which + 1)) (next_bit_loop s (which + 1)))"
proof -
  have u: "[0..<6] = [0, 1, 2, 3, 4, 5 :: nat]" by (simp add: upt_rec)
  have z: "\<not> bit (0::int) n" for n by simp
  show ?thesis
    by (subst next_bit_loop.simps)
      (cases "v = 0"; auto simp: u and_7 and_56 and_pow[simplified] bit_0 split: option.splits)
qed

lemma find_bit:
  "find (bit (v::int)) [0..<6] = Some j \<longleftrightarrow> j < 6 \<and> bit v j \<and> (\<forall>i<j. \<not> bit v i)"
  "find (bit (v::int)) [0..<6] = None \<longleftrightarrow> (\<forall>i<6. \<not> bit v i)"
  by (auto simp: find_Some_iff find_None_iff)


text \<open>\<open>r\<close> is the first set bit from \<open>lo\<close> on, or \<open>- 1\<close>.\<close>

definition is_next :: "bytes \<Rightarrow> nat \<Rightarrow> int \<Rightarrow> bool" where
  "is_next s lo r \<longleftrightarrow>
     (if \<exists>n\<in>bits s. lo \<le> n then 0 \<le> r \<and> nat r \<in> bits s \<and> lo \<le> nat r \<and> (\<forall>n\<in>bits s. lo \<le> n \<longrightarrow> nat r \<le> n)
      else r = - 1)"

lemma is_next_gap:
  assumes "is_next s lo' r" "\<And>n. n \<in> bits s \<Longrightarrow> lo \<le> n \<Longrightarrow> lo' \<le> n" "lo \<le> lo'"
  shows "is_next s lo r"
proof -
  have eq: "lo \<le> n \<longleftrightarrow> lo' \<le> n" if "n \<in> bits s" for n using assms(2)[OF that] assms(3) by auto
  then have "(\<exists>n\<in>bits s. lo \<le> n) \<longleftrightarrow> (\<exists>n\<in>bits s. lo' \<le> n)" by blast
  then show ?thesis using assms(1) eq unfolding is_next_def by (auto split: if_splits)
qed

lemma bits_index: "j < 6 \<Longrightarrow> w * 6 + j \<in> bits s \<longleftrightarrow> w < length s \<and> bit (sint (s ! w) - 32) j"
proof -
  assume "j < 6"
  then have "(w * 6 + j) div 6 = w" "(w * 6 + j) mod 6 = j" by simp_all
  then show ?thesis by (simp add: bits_def)
qed

lemma bits_bound: "n \<in> bits s \<Longrightarrow> n < length s * 6"
  unfolding bits_def by (simp add: less_mult_imp_div_less div_less_iff_less_mult)

lemma char_split: "lo = w * 6 + l \<Longrightarrow> l \<le> 6 \<Longrightarrow> lo \<le> n \<Longrightarrow> n < w * 6 + 6 \<Longrightarrow> \<exists>j<6. n = w * 6 + j \<and> l \<le> (j::nat)"
  by (intro exI[of _ "n - w * 6"]) auto

lemma next_bit_loop_correct:
  "w < length s \<Longrightarrow> l \<le> 6 \<Longrightarrow> (\<And>j. j < 6 \<Longrightarrow> bit v j \<longleftrightarrow> l \<le> j \<and> w * 6 + j \<in> bits s) \<Longrightarrow>
   \<exists>r. next_bit_loop s w v = Some r \<and> is_next s (w * 6 + l) r"
proof (induction "length s - w" arbitrary: w v l)
  case (Suc d)
  note v = Suc.prems(3)
  show ?case
  proof (cases "find (bit v) [0..<6]")
    case (Some j)
    then have j: "j < 6" "bit v j" "\<And>i. i < j \<Longrightarrow> \<not> bit v i" by (auto simp: find_bit)
    have "w * 6 + j \<le> n" if n: "n \<in> bits s" "w * 6 + l \<le> n" for n
    proof (rule ccontr)
      assume "\<not> w * 6 + j \<le> n"
      then obtain i where "i < 6" "n = w * 6 + i" "l \<le> i" "i < j" using char_split[OF refl Suc.prems(2) n(2)] j(1) by auto
      then show False using v[of i] n j(3)[of i] by auto
    qed
    then show ?thesis
      using Some j v[OF j(1)] by (subst next_bit_loop_unfold) (auto simp: is_next_def nat_add_distrib nat_mult_distrib intro!: bexI[of _ "w * 6 + j"])
  next
    case None
    have gap: "w * 6 + 6 \<le> n" if n: "n \<in> bits s" "w * 6 + l \<le> n" for n
    proof (rule ccontr)
      assume "\<not> w * 6 + 6 \<le> n"
      then obtain i where "i < 6" "n = w * 6 + i" "l \<le> i" using char_split[OF refl Suc.prems(2) n(2)] by auto
      then show False using v[of i] n None by (auto simp: find_bit)
    qed
    show ?thesis
    proof (cases "w + 1 = length s")
      case True
      then have "\<not> (\<exists>n\<in>bits s. w * 6 + l \<le> n)" using gap bits_bound[of _ s] by fastforce
      then show ?thesis using True None by (subst next_bit_loop_unfold) (simp add: is_next_def)
    next
      case False
      then have w: "w + 1 < length s" using Suc.prems(1) by simp
      have v1: "bit (sint (s ! (w + 1)) - 32) j \<longleftrightarrow> 0 \<le> j \<and> (w + 1) * 6 + j \<in> bits s" if "j < 6" for j
        using bits_index[OF that, of "w + 1" s] w by simp
      obtain r where r: "next_bit_loop s (w + 1) (sint (s ! (w + 1)) - 32) = Some r" "is_next s ((w + 1) * 6 + 0) r"
        using Suc.hyps(1)[of "w + 1" 0] v1 w Suc.hyps(2) by fastforce
      have "is_next s (w * 6 + l) r"
        by (rule is_next_gap[OF _ gap]) (use r(2) Suc.prems(2) in \<open>auto simp: add.commute\<close>)
      then show ?thesis using False None w r(1) by (subst next_bit_loop_unfold) (simp add: char_val_def)
    qed
  qed
qed simp

lemma bit_and_mask:
  assumes "k < 5" "j < 6"
  shows "bit ((v::int) AND (63 - (2 ^ (k + 1) - 1))) j \<longleftrightarrow> bit v j \<and> k + 1 \<le> j"
proof -
  define a where "a = k + 1"
  have a: "a \<le> 5" "5 - k = 6 - a" using assms by (simp_all add: a_def)
  have "(2::int) ^ a * 2 ^ (6 - a) = 64"
    using a by (simp flip: power_add)
  then have e: "63 - (2 ^ a - 1) = (push_bit a (mask (6 - a)) :: int)"
    by (simp add: push_bit_eq_mult mask_eq_exp_minus_1 algebra_simps)
  show ?thesis unfolding a_def[symmetric] e using assms a by (auto simp: bit_simps)
qed



text \<open>C39. Asked for the bit after the last position of the last character, \<open>next_bit\<close> takes the terminating zero
  byte for a character and answers a bit beyond the end, which no \<open>test_bit\<close> confirms.\<close>

theorem next_bit_past_end:
  assumes "s \<noteq> []" "6 * length s + 5 < 2 ^ 31"
  shows "f_next_bit s (6 * int (length s) - 1) = Some (6 * int (length s) + 5) \<and>
     f_test_bit s (6 * int (length s) + 5) = Inr 0"
proof -
  have d: "(6 * int (length s) - 1) div 6 = int (length s) - 1" "(6 * int (length s) - 1) mod 6 = 5"
    by presburger+
  have n: "nat (int (length s) - 1) + 1 = length s" using assms by (cases s) auto
  have b: "find (bit (- 32 :: int)) [0..<6] = Some 5" by (simp add: upt_rec)
  have r: "to_int32 (6 * int (length s) - 1) = 6 * int (length s) - 1" "to_int32 (6 * int (length s) + 5) = 6 * int (length s) + 5"
    "to_int32 (int (length s)) = int (length s)"
    using assms by (auto intro!: to_int32_id)
  have p: "0 < 6 * int (length s) - 1" using assms by (cases s) auto
  show ?thesis
    using assms p d n b r
    by (simp add: f_next_bit_def f_test_bit_def Let_def c_div_nonneg char_val_def next_bit_loop_unfold)
qed

theorem next_bit_past_end_witness:
  "f_next_bit [33] 5 = Some 11 \<and> f_test_bit [33] 11 = Inr 0"
  using next_bit_past_end[of "[33]"] by simp


section \<open>Setting, clearing and testing\<close>

lemma wf_nth: "bits_wf s \<Longrightarrow> i < length s \<Longrightarrow> \<exists>k. 0 \<le> k \<and> k < 64 \<and> sint (s ! i) = 32 + k"
  using wf_char[of "s ! i"] unfolding bits_wf_def by (meson nth_mem)

lemma bits_wf_update: "bits_wf s \<Longrightarrow> 32 \<le> c \<Longrightarrow> c \<le> 95 \<Longrightarrow> bits_wf (s[i := c])"
  unfolding bits_wf_def using set_update_subset_insert[of s i c] by blast

lemma bits_pad: "bits (s @ replicate k 32) = bits s"
proof -
  have z: "sint (32 :: byte) - 32 = 0" by simp
  have "x \<in> bits (s @ replicate k 32) \<longleftrightarrow> x \<in> bits s" for x
  proof (cases "x div 6 < length s")
    case False
    then show ?thesis by (cases "x div 6 < length s + k") (auto simp: bits_def nth_append z)
  qed (simp add: bits_def nth_append)
  then show ?thesis by blast
qed

lemma bits_pad_wf: "bits_wf s \<Longrightarrow> bits_wf (s @ replicate k 32)"
  by (auto simp: bits_wf_def)

lemma int_index: "int n div 6 = int (n div 6)" "int n mod 6 = int (n mod 6)"
  by (simp_all add: zdiv_int zmod_int)

lemma index_eq: "m div 6 = i \<and> m mod 6 = b \<longleftrightarrow> m = 6 * i + b" if "b < 6" for m i b :: nat
  using that by auto

text \<open>Replacing one character, in which one bit changes.\<close>

lemma bits_update:
  assumes i: "i < length s" and b: "b < 6" and v: "0 \<le> v" "v < 64"
    and bits: "\<And>j. j < 6 \<Longrightarrow> bit v j \<longleftrightarrow> (if j = b then on else bit (sint (s ! i) - 32) j)"
  shows "bits (s[i := word_of_int (v + 32)]) = (if on then insert (6 * i + b) (bits s) else bits s - {6 * i + b})"
proof -
  have e: "sint (word_of_int (v + 32) :: byte) - 32 = v" using char_of_val(1)[OF v] by simp
  have m: "m \<in> bits (s[i := word_of_int (v + 32)]) \<longleftrightarrow> (if m = 6 * i + b then on else m \<in> bits s)" for m
  proof (cases "m div 6 = i")
    case True
    have "m mod 6 = b \<longleftrightarrow> m = 6 * i + b" using index_eq[OF b, of m i] True by blast
    then show ?thesis
      using i True e bits[of "m mod 6"] by (simp add: bits_def)
  next
    case False
    then have "m \<noteq> 6 * i + b" using b by auto
    then show ?thesis using False by (auto simp: bits_def nth_list_update)
  qed
  show ?thesis by (rule set_eqI, cases on) (simp_all only: m if_True if_False insert_iff Diff_iff empty_iff, simp_all)
qed

lemma set_val:
  assumes "0 \<le> k" "k < (64::int)" "b < 6"
  shows "0 \<le> k OR 2 ^ b" "k OR 2 ^ b < 64" "bit (k OR 2 ^ b) j \<longleftrightarrow> (if j = b then True else bit k j)"
proof -
  have "(2::int) ^ b < 2 ^ 6" using assms by (intro power_strict_increasing) auto
  then show "k OR 2 ^ b < 64" using OR_upper[of k 6 "2 ^ b"] assms by simp
  show "0 \<le> k OR 2 ^ b" using assms by simp
qed (auto simp: bit_simps)

lemma clear_val:
  assumes "0 \<le> k" "k < (64::int)"
  shows "0 \<le> k AND NOT (2 ^ b)" "k AND NOT (2 ^ b) < 64" "bit (k AND NOT (2 ^ b)) j \<longleftrightarrow> (if j = b then False else bit k j)"
proof -
  show "k AND NOT (2 ^ b) < 64" using AND_upper1[of k "NOT (2 ^ b)"] assms by linarith
  show "0 \<le> k AND NOT (2 ^ b)" using assms by simp
qed (auto simp: bit_simps)

lemma f_set_bit_wf:
  assumes wf: "bits_wf s" and n: "int n \<le> max_bits" "int n < 2 ^ 31" and len: "length s < 2 ^ 31"
  shows "\<exists>s1. f_set_bit max_bits s (int n) = Inr s1 \<and> bits_wf s1 \<and> bits s1 = insert n (bits s) \<and>
     length s1 = max (length s) (n div 6 + 1)"
proof -
  let ?i = "n div 6" and ?b = "n mod 6"
  define str where "str = s @ replicate (n div 6 + 1 - length s) 32"
  have str: "(if length s \<le> ?i then s @ replicate (?i + 1 - length s) 32 else s) = str" "?i < length str"
    by (auto simp: str_def)
  have wf': "bits_wf str" "bits str = bits s" using wf by (simp_all add: str_def bits_pad bits_pad_wf)
  obtain k where k: "0 \<le> k" "k < 64" "sint (str ! ?i) = 32 + k" using wf_nth[OF wf'(1) str(2)] by blast
  let ?v = "k OR 2 ^ ?b"
  note v = set_val[OF k(1,2), of ?b]
  have c: "32 \<le> (word_of_int (?v + 32) :: byte)" "(word_of_int (?v + 32) :: byte) \<le> 95"
    using char_of_val(2,3)[of ?v] v by auto
  have "bits (str[?i := word_of_int (?v + 32)]) = insert (6 * ?i + ?b) (bits str)"
    using bits_update[OF str(2), of ?b ?v True] v k by simp
  moreover have "f_set_bit max_bits s (int n) = Inr (str[?i := word_of_int (?v + 32)])"
  proof -
    have t: "to_int32 (int n) = int n" "to_int32 (int (length s)) = int (length s)" using n len by (auto intro!: to_int32_id)
    show ?thesis
      unfolding f_set_bit_def Let_def t int_index nat_int of_nat_le_iff str(1) using n k by simp
  qed
  ultimately show ?thesis
    using bits_wf_update[OF wf'(1) c] wf'(2) by (simp add: str_def)
qed

lemma f_clear_bit_wf:
  assumes wf: "bits_wf s" and n: "int n \<le> max_bits" "int n < 2 ^ 31" and len: "length s < 2 ^ 31"
  shows "\<exists>s2. f_clear_bit max_bits s (int n) = Inr s2 \<and> bits_wf s2 \<and> bits s2 = bits s - {n} \<and> length s2 = length s"
proof (cases "n div 6 < length s")
  case True
  let ?i = "n div 6" and ?b = "n mod 6"
  obtain k where k: "0 \<le> k" "k < 64" "sint (s ! ?i) = 32 + k" using wf_nth[OF wf True] by blast
  let ?v = "k AND NOT (2 ^ ?b)"
  note v = clear_val[OF k(1,2), of ?b]
  have c: "32 \<le> (word_of_int (?v + 32) :: byte)" "(word_of_int (?v + 32) :: byte) \<le> 95"
    using char_of_val(2,3)[of ?v] v by auto
  have "bits (s[?i := word_of_int (?v + 32)]) = bits s - {6 * ?i + ?b}"
    using bits_update[OF True, of ?b ?v False] v k by simp
  moreover have "f_clear_bit max_bits s (int n) = Inr (s[?i := word_of_int (?v + 32)])"
    using n len k True by (simp add: f_clear_bit_def Let_def to_int32_id int_index)
  ultimately show ?thesis using bits_wf_update[OF wf c] by simp
next
  case False
  then have "n \<notin> bits s" by (simp add: bits_def)
  moreover have "f_clear_bit max_bits s (int n) = Inr s"
    using n len False by (simp add: f_clear_bit_def Let_def to_int32_id int_index)
  ultimately show ?thesis using wf by simp
qed

lemma f_test_bit_iff:
  assumes "int n < 2 ^ 31" "length s < 2 ^ 31"
  shows "f_test_bit s (int n) = Inr (if n \<in> bits s then 1 else 0)"
  using assms and_exp_eq_0_iff_not_bit[of "sint (s ! (n div 6)) - 32" "n mod 6"]
  by (auto simp: f_test_bit_def bits_def Let_def to_int32_id c_div_nonneg int_index)

text \<open>C37. The bit strings are sets of bit numbers: \<open>set_bit\<close> adds one, extending the string just as far as needed,
  \<open>clear_bit\<close> removes one, \<open>test_bit\<close> answers membership, and all characters stay printable.\<close>

theorem bits_set_clear_test:
  assumes "bits_wf s" "int n \<le> max_bits" "int n < 2 ^ 31" "length s < 2 ^ 31"
  shows "(\<exists>s1. f_set_bit max_bits s (int n) = Inr s1 \<and> bits_wf s1 \<and> bits s1 = insert n (bits s) \<and>
            length s1 = max (length s) (n div 6 + 1)) \<and>
     (\<exists>s2. f_clear_bit max_bits s (int n) = Inr s2 \<and> bits_wf s2 \<and> bits s2 = bits s - {n} \<and> length s2 = length s) \<and>
     f_test_bit s (int n) = Inr (if n \<in> bits s then 1 else 0)"
  using f_set_bit_wf[OF assms] f_clear_bit_wf[OF assms] f_test_bit_iff[OF assms(3,4)] by blast

theorem bits_set_clear_test_witness:
  "\<exists>s1. f_set_bit 1200 [33] 9 = Inr s1 \<and> bits s1 = insert 9 (bits [33]) \<and> length s1 = 2"
  using bits_set_clear_test[of "[33]" 9 1200] by (auto simp: bits_wf_def)

end
