(* ===== verification/Outbuf.thy ===== *)
theory Outbuf
  imports Stralloc
begin

text \<open>
  The growing text buffer of \<^verbatim>\<open>src/outbuf.c\<close> on top of the counted strings: \<open>buffer\<close> is a counted string that is
  extended as text is added, \<open>real_size\<close> the length of the text in it.  A string argument is the list of its
  bytes before the zero.  Each operation takes what the allocator answers: an address and the initial
  contents of new memory.  A write outside the allocated bytes makes the operation return \<open>None\<close>.  Lengths are
  natural numbers; the one subtraction that can wrap around is done on 64 bits.
\<close>

record outbuffer =
  real_size :: nat
  buffer :: "u64 option"

definition outbuf_zero :: outbuffer where
  "outbuf_zero = \<lparr>real_size = 0, buffer = None\<rparr>"

text \<open>Storing bytes into a counted string, whose payload a zero byte follows.\<close>

definition poke :: "mheap \<Rightarrow> u64 \<Rightarrow> nat \<Rightarrow> bytes \<Rightarrow> mheap option" where
  "poke hp p off bs =
     (case hp p of
        None \<Rightarrow> None
      | Some b \<Rightarrow>
          if off + length bs > length (mb_data b) + 1 then None
          else Some (hp(p \<mapsto> b\<lparr>mb_data := take (length (mb_data b))
                 (take off (mb_data b) @ bs @ drop (off + length bs) (mb_data b))\<rparr>)))"

definition strcpy :: "mheap \<Rightarrow> u64 \<Rightarrow> nat \<Rightarrow> bytes \<Rightarrow> mheap option" where
  "strcpy hp p off s = poke hp p off (s @ [0])"

definition strncpy :: "mheap \<Rightarrow> u64 \<Rightarrow> nat \<Rightarrow> bytes \<Rightarrow> size_t \<Rightarrow> mheap option" where
  "strncpy hp p off s n =
     (if length s + 1 \<le> unat n
      then (case hp p of
              None \<Rightarrow> None
            | Some b \<Rightarrow> if off + unat n > length (mb_data b) + 1 then None
                       else poke hp p off (s @ replicate (unat n - length s) 0))
      else poke hp p off (take (unat n) s))"

text \<open>Making room for \<open>len\<close> more bytes, as each of \<open>outbuf_extend\<close>, \<open>outbuf_add\<close> and \<open>outbuf_addchar\<close> does it: the
  text is full, or has to be cut at \<open>USHRT_MAX\<close>, or there is room.  \<open>first\<close> is the size of a new buffer.\<close>

datatype room = Full | Cut mheap u64 | Room mheap u64 nat

definition outbuf_room :: "mheap \<Rightarrow> outbuffer \<Rightarrow> nat \<Rightarrow> nat \<Rightarrow> u64 \<Rightarrow> bytes \<Rightarrow> room option" where
  "outbuf_room hp outbuf first len addr mem =
     (case buffer outbuf of
        Some p \<Rightarrow>
          (case hp p of
             None \<Rightarrow> None
           | Some b \<Rightarrow>
               if real_size outbuf + len > unat (mb_size b) then
                 if real_size outbuf = USHRT_MAX then Some Full
                 else if (real_size outbuf + len) * 2 > USHRT_MAX then
                   if real_size outbuf + len > USHRT_MAX
                   then map_option (\<lambda>(p', hp'). Cut hp' p') (int_extend_string hp p USHRT_MAX addr mem)
                   else map_option (\<lambda>(p', hp'). Room hp' p' (real_size outbuf)) (int_extend_string hp p (real_size outbuf + len) addr mem)
                 else map_option (\<lambda>(p', hp'). Room hp' p' (real_size outbuf)) (int_extend_string hp p ((real_size outbuf + len) * 2) addr mem)
               else Some (Room hp p (real_size outbuf)))
      | None \<Rightarrow> (case int_new_string hp first addr mem of (p, hp') \<Rightarrow> Some (Room hp' p 0)))"

definition outbuf_extend :: "mheap \<Rightarrow> outbuffer \<Rightarrow> nat \<Rightarrow> u64 \<Rightarrow> bytes \<Rightarrow> (mheap \<times> outbuffer \<times> size_t) option" where
  "outbuf_extend hp outbuf len addr mem =
     (case outbuf_room hp outbuf len len addr mem of
        None \<Rightarrow> None
      | Some Full \<Rightarrow> Some (hp, outbuf, 0)
      | Some (Cut hp' p) \<Rightarrow> Some (hp', outbuf\<lparr>buffer := Some p\<rparr>, of_nat USHRT_MAX - of_nat (real_size outbuf))
      | Some (Room hp' p rs) \<Rightarrow> Some (hp', \<lparr>real_size = rs, buffer = Some p\<rparr>, of_nat len))"

definition outbuf_add :: "mheap \<Rightarrow> outbuffer \<Rightarrow> bytes \<Rightarrow> u64 \<Rightarrow> bytes \<Rightarrow> (mheap \<times> outbuffer) option" where
  "outbuf_add hp outbuf str addr mem =
     (case outbuf_room hp outbuf (length str) (length str) addr mem of
        None \<Rightarrow> None
      | Some Full \<Rightarrow> Some (hp, outbuf)
      | Some (Cut hp' p) \<Rightarrow>
          (case strncpy hp' p (real_size outbuf) str (of_nat USHRT_MAX - of_nat (real_size outbuf)) of
             None \<Rightarrow> None
           | Some hp2 \<Rightarrow>
               map_option (\<lambda>hp3. (hp3, \<lparr>real_size = USHRT_MAX, buffer = Some p\<rparr>)) (poke hp2 p USHRT_MAX [0]))
      | Some (Room hp' p rs) \<Rightarrow>
          map_option (\<lambda>hp2. (hp2, \<lparr>real_size = rs + length str, buffer = Some p\<rparr>)) (strcpy hp' p rs str))"

definition outbuf_addchar :: "mheap \<Rightarrow> outbuffer \<Rightarrow> byte \<Rightarrow> u64 \<Rightarrow> bytes \<Rightarrow> (mheap \<times> outbuffer) option" where
  "outbuf_addchar hp outbuf c addr mem =
     (case outbuf_room hp outbuf 80 1 addr mem of
        None \<Rightarrow> None
      | Some Full \<Rightarrow> Some (hp, outbuf)
      | Some (Cut hp' p) \<Rightarrow>
          (case poke hp' p (real_size outbuf) [c] of
             None \<Rightarrow> None
           | Some hp2 \<Rightarrow>
               map_option (\<lambda>hp3. (hp3, \<lparr>real_size = USHRT_MAX, buffer = Some p\<rparr>)) (poke hp2 p USHRT_MAX [0]))
      | Some (Room hp' p rs) \<Rightarrow>
          map_option (\<lambda>hp2. (hp2, \<lparr>real_size = rs + 1, buffer = Some p\<rparr>)) (poke hp' p rs [c, 0]))"

definition outbuf_fix :: "mheap \<Rightarrow> outbuffer \<Rightarrow> u64 \<Rightarrow> bytes \<Rightarrow> (mheap \<times> outbuffer) option" where
  "outbuf_fix hp outbuf addr mem =
     (case buffer outbuf of
        None \<Rightarrow> Some (hp, outbuf)
      | Some p \<Rightarrow> map_option (\<lambda>(p', hp'). (hp', outbuf\<lparr>buffer := Some p'\<rparr>)) (int_extend_string hp p (real_size outbuf) addr mem))"

text \<open>The value that \<open>outbuf_push\<close> leaves on the stack.\<close>

definition outbuf_push :: "mheap \<Rightarrow> outbuffer \<Rightarrow> u64 \<Rightarrow> bytes \<Rightarrow> (mheap \<times> str_sv) option" where
  "outbuf_push hp outbuf addr mem =
     (case buffer outbuf of
        None \<Rightarrow> Some (hp, SvConst [])
      | Some p \<Rightarrow> map_option (\<lambda>(p', hp'). (hp', SvMalloc p')) (int_extend_string hp p (real_size outbuf) addr mem))"

section \<open>The text of a buffer\<close>

text \<open>The counted string at \<open>p\<close> has \<open>cap\<close> bytes and begins with the text.\<close>

definition holds :: "mheap \<Rightarrow> u64 \<Rightarrow> bytes \<Rightarrow> nat \<Rightarrow> bool" where
  "holds hp p tx cap \<longleftrightarrow>
     (\<exists>b. hp p = Some b \<and> unat (mb_size b) = cap \<and> length (mb_data b) = cap \<and> cap \<le> USHRT_MAX \<and>
          length tx \<le> cap \<and> take (length tx) (mb_data b) = tx)"

definition outbuf_inv :: "mheap \<Rightarrow> outbuffer \<Rightarrow> bytes \<Rightarrow> bool" where
  "outbuf_inv hp outbuf tx \<longleftrightarrow>
     real_size outbuf = length tx \<and>
     (case buffer outbuf of None \<Rightarrow> tx = [] | Some p \<Rightarrow> \<exists>cap. holds hp p tx cap)"

lemma outbuf_inv_zero: "outbuf_inv hp outbuf_zero []"
  by (simp add: outbuf_inv_def outbuf_zero_def)

lemma mblock_header_size: "len \<le> USHRT_MAX \<Longrightarrow> unat (snd (mblock_header p len)) = len"
  by (auto simp: mblock_header_def USHRT_MAX_def unat_of_nat_lt)

lemma new_holds:
  "len \<le> USHRT_MAX \<Longrightarrow> len \<le> length mem \<Longrightarrow> \<exists>hp'. int_new_string hp len addr mem = (addr, hp') \<and> holds hp' addr [] len"
  using mblock_header_size[of len addr] by (auto simp: int_new_string_def holds_def split: prod.splits)

lemma extend_holds:
  assumes "holds hp p tx cap" "n \<le> USHRT_MAX" "length tx \<le> n" "n \<le> length mem"
  shows "\<exists>hp'. int_extend_string hp p n addr mem = Some (addr, hp') \<and> holds hp' addr tx n"
proof -
  obtain b where b: "hp p = Some b" "length (mb_data b) = cap" "length tx \<le> cap" "take (length tx) (mb_data b) = tx"
    using assms(1) by (auto simp: holds_def)
  obtain e sz where h: "mblock_header addr n = (e, sz)" by fastforce
  then have "unat sz = n" using mblock_header_size[OF assms(2), of addr] by simp
  then show ?thesis using b assms h by (auto simp: int_extend_string_def holds_def min_def)
qed

lemma poke_holds:
  assumes "holds hp p tx cap" "length tx + length s \<le> cap"
  shows "\<exists>hp'. poke hp p (length tx) s = Some hp' \<and> holds hp' p (tx @ s) cap"
    and "\<exists>hp'. poke hp p (length tx) (s @ [0]) = Some hp' \<and> holds hp' p (tx @ s) cap"
  using assms by (auto simp: poke_def holds_def)

lemma poke_end:
  assumes "holds hp p tx cap"
  shows "\<exists>hp'. poke hp p cap [0] = Some hp' \<and> holds hp' p tx cap"
  using assms by (auto simp: poke_def holds_def)

lemma outbuf_room_cases:
  assumes inv: "outbuf_inv hp outbuf tx" and mem: "USHRT_MAX \<le> length mem"
    and first: "buffer outbuf = None \<Longrightarrow> len \<le> first \<and> first \<le> USHRT_MAX"
  shows "(outbuf_room hp outbuf first len addr mem = Some Full \<and> length tx = USHRT_MAX) \<or>
    (\<exists>hp' p. outbuf_room hp outbuf first len addr mem = Some (Cut hp' p) \<and> holds hp' p tx USHRT_MAX \<and>
       length tx < USHRT_MAX \<and> USHRT_MAX < length tx + len) \<or>
    (\<exists>hp' p cap. outbuf_room hp outbuf first len addr mem = Some (Room hp' p (length tx)) \<and> holds hp' p tx cap \<and>
       length tx + len \<le> cap)"
proof (cases "buffer outbuf")
  case None
  then show ?thesis
    using new_holds[of first mem hp addr] inv mem first
    by (fastforce simp: outbuf_room_def outbuf_inv_def)
next
  case (Some p)
  then obtain cap where h: "holds hp p tx cap" and rs: "real_size outbuf = length tx" using inv by (auto simp: outbuf_inv_def)
  obtain b where b: "hp p = Some b" "unat (mb_size b) = cap" "cap \<le> USHRT_MAX" "length tx \<le> cap" using h by (auto simp: holds_def)
  consider "length tx + len \<le> cap" | "cap < length tx + len" "length tx = USHRT_MAX"
    | "cap < length tx + len" "length tx < USHRT_MAX" "USHRT_MAX < length tx + len"
    | "cap < length tx + len" "length tx < USHRT_MAX" "length tx + len \<le> USHRT_MAX" "USHRT_MAX < (length tx + len) * 2"
    | "cap < length tx + len" "length tx < USHRT_MAX" "(length tx + len) * 2 \<le> USHRT_MAX"
    using b by linarith
  then show ?thesis
  proof cases
    case 1 then show ?thesis using Some b rs h by (auto simp: outbuf_room_def)
  next
    case 2 then show ?thesis using Some b rs by (auto simp: outbuf_room_def)
  next
    case 3 then show ?thesis using Some b rs extend_holds[OF h, of USHRT_MAX mem addr] mem by (auto simp: outbuf_room_def)
  next
    case 4 then show ?thesis using Some b rs extend_holds[OF h, of "length tx + len" mem addr] mem by (auto simp: outbuf_room_def)
  next
    case 5 then show ?thesis using Some b rs extend_holds[OF h, of "(length tx + len) * 2" mem addr] mem by (fastforce simp: outbuf_room_def)
  qed
qed


lemma unat_of_nat_diff:
  assumes "y \<le> x" "x < 2 ^ 64"
  shows "unat (of_nat x - of_nat y :: size_t) = x - y"
proof -
  have u: "unat (of_nat x :: size_t) = x" "unat (of_nat y :: size_t) = y" using assms by (auto intro!: unat_of_nat_lt)
  have "(of_nat y :: size_t) \<le> of_nat x" unfolding word_le_nat_alt u by (rule assms(1))
  then show ?thesis using unat_sub[of "of_nat y :: size_t" "of_nat x"] u by simp
qed

lemma outbuf_add_wf:
  assumes inv: "outbuf_inv hp outbuf tx" and mem: "USHRT_MAX \<le> length mem"
    and first: "buffer outbuf = None \<Longrightarrow> length str \<le> USHRT_MAX"
  shows "\<exists>hp' outbuf'. outbuf_add hp outbuf str addr mem = Some (hp', outbuf') \<and>
           outbuf_inv hp' outbuf' (take USHRT_MAX (tx @ str))"
proof -
  have rs: "real_size outbuf = length tx" using inv by (simp add: outbuf_inv_def)
  from outbuf_room_cases[OF inv mem, of "length str" "length str" addr] first
  consider (full) "outbuf_room hp outbuf (length str) (length str) addr mem = Some Full" "length tx = USHRT_MAX"
    | (cut) hp' p where "outbuf_room hp outbuf (length str) (length str) addr mem = Some (Cut hp' p)" "holds hp' p tx USHRT_MAX"
        "length tx < USHRT_MAX" "USHRT_MAX < length tx + length str"
    | (room) hp' p cap where "outbuf_room hp outbuf (length str) (length str) addr mem = Some (Room hp' p (length tx))"
        "holds hp' p tx cap" "length tx + length str \<le> cap"
    by blast
  then show ?thesis
  proof cases
    case full
    then show ?thesis using inv by (simp add: outbuf_add_def)
  next
    case cut
    let ?n = "USHRT_MAX - length tx"
    have n: "unat (of_nat USHRT_MAX - of_nat (length tx) :: size_t) = ?n"
      by (rule unat_of_nat_diff) (use cut(3) in \<open>simp_all add: USHRT_MAX_def\<close>)
    obtain hp2 where p2: "poke hp' p (length tx) (take ?n str) = Some hp2" "holds hp2 p (tx @ take ?n str) USHRT_MAX"
      using poke_holds(1)[OF cut(2), of "take ?n str"] cut(3,4) by auto
    obtain hp3 where p3: "poke hp2 p USHRT_MAX [0] = Some hp3" "holds hp3 p (tx @ take ?n str) USHRT_MAX"
      using poke_end[OF p2(2)] by blast
    have "outbuf_add hp outbuf str addr mem = Some (hp3, \<lparr>real_size = USHRT_MAX, buffer = Some p\<rparr>)"
    proof -
      have "\<not> length str + 1 \<le> ?n" using cut(4) by linarith
      then show ?thesis unfolding outbuf_add_def strncpy_def rs n using cut(1) p2(1) p3(1) by simp
    qed
    then show ?thesis using p3(2) cut(3,4) by (auto simp: outbuf_inv_def)
  next
    case room
    then have "length tx + length str \<le> USHRT_MAX" by (auto simp: holds_def)
    then show ?thesis
      using room poke_holds(2)[OF room(2,3)] by (auto simp: outbuf_add_def strcpy_def outbuf_inv_def)
  qed
qed

lemma outbuf_addchar_wf:
  assumes inv: "outbuf_inv hp outbuf tx" and mem: "USHRT_MAX \<le> length mem"
  shows "\<exists>hp' outbuf'. outbuf_addchar hp outbuf c addr mem = Some (hp', outbuf') \<and>
           outbuf_inv hp' outbuf' (take USHRT_MAX (tx @ [c]))"
proof -
  from outbuf_room_cases[OF inv mem, of 1 80 addr]
  consider (full) "outbuf_room hp outbuf 80 1 addr mem = Some Full" "length tx = USHRT_MAX"
    | (room) hp' p cap where "outbuf_room hp outbuf 80 1 addr mem = Some (Room hp' p (length tx))"
        "holds hp' p tx cap" "length tx + length [c] \<le> cap"
    by (fastforce simp: USHRT_MAX_def)
  then show ?thesis
  proof cases
    case full
    then show ?thesis using inv by (simp add: outbuf_addchar_def)
  next
    case room
    then have "length tx + 1 \<le> USHRT_MAX" by (auto simp: holds_def)
    then show ?thesis
      using room poke_holds(2)[OF room(2,3)] by (auto simp: outbuf_addchar_def outbuf_inv_def)
  qed
qed

lemma outbuf_push_wf:
  assumes "outbuf_inv hp outbuf tx" "USHRT_MAX \<le> length mem"
  shows "\<exists>hp' v. outbuf_push hp outbuf addr mem = Some (hp', v) \<and> sv_bytes \<lparr>st_shared = t, st_heap = hp'\<rparr> v = Some tx \<and>
           (\<forall>p. v = SvMalloc p \<longrightarrow> (\<exists>b. hp' p = Some b \<and> mb_exact p b))"
proof (cases "buffer outbuf")
  case None
  then show ?thesis using assms by (simp add: outbuf_push_def outbuf_inv_def sv_bytes_def)
next
  case (Some p)
  then obtain b where b: "hp p = Some b" "length tx \<le> length (mb_data b)" "take (length tx) (mb_data b) = tx"
      "length tx \<le> USHRT_MAX" "real_size outbuf = length tx"
    using assms by (auto simp: outbuf_inv_def holds_def)
  obtain e sz where "mblock_header addr (length tx) = (e, sz)" by fastforce
  then show ?thesis
    using Some b by (auto simp: outbuf_push_def int_extend_string_def sv_bytes_def mb_exact_def USHRT_MAX_def)
qed

section \<open>Sequences of additions\<close>

datatype out_op = Add bytes | Addchar byte

fun op_text :: "out_op \<Rightarrow> bytes" where
  "op_text (Add s) = s"
| "op_text (Addchar c) = [c]"

fun run_out :: "mheap \<Rightarrow> outbuffer \<Rightarrow> (out_op \<times> u64 \<times> bytes) list \<Rightarrow> (mheap \<times> outbuffer) option" where
  "run_out hp outbuf [] = Some (hp, outbuf)"
| "run_out hp outbuf ((act, addr, mem) # ops) =
     (case (case act of Add s \<Rightarrow> outbuf_add hp outbuf s addr mem | Addchar c \<Rightarrow> outbuf_addchar hp outbuf c addr mem) of
        None \<Rightarrow> None
      | Some (hp', outbuf') \<Rightarrow> run_out hp' outbuf' ops)"

lemma run_out_wf:
  assumes "outbuf_inv hp outbuf tx" "length tx \<le> USHRT_MAX"
    and "\<forall>(act, addr, mem)\<in>set ops. USHRT_MAX \<le> length mem \<and> length (op_text act) \<le> USHRT_MAX"
  shows "\<exists>hp' outbuf'. run_out hp outbuf ops = Some (hp', outbuf') \<and>
           outbuf_inv hp' outbuf' (take USHRT_MAX (tx @ concat (map (op_text \<circ> fst) ops)))"
  using assms
proof (induction ops arbitrary: hp outbuf tx)
  case (Cons x ops)
  obtain act addr mem where x: "x = (act, addr, mem)" by (metis prod_cases3)
  have "\<exists>hp' outbuf'. (case act of Add s \<Rightarrow> outbuf_add hp outbuf s addr mem | Addchar c \<Rightarrow> outbuf_addchar hp outbuf c addr mem) =
      Some (hp', outbuf') \<and> outbuf_inv hp' outbuf' (take USHRT_MAX (tx @ op_text act))"
    using Cons.prems outbuf_add_wf[of hp outbuf tx mem] outbuf_addchar_wf[of hp outbuf tx mem] by (cases act) (auto simp: x)
  then obtain hp1 outbuf1 where s: "(case act of Add s \<Rightarrow> outbuf_add hp outbuf s addr mem | Addchar c \<Rightarrow> outbuf_addchar hp outbuf c addr mem) =
      Some (hp1, outbuf1)" "outbuf_inv hp1 outbuf1 (take USHRT_MAX (tx @ op_text act))" by blast
  have cut: "take n (take n a @ b) = take n (a @ b)" for n and a b :: bytes
    by (cases "length a \<le> n") simp_all
  obtain hp' outbuf' where r: "run_out hp1 outbuf1 ops = Some (hp', outbuf')"
      "outbuf_inv hp' outbuf' (take USHRT_MAX (take USHRT_MAX (tx @ op_text act) @ concat (map (op_text \<circ> fst) ops)))"
  proof -
    have "length (take USHRT_MAX (tx @ op_text act)) \<le> USHRT_MAX"
      and "\<forall>(act, addr, mem)\<in>set ops. USHRT_MAX \<le> length mem \<and> length (op_text act) \<le> USHRT_MAX"
      using Cons.prems(3) by auto
    from Cons.IH[OF s(2) this] show thesis using that by blast
  qed
  show ?case using s(1) r(1) r(2)[unfolded cut] by (simp add: x comp_def)
qed simp



text \<open>C40. A first piece of more than \<open>USHRT_MAX\<close> bytes is stored whole.  Every further piece then shrinks the
  buffer to \<open>USHRT_MAX\<close> bytes and writes behind its end.\<close>

theorem outbuf_add_overflow:
  assumes "USHRT_MAX < length s" "length s < 2 ^ 63" "length s \<le> length mem" "str \<noteq> []" "USHRT_MAX \<le> length mem'"
  shows "\<exists>hp' outbuf'. outbuf_add hp outbuf_zero s addr mem = Some (hp', outbuf') \<and>
     outbuf_add hp' outbuf' str addr' mem' = None \<and> outbuf_addchar hp' outbuf' c addr' mem' = None"
proof -
  obtain e sz where h: "mblock_header addr (length s) = (e, sz)" by fastforce
  then have sz: "unat sz = USHRT_MAX" using assms(1) by (auto simp: mblock_header_def USHRT_MAX_def split: if_splits)
  define b where "b = \<lparr>mb_blkend = e, mb_size = sz, mb_ref = 1, mb_data = s\<rparr>"
  have w: "unat (of_nat USHRT_MAX - of_nat (length s) :: size_t) = 2 ^ 64 + USHRT_MAX - length s"
  proof -
    have u: "unat (of_nat USHRT_MAX :: size_t) = USHRT_MAX" "unat (of_nat (length s) :: size_t) = length s"
      using assms(2) by (auto intro!: unat_of_nat_lt simp: USHRT_MAX_def)
    then have "\<not> (of_nat (length s) :: size_t) \<le> of_nat USHRT_MAX" unfolding word_le_nat_alt u using assms(1) by simp
    then show ?thesis using u unat_sub_if_size[of "of_nat USHRT_MAX :: size_t" "of_nat (length s)"] assms(1)
      by (simp add: word_size)
  qed
  have room: "outbuf_room (hp(addr \<mapsto> b)) \<lparr>real_size = length s, buffer = Some addr\<rparr> first len addr' mem' =
      Some (Cut ((hp(addr \<mapsto> b, addr := None))(addr' \<mapsto> b')) addr')"
    if "len > 0" "b' = b\<lparr>mb_blkend := fst (mblock_header addr' USHRT_MAX), mb_size := snd (mblock_header addr' USHRT_MAX),
        mb_data := take USHRT_MAX s\<rparr>" for first len b'
    using that assms(1) sz by (auto simp: outbuf_room_def int_extend_string_def b_def split: prod.splits)
  note room1 = room[OF _ refl]
  have "strncpy hq p (length s) str (of_nat USHRT_MAX - of_nat (length s)) = None"
    if "hq p = Some q" "length (mb_data q) = USHRT_MAX" for hq p q
    unfolding strncpy_def poke_def w using that assms(1,2) by (auto simp: min_def)
  then have "outbuf_add (hp(addr \<mapsto> b)) \<lparr>real_size = length s, buffer = Some addr\<rparr> str addr' mem' = None"
    using assms(1,4) room1[of "length str" "length str"] by (simp add: outbuf_add_def)
  moreover have "outbuf_addchar (hp(addr \<mapsto> b)) \<lparr>real_size = length s, buffer = Some addr\<rparr> c addr' mem' = None"
    using assms(1) room1[of 1 80] by (simp add: outbuf_addchar_def poke_def min_def)
  moreover have "outbuf_add hp outbuf_zero s addr mem = Some (hp(addr \<mapsto> b), \<lparr>real_size = length s, buffer = Some addr\<rparr>)"
    using h assms(3) by (simp add: outbuf_add_def outbuf_zero_def outbuf_room_def int_new_string_def strcpy_def poke_def b_def)
  ultimately show ?thesis by blast
qed

theorem outbuf_add_overflow_witness:
  "\<exists>hp' outbuf'. outbuf_add Map.empty outbuf_zero (replicate 65536 97) 16 (replicate 65536 7) = Some (hp', outbuf') \<and>
     outbuf_add hp' outbuf' [98] 32 (replicate 65535 7) = None"
  using outbuf_add_overflow[of "replicate 65536 97" "replicate 65536 7" "[98]" "replicate 65535 7" Map.empty 16 32 99]
  by (auto simp: USHRT_MAX_def)

end
