(* ===== verification/Spec2Isabelle.thy ===== *)
theory Spec2Isabelle
  imports Avl_Tree Transport Async_Queue Crc32 Otable Uids Mapping_Strings Call_Out Qsort Envsubst Bits Outbuf
begin

text \<open>
  A verification development of the Lithos LPMud driver.  The driver compiles LPC programs to byte code and runs
  them for many objects and connections.  Below the compiler and the interpreter lie the data structures that
  every LPC operation goes through: shared and counted strings, tables keyed by string addresses, mappings, the
  wheel of delayed calls, the buffers and queues between connections, threads and the main loop.  This
  development models these components as functions on explicit states and proves what their callers rely on.

  \<^bold>\<open>Conventions.\<close>  Struct types are records, pointers to them are addresses (\<open>u64\<close>) or the structures themselves
  where no aliasing is observable, linked chains are lists.  Machine integers are words where the code depends
  on their width (\<open>size_t\<close>, hash values, the 16-bit size fields) and integers otherwise, with the conversions of C
  written out (\<open>to_int32\<close>, \<open>c_div\<close>).  A failed allocation, a raised LPC error, a NULL dereference or an access outside a
  block is a value of an option or sum type.  What the operating system, the allocator or an LPC callback
  answers is an argument.

  \<^bold>\<open>Foundations.\<close>
  \<^item> \<open>Prelude\<close>: the machine types, C arithmetic, lemmas on words, lists and circular arrays.
  \<^item> \<open>Interfaces\<close>: the locale \<open>keyed_store\<close> (a store that behaves as a finite map under every sequence of operations)
    and the locale \<open>fifo\<close> (a bounded channel that delivers what was put, in order).
  \<^item> \<open>Hash_Table\<close>: the locale \<open>chained_table\<close> for arrays of chains, used by three tables of the driver.

  \<^bold>\<open>Trees, hashes, sorting, text\<close> (\<^verbatim>\<open>lib/misc\<close>, \<^verbatim>\<open>lib/efuns/bits.c\<close>, \<^verbatim>\<open>src/outbuf.c\<close>).
  \<^item> \<open>Avl_Tree\<close> (\<^verbatim>\<open>avltree.c\<close>): insertion (\<open>sprout\<close>), deletion, search and traversal with the stored balance factors.
    Every operation on a balanced search tree keeps it balanced and ordered, meets no NULL pointer, and
    every sequence of operations is a sequence of map updates.
  \<^item> \<open>Hash_Str\<close> (\<^verbatim>\<open>hash.c\<close>), \<open>Crc32\<close> (\<^verbatim>\<open>crc32.c\<close>): the string hash agrees between its two calling modes; the table-driven
    checksum equals the bitwise shift register and detects every change of a single byte.
  \<^item> \<open>Qsort\<close> (\<^verbatim>\<open>qsort.c\<close>): the quick sort on untyped memory terminates and permutes for every callback, and sorts for a
    consistent one.
  \<^item> \<open>Envsubst\<close> (\<^verbatim>\<open>envsubst.c\<close>): the substitution equals the expansion of the tokens of the source, within the buffer.
  \<^item> \<open>Bits\<close>: the bit-string efuns as operations on sets of numbers, and where \<open>next_bit\<close> leaves its string.
  \<^item> \<open>Outbuf\<close>: the growing text buffer over the counted strings, and the first piece that is too long for it.

  \<^bold>\<open>Strings and tables\<close> (\<^verbatim>\<open>src/stralloc.c\<close>, \<^verbatim>\<open>lib/lpc\<close>, \<^verbatim>\<open>lib/efuns/uids.c\<close>).
  \<^item> \<open>Stralloc\<close>: the table of shared strings with its move-to-front lookup and saturating reference counts, the
    counted strings with their 16-bit size field, and string values.  Equal strings get one address; making and
    freeing a string restores the table; lengths are exact.  \<open>String_Ptr\<close> gives the clients a view of the
    table as a partial injection from contents to addresses.
  \<^item> \<open>Otable\<close> (\<^verbatim>\<open>otable.c\<close>): the normalisation of object names and the table of objects.
  \<^item> \<open>Uids\<close> (\<^verbatim>\<open>uids.c\<close>): user ids, an AVL tree ordered by the addresses of shared names.  Here the guarantees of \<open>Avl_Tree\<close>
    and \<open>Stralloc\<close> compose.
  \<^item> \<open>Svalue\<close> (\<^verbatim>\<open>types.h\<close>), \<open>Lpc_Mapping\<close> (\<^verbatim>\<open>mapping.c\<close>): mappings as growing hash tables with 16-bit sizes: lookup, insertion on
    every branch, deletion, union, composition, map and filter, each with its effect on the abstract map, and the
    invariant that ties the \<open>unfilled\<close> counter to the empty buckets.  \<open>Mapping_Strings\<close> adds string keys, where
    mappings and the shared strings compose.

  \<^bold>\<open>Time, threads, connections\<close> (\<^verbatim>\<open>src/call_out.cpp\<close>, \<^verbatim>\<open>lib/async\<close>, \<^verbatim>\<open>src/net\<close>).
  \<^item> \<open>Call_Out\<close>: the wheel of delayed calls with its delta-coded slots, abstracted to the multiset of calls with
    their due times.  The calls that are due are made, in order, and no others.
  \<^item> \<open>Async_Queue\<close> (\<^verbatim>\<open>async_queue.c\<close>): the bounded message queue under its mutex, and blocked writers as a step relation.
  \<^item> \<open>Ring_Buffer\<close>, \<open>Transport\<close> (\<^verbatim>\<open>ring_buffer.c\<close>, \<^verbatim>\<open>tcp_transport.c\<close>): the byte ring buffer and the socket transport that
    reads into and flushes from it; the results of the socket calls are a function of a world state.

  \<^bold>\<open>Fuel.\<close>  \<open>run_slot\<close> in \<open>Call_Out\<close> takes fuel because a call may schedule further calls; for calls that schedule
  nothing the theorem gives the result whenever the fuel is at least the length of the longest slot.  The flush loop
  of \<open>Transport\<close> is given one more than the number of buffered bytes, and is proved to return a result with it.
  All other loops are total functions.

  \<^bold>\<open>Not modelled.\<close>  The lexer, the compiler and the byte-code interpreter work on opcode and efun tables that the
  build generates; the just-in-time compiler, the foreign-function interface and the fibers depend on
  machine code; the main loop, the telnet and socket layers, files, the HTTP client and the databases are
  system calls; the JSON library and getopt are copies of other projects.  Reference counts of LPC values,
  allocation statistics and debugging output are left out of the components that are modelled.
\<close>

end
